(* ===== verification/Prelude.thy ===== *)
theory Prelude
  imports Main "HOL-Library.Word" "HOL-Library.Multiset" "HOL-Library.Monad_Syntax"
begin

text \<open>
  Shared vocabulary of the development: the C types of the 32-bit ARM build, the error
  numbers of \<^verbatim>\<open>include/asm-generic/errno*.h\<close>, the mode bits of
  \<^verbatim>\<open>include/linux/stat.h\<close>, the truncations the C compiler inserts when an \<open>int\<close> is
  stored in a narrower field, and the generic lemmas on lists and bits the components share.
  A function that can hit \<^verbatim>\<open>BUG_ON\<close>, follow a null pointer or overflow a signed
  integer returns \<^typ>\<open>'a option\<close>; \<^term>\<open>None\<close> is that panic.
\<close>

unbundle bit_operations_syntax

named_theorems kernel_simps \<open>unfolding rules for the accessors of the model\<close>
named_theorems frame_simps \<open>what an operation leaves unchanged\<close>
named_theorems inv_intros \<open>operations preserve their component's invariant\<close>

section \<open>Types\<close>

type_synonym u16 = "16 word"
type_synonym u32 = "32 word"
type_synonym gid_t = u32
type_synonym uid_t = u32
type_synonym addr = nat
type_synonym kernel_cap_t = "u32 list"

section \<open>Constants\<close>

abbreviation (input) EPERM :: int where "EPERM \<equiv> 1"
abbreviation (input) ENOENT :: int where "ENOENT \<equiv> 2"
abbreviation (input) EINTR :: int where "EINTR \<equiv> 4"
abbreviation (input) E2BIG :: int where "E2BIG \<equiv> 7"
abbreviation (input) EBADF :: int where "EBADF \<equiv> 9"
abbreviation (input) EAGAIN :: int where "EAGAIN \<equiv> 11"
abbreviation (input) ENOMEM :: int where "ENOMEM \<equiv> 12"
abbreviation (input) EACCES :: int where "EACCES \<equiv> 13"
abbreviation (input) EFAULT :: int where "EFAULT \<equiv> 14"
abbreviation (input) EEXIST :: int where "EEXIST \<equiv> 17"
abbreviation (input) EINVAL :: int where "EINVAL \<equiv> 22"
abbreviation (input) ENODEV :: int where "ENODEV \<equiv> 19"
abbreviation (input) ENOTTY :: int where "ENOTTY \<equiv> 25"
abbreviation (input) EFBIG :: int where "EFBIG \<equiv> 27"
abbreviation (input) ENOSPC :: int where "ENOSPC \<equiv> 28"
abbreviation (input) ERANGE :: int where "ERANGE \<equiv> 34"
abbreviation (input) ENOMSG :: int where "ENOMSG \<equiv> 42"
abbreviation (input) EIDRM :: int where "EIDRM \<equiv> 43"
abbreviation (input) ERESTARTNOHAND :: int where "ERESTARTNOHAND \<equiv> 514"

abbreviation (input) PAGE_SIZE :: nat where "PAGE_SIZE \<equiv> 4096"
abbreviation (input) INT_MAX :: int where "INT_MAX \<equiv> 2147483647"
abbreviation (input) USHRT_MAX :: int where "USHRT_MAX \<equiv> 65535"

abbreviation (input) S_IRWXUGO :: int where "S_IRWXUGO \<equiv> 511"  \<comment> \<open>octal 0777\<close>
abbreviation (input) S_IRUGO :: int where "S_IRUGO \<equiv> 292"      \<comment> \<open>octal 0444\<close>
abbreviation (input) S_IWUGO :: int where "S_IWUGO \<equiv> 146"      \<comment> \<open>octal 0222\<close>

text \<open>Stores into \<open>short\<close> and \<open>unsigned short\<close> fields.\<close>

definition to_short :: "int \<Rightarrow> int" where
  "to_short x = (x + 32768) mod 65536 - 32768"

definition to_ushort :: "int \<Rightarrow> int" where
  "to_ushort x = x mod 65536"

definition to_int32 :: "int \<Rightarrow> int" where
  "to_int32 x = (x + 2147483648) mod 4294967296 - 2147483648"

lemma to_short_id [simp]: "-32768 \<le> x \<Longrightarrow> x \<le> 32767 \<Longrightarrow> to_short x = x"
  by (simp add: to_short_def)

lemma to_short_bounds: "-32768 \<le> to_short x \<and> to_short x \<le> 32767"
  by (simp add: to_short_def)

lemma to_ushort_id [simp]: "0 \<le> x \<Longrightarrow> x \<le> 65535 \<Longrightarrow> to_ushort x = x"
  by (simp add: to_ushort_def)

lemma to_int32_id [simp]: "-2147483648 \<le> x \<Longrightarrow> x \<le> 2147483647 \<Longrightarrow> to_int32 x = x"
  by (simp add: to_int32_def)

section \<open>Lists\<close>

lemma mset_update_swap:
  assumes "i < length xs" and "j < length xs" and "i \<noteq> j"
  shows "mset (xs[i := xs ! j, j := v]) = mset (xs[i := v])"
proof -
  have "mset ((xs[i := v])[i := (xs[i := v]) ! j, j := (xs[i := v]) ! i]) = mset (xs[i := v])"
    using assms by (intro mset_swap) simp_all
  with assms show ?thesis by simp
qed

lemma nth_update_map_upt:
  assumes "i < n"
  shows "map (\<lambda>j. if j = i then v else f j) [0..<n] = (map f [0..<n])[i := v]"
  using assms by (auto intro!: nth_equalityI simp: nth_list_update)

section \<open>Calls that may panic\<close>

definition ret_all :: "('a \<Rightarrow> bool) \<Rightarrow> 'a option \<Rightarrow> bool" where
  "ret_all P x \<longleftrightarrow> (\<forall>v. x = Some v \<longrightarrow> P v)"

lemma ret_all_simps [simp]: "ret_all P (Some v) = P v" "ret_all P None"
  by (simp_all add: ret_all_def)

lemma ret_allD: "ret_all P x \<Longrightarrow> x = Some v \<Longrightarrow> P v"
  by (simp add: ret_all_def)

lemma ret_all_mono: "ret_all P x \<Longrightarrow> (\<And>v. P v \<Longrightarrow> Q v) \<Longrightarrow> ret_all Q x"
  by (simp add: ret_all_def)

lemma ret_all_bind: "ret_all (\<lambda>v. ret_all P (f v)) x \<Longrightarrow> ret_all P (x \<bind> f)"
  by (cases x) simp_all

end
