(* ===== verification/Supp_Groups.thy ===== *)
theory Supp_Groups
  imports Prelude
begin

text \<open>
  Supplementary groups: \<^verbatim>\<open>kernel/groups.c\<close> and the structures it works on
  (\<^verbatim>\<open>include/linux/cred.h\<close>). A \<^verbatim>\<open>struct group_info\<close> keeps the group ids either in its
  own \<open>small_block\<close> or in pages reached through \<open>blocks\<close>; \<open>GROUP_AT\<close> is the only way the
  code looks at an id. The theory models allocation with the roll-back of a partial
  allocation, the copies from and to user space, the Shell sort, the binary search and the
  membership tests, and proves that the search decides membership after the sort.
  Pages come from a pool (a list of page contents): taking one may fail, freeing one puts
  it back.
\<close>

section \<open>Data\<close>

abbreviation (input) NGROUPS_SMALL :: nat where "NGROUPS_SMALL \<equiv> 32"
abbreviation (input) NGROUPS_PER_BLOCK :: nat where "NGROUPS_PER_BLOCK \<equiv> 1024"
abbreviation (input) NGROUPS_MAX :: int where "NGROUPS_MAX \<equiv> 65536"

text \<open>An entry of \<open>blocks\<close> points to the embedded \<open>small_block\<close> or to a page.\<close>

datatype block = Small | Page "gid_t list"

record group_info =
  usage :: int
  ngroups :: nat
  nblocks :: nat
  small_block :: "gid_t list"
  blocks :: "block list"

record cred =
  uid :: uid_t
  gid :: gid_t
  suid :: uid_t
  sgid :: gid_t
  euid :: uid_t
  egid :: gid_t
  fsuid :: uid_t
  fsgid :: gid_t
  securebits :: u32
  cap_inheritable :: kernel_cap_t
  cap_permitted :: kernel_cap_t
  cap_effective :: kernel_cap_t
  cap_bset :: kernel_cap_t
  group_info :: group_info

definition GROUP_AT :: "group_info \<Rightarrow> nat \<Rightarrow> gid_t" where
  "GROUP_AT gi i =
     (case blocks gi ! (i div NGROUPS_PER_BLOCK) of
        Small \<Rightarrow> small_block gi ! (i mod NGROUPS_PER_BLOCK)
      | Page pg \<Rightarrow> pg ! (i mod NGROUPS_PER_BLOCK))"

definition set_GROUP_AT :: "group_info \<Rightarrow> nat \<Rightarrow> gid_t \<Rightarrow> group_info" where
  "set_GROUP_AT gi i v =
     (let b = i div NGROUPS_PER_BLOCK; k = i mod NGROUPS_PER_BLOCK in
      case blocks gi ! b of
        Small \<Rightarrow> gi\<lparr>small_block := (small_block gi)[k := v]\<rparr>
      | Page pg \<Rightarrow> gi\<lparr>blocks := (blocks gi)[b := Page (pg[k := v])]\<rparr>)"

section \<open>Allocation\<close>

type_synonym page_pool = "gid_t list list"

fun free_page :: "page_pool \<Rightarrow> block \<Rightarrow> page_pool" where
  "free_page pool (Page pg) = pg # pool"
| "free_page pool Small = pool"

text \<open>
  The loop over \<open>nblocks\<close> with its \<open>out_undo_partial_alloc\<close> exit: the pages already
  taken go back, the last one first.
\<close>

fun alloc_blocks :: "nat \<Rightarrow> page_pool \<Rightarrow> block list \<Rightarrow> page_pool \<times> block list option" where
  "alloc_blocks 0 pool got = (pool, Some got)"
| "alloc_blocks (Suc k) [] got = (foldl free_page [] (rev got), None)"
| "alloc_blocks (Suc k) (pg # pool) got = alloc_blocks k pool (got @ [Page pg])"

text \<open>
  \<open>kmem\<close> is the result of the \<^verbatim>\<open>kmalloc\<close> call: \<^term>\<open>None\<close> when it fails, otherwise the
  content the embedded block happens to have.
\<close>

definition groups_alloc ::
    "gid_t list option \<Rightarrow> page_pool \<Rightarrow> nat \<Rightarrow> page_pool \<times> group_info option" where
  "groups_alloc kmem pool gidsetsize =
     (let nb = (gidsetsize + NGROUPS_PER_BLOCK - 1) div NGROUPS_PER_BLOCK;
          nb = (if nb \<noteq> 0 then nb else 1) in
      case kmem of
        None \<Rightarrow> (pool, None)
      | Some small \<Rightarrow>
          if gidsetsize \<le> NGROUPS_SMALL
          then (pool, Some \<lparr>usage = 1, ngroups = gidsetsize, nblocks = nb,
                            small_block = small, blocks = [Small]\<rparr>)
          else (case alloc_blocks nb pool [] of
                  (pool', None) \<Rightarrow> (pool', None)
                | (pool', Some bs) \<Rightarrow>
                    (pool', Some \<lparr>usage = 1, ngroups = gidsetsize, nblocks = nb,
                                  small_block = small, blocks = bs\<rparr>)))"

definition groups_free :: "group_info \<Rightarrow> page_pool \<Rightarrow> page_pool" where
  "groups_free gi pool =
     (if blocks gi ! 0 \<noteq> Small
      then foldl free_page pool (map (\<lambda>i. blocks gi ! i) [0..<nblocks gi])
      else pool)"

definition get_group_info :: "group_info \<Rightarrow> group_info" where
  "get_group_info gi = gi\<lparr>usage := usage gi + 1\<rparr>"

text \<open>\<open>put_group_info\<close> drops a reference; the object survives (\<^term>\<open>Some\<close>) unless it was the last.\<close>

definition put_group_info :: "group_info \<Rightarrow> page_pool \<Rightarrow> page_pool \<times> group_info option" where
  "put_group_info gi pool =
     (if usage gi - 1 = 0 then (groups_free gi pool, None)
      else (pool, Some (gi\<lparr>usage := usage gi - 1\<rparr>)))"

section \<open>Copies from and to user space\<close>

definition block_data :: "group_info \<Rightarrow> nat \<Rightarrow> gid_t list" where
  "block_data gi i = (case blocks gi ! i of Small \<Rightarrow> small_block gi | Page pg \<Rightarrow> pg)"

definition store_block :: "group_info \<Rightarrow> nat \<Rightarrow> gid_t list \<Rightarrow> group_info" where
  "store_block gi i xs =
     (case blocks gi ! i of
        Small \<Rightarrow> gi\<lparr>small_block := xs @ drop (length xs) (small_block gi)\<rparr>
      | Page pg \<Rightarrow> gi\<lparr>blocks := (blocks gi)[i := Page (xs @ drop (length xs) pg)]\<rparr>)"

text \<open>
  A user array is a function from indices to group ids, \<^term>\<open>None\<close> where the page is not
  accessible: a copy that touches such an index fails.
\<close>

type_synonym user_array = "nat \<Rightarrow> gid_t option"

definition copy_from_user :: "user_array \<Rightarrow> nat \<Rightarrow> nat \<Rightarrow> gid_t list option" where
  "copy_from_user u off n =
     (if \<forall>j \<in> set [off..<off + n]. u j \<noteq> None
      then Some (map (\<lambda>j. the (u j)) [off..<off + n]) else None)"

fun from_user_loop ::
    "nat list \<Rightarrow> user_array \<Rightarrow> nat \<Rightarrow> nat \<Rightarrow> group_info \<Rightarrow> group_info \<times> int" where
  "from_user_loop [] u off cnt gi = (gi, 0)"
| "from_user_loop (i # rest) u off cnt gi =
     (let cp_count = min NGROUPS_PER_BLOCK cnt in
      case copy_from_user u off cp_count of
        None \<Rightarrow> (gi, - EFAULT)
      | Some xs \<Rightarrow>
          from_user_loop rest u (off + NGROUPS_PER_BLOCK) (cnt - cp_count) (store_block gi i xs))"

definition groups_from_user :: "group_info \<Rightarrow> user_array \<Rightarrow> group_info \<times> int" where
  "groups_from_user gi u = from_user_loop [0..<nblocks gi] u 0 (ngroups gi) gi"

text \<open>
  Writing to user space: \<open>w off xs\<close> says whether the copy of \<open>xs\<close> to offset \<open>off\<close>
  succeeds; the result lists the copies made.
\<close>

fun to_user_loop ::
    "nat list \<Rightarrow> (nat \<Rightarrow> gid_t list \<Rightarrow> bool) \<Rightarrow> nat \<Rightarrow> nat \<Rightarrow> group_info \<Rightarrow>
       (nat \<times> gid_t list) list \<times> int" where
  "to_user_loop [] w off cnt gi = ([], 0)"
| "to_user_loop (i # rest) w off cnt gi =
     (let cp_count = min NGROUPS_PER_BLOCK cnt; xs = take cp_count (block_data gi i) in
      if \<not> w off xs then ([], - EFAULT)
      else (case to_user_loop rest w (off + NGROUPS_PER_BLOCK) (cnt - cp_count) gi of
              (out, ret) \<Rightarrow> ((off, xs) # out, ret)))"

definition groups_to_user ::
    "(nat \<Rightarrow> gid_t list \<Rightarrow> bool) \<Rightarrow> group_info \<Rightarrow> (nat \<times> gid_t list) list \<times> int" where
  "groups_to_user w gi = to_user_loop [0..<nblocks gi] w 0 (ngroups gi) gi"

text \<open>The caller's array after these copies.\<close>

fun user_array :: "(nat \<times> gid_t list) list \<Rightarrow> (nat \<Rightarrow> gid_t option) \<Rightarrow> nat \<Rightarrow> gid_t option" where
  "user_array [] m = m"
| "user_array ((off, xs) # out) m =
     user_array out (\<lambda>j. if off \<le> j \<and> j < off + length xs then Some (xs ! (j - off)) else m j)"

section \<open>Sorting and searching\<close>

function sort_stride :: "nat \<Rightarrow> nat \<Rightarrow> nat" where
  "sort_stride gidsetsize stride =
     (if stride < gidsetsize then sort_stride gidsetsize (3 * stride + 1) else stride)"
  by pat_completeness auto
termination by (relation "measure (\<lambda>(n, s). n - s)") auto

text \<open>
  The inner \<open>while\<close> of the Shell sort with the store that follows it. \<open>left\<close> is signed in
  the source and leaves the array below zero. The pass is only run with a nonzero stride.
\<close>

function sort_shift :: "group_info \<Rightarrow> nat \<Rightarrow> int \<Rightarrow> nat \<Rightarrow> gid_t \<Rightarrow> group_info" where
  "sort_shift gi stride left right tmp =
     (if stride \<noteq> 0 \<and> left \<ge> 0 \<and> GROUP_AT gi (nat left) > tmp
      then sort_shift (set_GROUP_AT gi right (GROUP_AT gi (nat left)))
             stride (left - int stride) (nat left) tmp
      else set_GROUP_AT gi right tmp)"
  by pat_completeness auto
termination
  by (relation "measure (\<lambda>(gi, stride, left, right, tmp). nat (left + 1))") auto

definition sort_step :: "nat \<Rightarrow> nat \<Rightarrow> group_info \<Rightarrow> group_info" where
  "sort_step stride base gi =
     (let right = base + stride in
      sort_shift gi stride (int base) right (GROUP_AT gi right))"

definition sort_pass :: "nat \<Rightarrow> group_info \<Rightarrow> group_info" where
  "sort_pass stride gi = fold (sort_step stride) [0..<ngroups gi - stride] gi"

function sort_loop :: "nat \<Rightarrow> group_info \<Rightarrow> group_info" where
  "sort_loop stride gi = (if stride = 0 then gi else sort_loop (stride div 3) (sort_pass stride gi))"
  by pat_completeness auto
termination by (relation "measure fst") auto

definition groups_sort :: "group_info \<Rightarrow> group_info" where
  "groups_sort gi = sort_loop (sort_stride (ngroups gi) 1 div 3) gi"

function search_loop :: "group_info \<Rightarrow> gid_t \<Rightarrow> nat \<Rightarrow> nat \<Rightarrow> bool" where
  "search_loop gi grp left right =
     (if left < right
      then (let mid = (left + right) div 2 in
            if grp > GROUP_AT gi mid then search_loop gi grp (mid + 1) right
            else if grp < GROUP_AT gi mid then search_loop gi grp left mid
            else True)
      else False)"
  by pat_completeness auto
termination by (relation "measure (\<lambda>(gi, grp, l, r). r - l)") auto

definition groups_search :: "group_info option \<Rightarrow> gid_t \<Rightarrow> bool" where
  "groups_search gio grp =
     (case gio of None \<Rightarrow> False | Some gi \<Rightarrow> search_loop gi grp 0 (ngroups gi))"

section \<open>Credentials\<close>

text \<open>The old groups lose a reference, the new ones are sorted in place and gain one.\<close>

definition set_groups :: "cred \<Rightarrow> group_info \<Rightarrow> page_pool \<Rightarrow> page_pool \<times> cred" where
  "set_groups new gi pool =
     (let (pool', _) = put_group_info (group_info new) pool in
      (pool', new\<lparr>group_info := get_group_info (groups_sort gi)\<rparr>))"

definition in_group_p :: "cred \<Rightarrow> gid_t \<Rightarrow> bool" where
  "in_group_p cred grp =
     (if grp \<noteq> fsgid cred then groups_search (Some (group_info cred)) grp else True)"

definition in_egroup_p :: "cred \<Rightarrow> gid_t \<Rightarrow> bool" where
  "in_egroup_p cred grp =
     (if grp \<noteq> egid cred then groups_search (Some (group_info cred)) grp else True)"

declare sort_stride.simps [simp del] sort_shift.simps [simp del] sort_loop.simps [simp del]
  search_loop.simps [simp del]


section \<open>Well-formed group arrays\<close>

definition group_info_ok :: "group_info \<Rightarrow> bool" where
  "group_info_ok gi \<longleftrightarrow>
     length (small_block gi) = NGROUPS_SMALL \<and>
     (if ngroups gi \<le> NGROUPS_SMALL then nblocks gi = 1 \<and> blocks gi = [Small]
      else nblocks gi = (ngroups gi + NGROUPS_PER_BLOCK - 1) div NGROUPS_PER_BLOCK \<and>
           length (blocks gi) = nblocks gi \<and>
           (\<forall>b \<in> set (blocks gi). \<exists>pg. b = Page pg \<and> length pg = NGROUPS_PER_BLOCK))"

definition gids :: "group_info \<Rightarrow> gid_t list" where
  "gids gi = map (GROUP_AT gi) [0..<ngroups gi]"

section \<open>The array interface\<close>

text \<open>
  What the sort relies on: reading and writing an index behave as on an array of fixed
  length. \<open>elems\<close> is the array's content as a list, and a write is a list update.
\<close>

locale array_view =
  fixes get :: "'s \<Rightarrow> nat \<Rightarrow> 'a::linorder"
    and set_at :: "'s \<Rightarrow> nat \<Rightarrow> 'a \<Rightarrow> 's"
    and len :: "'s \<Rightarrow> nat"
    and ok :: "'s \<Rightarrow> bool"
  assumes get_set: "ok s \<Longrightarrow> i < len s \<Longrightarrow> j < len s \<Longrightarrow>
                      get (set_at s i v) j = (if j = i then v else get s j)"
    and len_set: "len (set_at s i v) = len s"
    and ok_set: "ok s \<Longrightarrow> i < len s \<Longrightarrow> ok (set_at s i v)"
begin

definition elems :: "'s \<Rightarrow> 'a list" where
  "elems s = map (get s) [0..<len s]"

lemma length_elems [simp]: "length (elems s) = len s"
  by (simp add: elems_def)

lemma nth_elems [simp]: "i < len s \<Longrightarrow> elems s ! i = get s i"
  by (simp add: elems_def)

lemma elems_set: "ok s \<Longrightarrow> i < len s \<Longrightarrow> elems (set_at s i v) = (elems s)[i := v]"
  by (rule nth_equalityI) (auto simp: len_set get_set nth_list_update)

end

lemma GROUP_AT_index:
  assumes "group_info_ok gi" and "i < ngroups gi"
  shows "i div NGROUPS_PER_BLOCK < length (blocks gi) \<and>
         (case blocks gi ! (i div NGROUPS_PER_BLOCK) of
            Small \<Rightarrow> ngroups gi \<le> NGROUPS_SMALL | Page pg \<Rightarrow> length pg = NGROUPS_PER_BLOCK)"
proof (cases "ngroups gi \<le> NGROUPS_SMALL")
  case True
  with assms show ?thesis by (simp add: group_info_ok_def)
next
  case False
  with assms have l: "length (blocks gi) = (ngroups gi + 1023) div 1024"
    and pages: "\<forall>b \<in> set (blocks gi). \<exists>pg. b = Page pg \<and> length pg = NGROUPS_PER_BLOCK"
    by (simp_all add: group_info_ok_def)
  from assms(2) have "i div 1024 < (ngroups gi + 1023) div 1024" by linarith
  with l have lt: "i div 1024 < length (blocks gi)" by simp
  then have "blocks gi ! (i div 1024) \<in> set (blocks gi)" by simp
  with pages lt show ?thesis by fastforce
qed

lemma ok_set_GROUP_AT:
  assumes "group_info_ok gi" and "i < ngroups gi"
  shows "group_info_ok (set_GROUP_AT gi i v)"
  using assms GROUP_AT_index [OF assms]
  by (auto simp: group_info_ok_def set_GROUP_AT_def Let_def split: block.splits
      dest!: subsetD [OF set_update_subset_insert])

lemma GROUP_AT_set:
  assumes "group_info_ok gi" and "i < ngroups gi" and "j < ngroups gi"
  shows "GROUP_AT (set_GROUP_AT gi i v) j = (if j = i then v else GROUP_AT gi j)"
proof -
  have same: "i = j" if "i div 1024 = j div 1024" and "i mod 1024 = j mod 1024"
    using that by (metis div_mult_mod_eq)
  from GROUP_AT_index [OF assms(1,2)] GROUP_AT_index [OF assms(1,3)] assms same show ?thesis
    by (auto simp: GROUP_AT_def set_GROUP_AT_def Let_def group_info_ok_def nth_list_update
        split: block.splits if_splits)
qed

lemma ngroups_set_GROUP_AT [simp]: "ngroups (set_GROUP_AT gi i v) = ngroups gi"
  by (simp add: set_GROUP_AT_def Let_def split: block.splits)

interpretation ga: array_view GROUP_AT set_GROUP_AT ngroups group_info_ok
  by unfold_locales (simp_all add: GROUP_AT_set ok_set_GROUP_AT)

lemma gids_elems: "gids = ga.elems"
  by (simp add: fun_eq_iff gids_def ga.elems_def)

lemmas gids_simps = ga.length_elems [folded gids_elems] ga.nth_elems [folded gids_elems]
  ga.elems_set [folded gids_elems]


section \<open>The Shell sort\<close>

lemma sort_shift_perm:
  assumes "group_info_ok gi" and "right < ngroups gi" and "left < int right"
  shows "group_info_ok (sort_shift gi stride left right tmp) \<and>
         ngroups (sort_shift gi stride left right tmp) = ngroups gi \<and>
         mset (gids (sort_shift gi stride left right tmp)) = mset ((gids gi)[right := tmp])"
  using assms
proof (induction gi stride left right tmp rule: sort_shift.induct)
  case (1 gi stride left right tmp)
  show ?case
  proof (cases "stride \<noteq> 0 \<and> left \<ge> 0 \<and> GROUP_AT gi (nat left) > tmp")
    case True
    let ?gi = "set_GROUP_AT gi right (GROUP_AT gi (nat left))"
    from True "1.prems" have lr: "nat left < right" "nat left < ngroups gi" by linarith+
    have ok: "group_info_ok ?gi" using "1.prems" by (simp add: ok_set_GROUP_AT)
    have eq: "gids ?gi = (gids gi)[right := gids gi ! nat left]"
      using "1.prems" lr by (simp add: gids_simps)
    have "mset ((gids gi)[right := gids gi ! nat left, nat left := tmp]) =
          mset ((gids gi)[right := tmp])"
      using lr "1.prems" by (intro mset_update_swap) (simp_all add: gids_simps)
    with "1.IH" [OF True ok] True lr eq show ?thesis
      by (subst (1 2 3) sort_shift.simps) simp
  next
    case False
    with "1.prems" show ?thesis
      by (subst (1 2 3) sort_shift.simps) (auto simp: ok_set_GROUP_AT gids_simps)
  qed
qed

text \<open>
  For stride 1 the shift is the inner loop of insertion sort. The invariant looks at the
  array with the hole \<open>right\<close> cut out: what is left of the first \<open>k + 1\<close> places is sorted,
  and everything after the hole is larger than \<open>tmp\<close>.
\<close>

definition hole_sorted :: "'a::linorder list \<Rightarrow> nat \<Rightarrow> nat \<Rightarrow> 'a \<Rightarrow> bool" where
  "hole_sorted xs r k tmp \<longleftrightarrow> r \<le> k \<and> k < length xs \<and>
     sorted (take r xs @ drop (Suc r) (take (Suc k) xs)) \<and>
     (\<forall>x \<in> set (drop (Suc r) (take (Suc k) xs)). tmp < x)"

lemma hole_sorted_move:
  assumes "hole_sorted xs r k tmp" and "0 < r" and "tmp < xs ! (r - 1)"
  shows "hole_sorted (xs[r := xs ! (r - 1)]) (r - 1) k tmp"
proof -
  let ?ys = "xs[r := xs ! (r - 1)]"
  let ?d = "drop (Suc r) (take (Suc k) xs)"
  from assms(1) have rk: "r \<le> k" "k < length xs" by (simp_all add: hole_sorted_def)
  have d: "drop (Suc (r - 1)) (take (Suc k) ?ys) = xs ! (r - 1) # ?d"
    using rk assms(2) by (simp add: Cons_nth_drop_Suc [symmetric] take_update_swap drop_update_cancel)
  have t: "take r xs = take (r - 1) xs @ [xs ! (r - 1)]"
    using rk assms(2) take_Suc_conv_app_nth [of "r - 1" xs] by simp
  have "take (r - 1) ?ys = take (r - 1) xs" using assms(2) by simp
  with d t assms rk show ?thesis by (auto simp: hole_sorted_def)
qed

lemma hole_sorted_fill:
  assumes "hole_sorted xs r k tmp" and "r = 0 \<or> xs ! (r - 1) \<le> tmp"
  shows "sorted (take (Suc k) (xs[r := tmp]))"
proof -
  from assms(1) have rk: "r \<le> k" "k < length xs"
    and s: "sorted (take r xs @ drop (Suc r) (take (Suc k) xs))"
    and gt: "\<forall>x \<in> set (drop (Suc r) (take (Suc k) xs)). tmp < x"
    by (simp_all add: hole_sorted_def)
  have split: "take (Suc k) (xs[r := tmp]) = take r xs @ tmp # drop (Suc r) (take (Suc k) xs)"
    using rk by (simp add: upd_conv_take_nth_drop take_Cons' drop_take Suc_diff_le)
  have "x \<le> tmp" if x: "x \<in> set (take r xs)" for x
  proof -
    from x rk obtain i where i: "i < r" "x = xs ! i" by (auto simp: in_set_conv_nth)
    from s have "sorted (take r xs)" by (simp add: sorted_append)
    with i rk have "x \<le> xs ! (r - 1)"
      using sorted_nth_mono [of "take r xs" i "r - 1"] by simp
    with assms(2) i show ?thesis by auto
  qed
  with split s gt show ?thesis by (auto simp: sorted_append less_imp_le)
qed

lemma sort_shift_sorted:
  assumes "group_info_ok gi" and "stride = 1" and "left = int right - 1"
    and "right < ngroups gi" and "hole_sorted (gids gi) right k tmp"
  shows "sorted (take (Suc k) (gids (sort_shift gi stride left right tmp)))"
  using assms
proof (induction gi stride left right tmp rule: sort_shift.induct)
  case (1 gi stride left right tmp)
  show ?case
  proof (cases "left \<ge> 0 \<and> GROUP_AT gi (nat left) > tmp")
    case True
    let ?gi = "set_GROUP_AT gi right (GROUP_AT gi (nat left))"
    from True "1.prems" have l: "nat left = right - 1" "0 < right" by simp_all
    have eq: "gids ?gi = (gids gi)[right := gids gi ! (right - 1)]"
      using "1.prems" l by (simp add: gids_simps)
    have h: "hole_sorted (gids ?gi) (nat left) k tmp"
      using hole_sorted_move [OF "1.prems"(5) l(2)] True "1.prems" l by (simp add: eq gids_simps)
    have IH: "sorted (take (Suc k) (gids (sort_shift ?gi stride (left - int stride) (nat left) tmp)))"
      using "1.prems" True l h by (intro "1.IH") (simp_all add: ok_set_GROUP_AT)
    with True "1.prems"(2) show ?thesis by (subst sort_shift.simps) simp
  next
    case False
    moreover have "right \<noteq> 0 \<Longrightarrow> left \<ge> 0 \<and> nat left = right - 1" using "1.prems"(3) by simp
    ultimately have "right = 0 \<or> gids gi ! (right - 1) \<le> tmp"
      using "1.prems" by (cases "right = 0") (auto simp: gids_simps not_less)
    with "1.prems" have "sorted (take (Suc k) ((gids gi)[right := tmp]))"
      by (intro hole_sorted_fill)
    with False "1.prems" show ?thesis by (subst sort_shift.simps) (auto simp: gids_simps)
  qed
qed


lemma sort_step_perm:
  assumes "group_info_ok gi" and "base + stride < ngroups gi" and "stride \<noteq> 0"
  shows "group_info_ok (sort_step stride base gi) \<and>
         ngroups (sort_step stride base gi) = ngroups gi \<and>
         mset (gids (sort_step stride base gi)) = mset (gids gi)"
proof -
  have "(gids gi)[base + stride := GROUP_AT gi (base + stride)] = gids gi"
    using assms(2) by (metis gids_simps(2) list_update_id)
  with sort_shift_perm [of gi "base + stride" "int base"] assms show ?thesis
    by (simp add: sort_step_def Let_def)
qed

lemma fold_sort_step_perm:
  assumes "group_info_ok gi" and "stride \<noteq> 0" and "\<forall>b \<in> set bs. b + stride < ngroups gi"
  shows "group_info_ok (fold (sort_step stride) bs gi) \<and>
         ngroups (fold (sort_step stride) bs gi) = ngroups gi \<and>
         mset (gids (fold (sort_step stride) bs gi)) = mset (gids gi)"
  using assms
proof (induction bs arbitrary: gi)
  case (Cons b bs)
  from Cons.prems have "group_info_ok (sort_step stride b gi)"
    "ngroups (sort_step stride b gi) = ngroups gi"
    "mset (gids (sort_step stride b gi)) = mset (gids gi)"
    using sort_step_perm [of gi b stride] by simp_all
  with Cons.IH [of "sort_step stride b gi"] Cons.prems show ?case by simp
qed simp

lemma sort_pass_perm:
  assumes "group_info_ok gi" and "stride \<noteq> 0"
  shows "group_info_ok (sort_pass stride gi) \<and> ngroups (sort_pass stride gi) = ngroups gi \<and>
         mset (gids (sort_pass stride gi)) = mset (gids gi)"
  unfolding sort_pass_def using assms by (intro fold_sort_step_perm) auto

lemma sort_step_sorted:
  assumes "group_info_ok gi" and "Suc base < ngroups gi" and "sorted (take (Suc base) (gids gi))"
  shows "sorted (take (Suc (Suc base)) (gids (sort_step 1 base gi)))"
proof -
  have "hole_sorted (gids gi) (Suc base) (Suc base) tmp" for tmp
    using assms by (simp add: hole_sorted_def gids_simps)
  then show ?thesis
    using sort_shift_sorted [of gi 1 "int base" "Suc base" "Suc base"] assms
    by (simp add: sort_step_def)
qed

lemma sort_pass_1_sorted:
  assumes "group_info_ok gi"
  shows "sorted (gids (sort_pass 1 gi))"
proof -
  let ?f = "\<lambda>n. fold (sort_step 1) [0..<n] gi"
  have prefix: "sorted (take (Suc n) (gids (?f n)))" if "n < ngroups gi" for n
    using that
  proof (induction n)
    case 0
    then show ?case by (cases "gids gi") simp_all
  next
    case (Suc n)
    have "group_info_ok (?f n) \<and> ngroups (?f n) = ngroups gi"
      using fold_sort_step_perm [OF assms, of 1 "[0..<n]"] Suc.prems by auto
    with Suc show ?case using sort_step_sorted [of "?f n" n] by simp
  qed
  have len: "ngroups (sort_pass 1 gi) = ngroups gi" using sort_pass_perm [OF assms, of 1] by simp
  show ?thesis
  proof (cases "ngroups gi = 0")
    case True
    with len show ?thesis by (simp add: gids_def)
  next
    case False
    with prefix [of "ngroups gi - 1"] len show ?thesis
      by (simp add: sort_pass_def gids_simps)
  qed
qed

lemma sort_loop_perm:
  "group_info_ok gi \<Longrightarrow> group_info_ok (sort_loop stride gi) \<and>
     ngroups (sort_loop stride gi) = ngroups gi \<and> mset (gids (sort_loop stride gi)) = mset (gids gi)"
proof (induction stride gi rule: sort_loop.induct)
  case (1 stride gi)
  then show ?case
    using sort_pass_perm [of gi stride] by (subst (1 2 3) sort_loop.simps) auto
qed

text \<open>
  The strides \<open>1, 4, 13, \<dots>\<close> divided by three come back to 1, so the last pass that runs is
  the one with stride 1.
\<close>

inductive shell_stride :: "nat \<Rightarrow> bool" where
  one: "shell_stride 1"
| triple: "shell_stride s \<Longrightarrow> shell_stride (3 * s + 1)"

lemma shell_stride_pos: "shell_stride s \<Longrightarrow> 0 < s"
  by (induction rule: shell_stride.induct) simp_all

lemma sort_stride_shell: "shell_stride s \<Longrightarrow> shell_stride (sort_stride n s) \<and> n \<le> sort_stride n s"
proof (induction n s rule: sort_stride.induct)
  case (1 n s)
  then have "s < n \<Longrightarrow> shell_stride (sort_stride n (3 * s + 1)) \<and> n \<le> sort_stride n (3 * s + 1)"
    by (auto intro: shell_stride.triple simp del: Suc_eq_plus1 One_nat_def)
  with "1.prems" show ?case
    by (subst (1 2) sort_stride.simps) auto
qed

lemma shell_stride_div: "shell_stride s \<Longrightarrow> s = 1 \<or> shell_stride (s div 3)"
proof (induction rule: shell_stride.induct)
  case (triple s)
  moreover have "(3 * s + 1) div 3 = s" by presburger
  ultimately show ?case by simp
qed simp

lemma sort_loop_sorted:
  "shell_stride stride \<Longrightarrow> group_info_ok gi \<Longrightarrow> sorted (gids (sort_loop stride gi))"
proof (induction stride gi rule: sort_loop.induct)
  case (1 stride gi)
  from "1.prems"(1) have pos: "0 < stride" by (rule shell_stride_pos)
  have ok: "group_info_ok (sort_pass stride gi)"
    using sort_pass_perm [of gi stride] "1.prems" pos by simp
  from shell_stride_div [OF "1.prems"(1)] show ?case
  proof
    assume "stride = 1"
    then show ?thesis
      using sort_pass_1_sorted [OF "1.prems"(2)]
      by (simp add: sort_loop.simps [of "Suc 0"] sort_loop.simps [of 0])
  next
    assume "shell_stride (stride div 3)"
    with "1.IH" pos ok show ?thesis by (subst sort_loop.simps) simp
  qed
qed

lemma groups_sort_perm:
  assumes "group_info_ok gi"
  shows "group_info_ok (groups_sort gi)" and "ngroups (groups_sort gi) = ngroups gi"
    and "mset (gids (groups_sort gi)) = mset (gids gi)"
    and "set (gids (groups_sort gi)) = set (gids gi)"
  using sort_loop_perm [OF assms] mset_eq_setD by (auto simp: groups_sort_def)

lemma sorted_groups_sort:
  assumes "group_info_ok gi"
  shows "sorted (gids (groups_sort gi))"
proof (cases "ngroups gi \<le> 1")
  case True
  then have "length (gids (groups_sort gi)) \<le> 1"
    using groups_sort_perm(2) [OF assms] by (simp add: gids_def)
  then show ?thesis by (cases "gids (groups_sort gi)") auto
next
  case False
  have "shell_stride (sort_stride (ngroups gi) 1)" and "ngroups gi \<le> sort_stride (ngroups gi) 1"
    using sort_stride_shell [OF shell_stride.one] by simp_all
  with shell_stride_div False have "shell_stride (sort_stride (ngroups gi) 1 div 3)" by fastforce
  with assms show ?thesis by (simp add: groups_sort_def sort_loop_sorted)
qed

section \<open>The binary search\<close>

lemma gids_mono:
  assumes "sorted (gids gi)" and "i \<le> j" and "j < ngroups gi"
  shows "GROUP_AT gi i \<le> GROUP_AT gi j"
  using sorted_nth_mono [OF assms(1,2)] assms by (simp add: gids_simps)

lemma search_loop_correct:
  assumes "sorted (gids gi)" and "right \<le> ngroups gi"
  shows "search_loop gi grp left right \<longleftrightarrow> (\<exists>i. left \<le> i \<and> i < right \<and> GROUP_AT gi i = grp)"
  using assms
proof (induction gi grp left right rule: search_loop.induct)
  case (1 gi grp left right)
  define mid where "mid = (left + right) div 2"
  show ?case
  proof (cases "left < right")
    case True
    then have m: "left \<le> mid" "mid < right" by (auto simp: mid_def)
    have lo: "GROUP_AT gi i \<le> GROUP_AT gi mid" if "i \<le> mid" for i
      using gids_mono [OF "1.prems"(1) that] m "1.prems" by simp
    have hi: "GROUP_AT gi mid \<le> GROUP_AT gi i" if "mid \<le> i" "i < right" for i
      using gids_mono [OF "1.prems"(1) that(1)] that "1.prems" by simp
    consider (gt) "GROUP_AT gi mid < grp" | (lt) "grp < GROUP_AT gi mid" | (eq) "GROUP_AT gi mid = grp"
      by (rule linorder_cases)
    then show ?thesis
    proof cases
      case gt
      then have "search_loop gi grp left right = search_loop gi grp (mid + 1) right"
        using True by (subst search_loop.simps) (simp add: mid_def)
      moreover have "search_loop gi grp (mid + 1) right \<longleftrightarrow>
          (\<exists>i. mid + 1 \<le> i \<and> i < right \<and> GROUP_AT gi i = grp)"
        using "1.IH"(1) [OF True mid_def gt] "1.prems" by simp
      moreover have "mid < i" if "GROUP_AT gi i = grp" for i
        using lo [of i] gt that by (cases "i \<le> mid") auto
      ultimately show ?thesis using m by (metis Suc_eq_plus1 Suc_leI le_trans less_imp_le)
    next
      case lt
      then have ng: "\<not> GROUP_AT gi mid < grp" by simp
      have "search_loop gi grp left right = search_loop gi grp left mid"
        using True lt ng by (subst search_loop.simps) (simp add: mid_def Let_def)
      moreover have "search_loop gi grp left mid \<longleftrightarrow>
          (\<exists>i. left \<le> i \<and> i < mid \<and> GROUP_AT gi i = grp)"
        using "1.IH"(2) [OF True mid_def ng lt] "1.prems" m by simp
      moreover have "i < mid" if "GROUP_AT gi i = grp" "i < right" for i
        using hi [of i] lt that by (cases "mid \<le> i") auto
      ultimately show ?thesis using m by (metis less_trans)
    next
      case eq
      then have "search_loop gi grp left right"
        using True by (subst search_loop.simps) (simp add: mid_def Let_def)
      with eq m show ?thesis by blast
    qed
  next
    case False
    then show ?thesis by (subst search_loop.simps) auto
  qed
qed

lemma groups_search_sorted:
  assumes "sorted (gids gi)"
  shows "groups_search (Some gi) grp \<longleftrightarrow> grp \<in> set (gids gi)"
  using search_loop_correct [OF assms, of "ngroups gi" grp 0]
  by (auto simp: groups_search_def gids_def)

section \<open>The membership interface\<close>

text \<open>
  What the permission checks rely on: once the ids have been put in order, the search
  answers membership in the set of ids that was stored.
\<close>

locale id_set =
  fixes normalise :: "'s \<Rightarrow> 's"
    and search :: "'s \<Rightarrow> 'a \<Rightarrow> bool"
    and content :: "'s \<Rightarrow> 'a set"
    and ok :: "'s \<Rightarrow> bool"
    and ordered :: "'s \<Rightarrow> bool"
  assumes ordered_normalise: "ok s \<Longrightarrow> ordered (normalise s)"
    and content_normalise: "ok s \<Longrightarrow> content (normalise s) = content s"
    and search_ordered: "ordered s \<Longrightarrow> search s x \<longleftrightarrow> x \<in> content s"
begin

lemma search_normalise: "ok s \<Longrightarrow> search (normalise s) x \<longleftrightarrow> x \<in> content s"
  by (simp add: search_ordered ordered_normalise content_normalise)

lemma search_normalise_cong:
  "ok s \<Longrightarrow> ok t \<Longrightarrow> content s = content t \<Longrightarrow> search (normalise s) = search (normalise t)"
  by (simp add: fun_eq_iff search_normalise)

end

interpretation gs: id_set groups_sort "\<lambda>gi. groups_search (Some gi)" "\<lambda>gi. set (gids gi)"
    group_info_ok "\<lambda>gi. sorted (gids gi)"
  by unfold_locales (simp_all add: sorted_groups_sort groups_sort_perm groups_search_sorted)

lemma GROUP_AT_usage [simp]: "GROUP_AT (gi\<lparr>usage := u\<rparr>) = GROUP_AT gi"
  by (simp add: fun_eq_iff GROUP_AT_def split: block.splits)

lemma gids_usage [simp]: "gids (gi\<lparr>usage := u\<rparr>) = gids gi"
  by (simp add: gids_def)

lemma group_info_ok_usage [simp]: "group_info_ok (gi\<lparr>usage := u\<rparr>) = group_info_ok gi"
  by (simp add: group_info_ok_def)


section \<open>Filling the array from user space\<close>

lemma ngroups_store_block [simp]: "ngroups (store_block gi i xs) = ngroups gi"
  by (simp add: store_block_def split: block.splits)

lemma nblocks_store_block [simp]: "nblocks (store_block gi i xs) = nblocks gi"
  by (simp add: store_block_def split: block.splits)

lemma block_at:
  assumes "group_info_ok gi" and "i < nblocks gi"
  shows "i < length (blocks gi) \<and>
         (case blocks gi ! i of Small \<Rightarrow> i = 0 \<and> ngroups gi \<le> NGROUPS_SMALL
          | Page pg \<Rightarrow> length pg = NGROUPS_PER_BLOCK \<and> NGROUPS_SMALL < ngroups gi)"
proof (cases "ngroups gi \<le> NGROUPS_SMALL")
  case True
  with assms show ?thesis by (simp add: group_info_ok_def)
next
  case False
  with assms have "i < length (blocks gi)" by (simp add: group_info_ok_def)
  moreover from this have "blocks gi ! i \<in> set (blocks gi)" by simp
  moreover from False assms
  have "\<forall>b \<in> set (blocks gi). \<exists>pg. b = Page pg \<and> length pg = NGROUPS_PER_BLOCK"
    by (simp add: group_info_ok_def)
  ultimately obtain pg where "blocks gi ! i = Page pg" "length pg = NGROUPS_PER_BLOCK"
    by blast
  with \<open>i < length (blocks gi)\<close> show ?thesis using False by simp
qed

lemma ok_store_block:
  assumes "group_info_ok gi" and "i < nblocks gi"
    and "length xs = min NGROUPS_PER_BLOCK (ngroups gi - NGROUPS_PER_BLOCK * i)"
  shows "group_info_ok (store_block gi i xs)"
  using assms block_at [OF assms(1,2)]
  by (auto simp: group_info_ok_def store_block_def split: block.splits if_splits
      dest!: subsetD [OF set_update_subset_insert])

lemma GROUP_AT_store_block:
  assumes "group_info_ok gi" and "i < nblocks gi" and "j < ngroups gi"
    and "length xs = min NGROUPS_PER_BLOCK (ngroups gi - NGROUPS_PER_BLOCK * i)"
  shows "GROUP_AT (store_block gi i xs) j =
         (if j div NGROUPS_PER_BLOCK = i then xs ! (j mod NGROUPS_PER_BLOCK) else GROUP_AT gi j)"
proof -
  have "j mod 1024 < length xs" if "j div 1024 = i"
  proof -
    have "j = 1024 * i + j mod 1024" using that by (metis mult_div_mod_eq)
    with assms(3,4) show ?thesis by simp
  qed
  with block_at [OF assms(1,2)] assms GROUP_AT_index [OF assms(1,3)] show ?thesis
    by (auto simp: GROUP_AT_def store_block_def nth_append nth_list_update
        split: block.splits if_splits)
qed

lemma copy_from_user_Some:
  "copy_from_user u off n = Some xs \<longleftrightarrow>
     (\<forall>j. off \<le> j \<and> j < off + n \<longrightarrow> u j \<noteq> None) \<and> xs = map (\<lambda>j. the (u j)) [off..<off + n]"
  by (auto simp: copy_from_user_def)

lemma copy_from_user_None:
  "copy_from_user u off n = None \<longleftrightarrow> (\<exists>j. off \<le> j \<and> j < off + n \<and> u j = None)"
  by (auto simp: copy_from_user_def)

lemma from_user_loop_ok:
  assumes "group_info_ok gi" and "k \<le> nblocks gi"
    and "\<forall>j. NGROUPS_PER_BLOCK * k \<le> j \<and> j < ngroups gi \<longrightarrow> u j \<noteq> None"
  shows "\<exists>gi'. from_user_loop [k..<nblocks gi] u (NGROUPS_PER_BLOCK * k)
                 (ngroups gi - NGROUPS_PER_BLOCK * k) gi = (gi', 0) \<and>
               group_info_ok gi' \<and> ngroups gi' = ngroups gi \<and>
               (\<forall>j < ngroups gi. GROUP_AT gi' j =
                  (if NGROUPS_PER_BLOCK * k \<le> j \<and> j < NGROUPS_PER_BLOCK * nblocks gi
                   then the (u j) else GROUP_AT gi j))"
  using assms
proof (induction "nblocks gi - k" arbitrary: k gi)
  case 0
  then show ?case by auto
next
  case (Suc d)
  let ?n = "ngroups gi" and ?B = "NGROUPS_PER_BLOCK"
  define cp where "cp = min ?B (?n - ?B * k)"
  define xs where "xs = map (\<lambda>j. the (u j)) [?B * k..<?B * k + cp]"
  define gi1 where "gi1 = store_block gi k xs"
  from Suc.hyps(2) have k: "k < nblocks gi" by simp
  have len: "length xs = min ?B (?n - ?B * k)" by (simp add: xs_def cp_def)
  have copy: "copy_from_user u (?B * k) cp = Some xs"
    unfolding copy_from_user_Some xs_def cp_def using Suc.prems(3) by auto
  have ok1: "group_info_ok gi1" unfolding gi1_def using Suc.prems(1) k len by (rule ok_store_block)
  have step: "from_user_loop [k..<nblocks gi] u (?B * k) (?n - ?B * k) gi =
      from_user_loop [Suc k..<nblocks gi1] u (?B * Suc k) (ngroups gi1 - ?B * Suc k) gi1"
    using k copy unfolding gi1_def cp_def
    by (subst upt_rec) (simp add: Let_def min_def diff_diff_left add.commute)
  have d: "d = nblocks gi1 - Suc k" using Suc.hyps(2) by (simp add: gi1_def)
  have "Suc k \<le> nblocks gi1" using k by (simp add: gi1_def)
  then obtain gi' where gi': "from_user_loop [Suc k..<nblocks gi1] u (?B * Suc k)
        (ngroups gi1 - ?B * Suc k) gi1 = (gi', 0)" "group_info_ok gi'" "ngroups gi' = ?n"
    and at: "\<forall>j < ?n. GROUP_AT gi' j =
       (if ?B * Suc k \<le> j \<and> j < ?B * nblocks gi then the (u j) else GROUP_AT gi1 j)"
    using Suc.hyps(1) [OF d ok1] Suc.prems(3) by (auto simp: gi1_def)
  have "GROUP_AT gi' j = (if ?B * k \<le> j \<and> j < ?B * nblocks gi then the (u j) else GROUP_AT gi j)"
    if j: "j < ?n" for j
  proof -
    have at1: "GROUP_AT gi1 j = (if j div ?B = k then xs ! (j mod ?B) else GROUP_AT gi j)"
      unfolding gi1_def using Suc.prems(1) k j len by (rule GROUP_AT_store_block)
    have xsj: "xs ! (j mod ?B) = the (u j)" if "j div ?B = k"
    proof -
      have "j = ?B * k + j mod ?B" using that by (metis mult_div_mod_eq)
      moreover from this j have "j mod ?B < cp" by (simp add: cp_def)
      ultimately show ?thesis by (simp add: xs_def)
    qed
    have "j div ?B = k \<longleftrightarrow> ?B * k \<le> j \<and> j < ?B * Suc k" by auto
    moreover have "j div ?B = k \<Longrightarrow> j < ?B * nblocks gi" using k by linarith
    ultimately show ?thesis using at j at1 xsj k by auto
  qed
  with step gi' show ?case by auto
qed

lemma nblocks_cover: "group_info_ok gi \<Longrightarrow> ngroups gi \<le> NGROUPS_PER_BLOCK * nblocks gi"
  by (auto simp: group_info_ok_def split: if_splits)

lemma groups_from_user_ok:
  assumes "group_info_ok gi" and "\<forall>j < ngroups gi. u j \<noteq> None"
  shows "\<exists>gi'. groups_from_user gi u = (gi', 0) \<and> group_info_ok gi' \<and>
               gids gi' = map (\<lambda>j. the (u j)) [0..<ngroups gi]"
  using from_user_loop_ok [of gi 0 u] nblocks_cover [OF assms(1)] assms
  by (force simp: groups_from_user_def gids_def)

lemma from_user_loop_reads:
  "from_user_loop rest u off cnt gi = (gi', 0) \<Longrightarrow> off \<le> j \<Longrightarrow>
   j < off + min cnt (NGROUPS_PER_BLOCK * length rest) \<Longrightarrow> u j \<noteq> None"
proof (induction rest arbitrary: off cnt gi)
  case (Cons i rest)
  let ?cp = "min NGROUPS_PER_BLOCK cnt"
  from Cons.prems(1) obtain xs where xs: "copy_from_user u off ?cp = Some xs"
    and rest: "from_user_loop rest u (off + NGROUPS_PER_BLOCK) (cnt - ?cp) (store_block gi i xs) = (gi', 0)"
    by (auto simp: Let_def split: option.splits)
  show ?case
  proof (cases "j < off + ?cp")
    case True
    with xs Cons.prems(2) show ?thesis by (simp add: copy_from_user_Some)
  next
    case False
    with Cons.prems(2,3) have "off + NGROUPS_PER_BLOCK \<le> j"
      "j < off + NGROUPS_PER_BLOCK + min (cnt - ?cp) (NGROUPS_PER_BLOCK * length rest)"
      by auto
    with Cons.IH [OF rest] show ?thesis by simp
  qed
qed simp

lemma groups_from_user_iff:
  assumes "group_info_ok gi"
  shows "(\<exists>gi'. groups_from_user gi u = (gi', 0)) \<longleftrightarrow> (\<forall>j < ngroups gi. u j \<noteq> None)"
proof
  assume "\<exists>gi'. groups_from_user gi u = (gi', 0)"
  then obtain gi' where "from_user_loop [0..<nblocks gi] u 0 (ngroups gi) gi = (gi', 0)"
    by (auto simp: groups_from_user_def)
  from from_user_loop_reads [OF this] nblocks_cover [OF assms]
  show "\<forall>j < ngroups gi. u j \<noteq> None" by auto
next
  assume "\<forall>j < ngroups gi. u j \<noteq> None"
  with groups_from_user_ok [OF assms] show "\<exists>gi'. groups_from_user gi u = (gi', 0)" by blast
qed

lemma groups_from_user_0:
  assumes "group_info_ok gi" and "groups_from_user gi u = (gi', 0)"
  shows "group_info_ok gi' \<and> gids gi' = map (\<lambda>j. the (u j)) [0..<ngroups gi] \<and>
         (\<forall>j < ngroups gi. u j \<noteq> None)"
  using groups_from_user_iff [OF assms(1), of u] groups_from_user_ok [OF assms(1), of u] assms(2)
  by auto

lemma take_block_data:
  assumes "group_info_ok gi" and "i < nblocks gi"
  shows "take (min NGROUPS_PER_BLOCK (ngroups gi - NGROUPS_PER_BLOCK * i)) (block_data gi i) =
         map (GROUP_AT gi) [NGROUPS_PER_BLOCK * i..<
           NGROUPS_PER_BLOCK * i + min NGROUPS_PER_BLOCK (ngroups gi - NGROUPS_PER_BLOCK * i)]"
    (is "take ?c _ = map _ [?o..<?o + ?c]")
proof (rule nth_equalityI)
  show "length (take ?c (block_data gi i)) = length (map (GROUP_AT gi) [?o..<?o + ?c])"
    using block_at [OF assms] assms(1)
    by (auto simp: block_data_def group_info_ok_def split: block.splits)
next
  fix k assume "k < length (take ?c (block_data gi i))"
  then have k: "k < ?c" by simp
  then have "(?o + k) div 1024 = i" "(?o + k) mod 1024 = k" by auto
  with k show "take ?c (block_data gi i) ! k = map (GROUP_AT gi) [?o..<?o + ?c] ! k"
    by (simp add: GROUP_AT_def block_data_def split: block.splits)
qed

lemma nth_map_upt_from: "a \<le> j \<Longrightarrow> j < a + c \<Longrightarrow> map f [a..<a + c] ! (j - a) = f j"
  by simp

lemma to_user_loop_all:
  assumes "group_info_ok gi" and "k \<le> nblocks gi"
  shows "\<exists>out. to_user_loop [k..<nblocks gi] (\<lambda>_ _. True) (NGROUPS_PER_BLOCK * k)
           (ngroups gi - NGROUPS_PER_BLOCK * k) gi = (out, 0) \<and>
         (\<forall>m. user_array out m =
            (\<lambda>j. if NGROUPS_PER_BLOCK * k \<le> j \<and> j < ngroups gi then Some (GROUP_AT gi j) else m j))"
  using assms(2)
proof (induction "nblocks gi - k" arbitrary: k)
  case 0
  with nblocks_cover [OF assms(1)] show ?case by (auto simp: fun_eq_iff)
next
  case (Suc d)
  let ?B = NGROUPS_PER_BLOCK and ?n = "ngroups gi"
  let ?c = "min ?B (?n - ?B * k)"
  from Suc.hyps(2) have k: "k < nblocks gi" by simp
  have "d = nblocks gi - Suc k" "Suc k \<le> nblocks gi" using Suc.hyps(2) k by simp_all
  from Suc.hyps(1) [OF this] obtain out where
    out: "to_user_loop [Suc k..<nblocks gi] (\<lambda>_ _. True) (?B * Suc k) (?n - ?B * Suc k) gi = (out, 0)"
    and rest: "\<forall>m. user_array out m = (\<lambda>j. if ?B * Suc k \<le> j \<and> j < ?n then Some (GROUP_AT gi j) else m j)"
    by blast
  have "?n - ?B * k - ?c = ?n - ?B * Suc k" by auto
  with out have "to_user_loop [k..<nblocks gi] (\<lambda>_ _. True) (?B * k) (?n - ?B * k) gi =
      ((?B * k, map (GROUP_AT gi) [?B * k..<?B * k + ?c]) # out, 0)"
    using k take_block_data [OF assms(1) k] by (subst upt_rec) (simp add: Let_def add.commute)
  moreover have "user_array ((?B * k, map (GROUP_AT gi) [?B * k..<?B * k + ?c]) # out) m =
      (\<lambda>j. if ?B * k \<le> j \<and> j < ?n then Some (GROUP_AT gi j) else m j)" for m
    by (auto simp: rest fun_eq_iff nth_map_upt_from)
  ultimately show ?case by blast
qed

lemma groups_to_user_all:
  assumes "group_info_ok gi"
  shows "\<exists>out. groups_to_user (\<lambda>_ _. True) gi = (out, 0) \<and>
    (\<forall>m. user_array out m = (\<lambda>j. if j < length (gids gi) then Some (gids gi ! j) else m j))"
proof -
  from to_user_loop_all [OF assms, of 0] obtain out where
    "groups_to_user (\<lambda>_ _. True) gi = (out, 0)"
    "\<forall>m. user_array out m = (\<lambda>j. if j < ngroups gi then Some (GROUP_AT gi j) else m j)"
    by (auto simp: groups_to_user_def)
  then show ?thesis by (intro exI [of _ out]) (auto simp: gids_def fun_eq_iff)
qed

section \<open>Allocation keeps every page\<close>

fun block_pages :: "block \<Rightarrow> gid_t list multiset" where
  "block_pages Small = {#}"
| "block_pages (Page pg) = {#pg#}"

definition pages_of :: "block list \<Rightarrow> gid_t list multiset" where
  "pages_of bs = (\<Sum>b \<leftarrow> bs. block_pages b)"

lemma mset_free_pages: "mset (foldl free_page pool bs) = mset pool + pages_of bs"
proof (induction bs arbitrary: pool)
  case (Cons b bs)
  then show ?case by (cases b) (simp_all add: pages_of_def)
qed (simp add: pages_of_def)

lemma pages_of_rev [simp]: "pages_of (rev bs) = pages_of bs"
  by (induction bs) (simp_all add: pages_of_def)

lemma alloc_blocks_pages:
  "alloc_blocks n pool got = (pool', r) \<Longrightarrow>
     (case r of None \<Rightarrow> mset pool' = mset pool + pages_of got
      | Some bs \<Rightarrow> mset pool' + pages_of bs = mset pool + pages_of got \<and>
                   length bs = length got + n \<and>
                   set bs \<subseteq> set got \<union> Page ` set pool)"
proof (induction n pool got arbitrary: pool' r rule: alloc_blocks.induct)
  case (1 pool got)
  then show ?case by auto
next
  case (2 k got)
  then show ?case by (auto simp: mset_free_pages)
next
  case (3 k pg pool got)
  then have "alloc_blocks k pool (got @ [Page pg]) = (pool', r)" by simp
  from "3.IH" [OF this] show ?case by (auto simp: pages_of_def split: option.splits)
qed

lemma alloc_blocks_enough:
  "n \<le> length pool \<Longrightarrow> \<exists>pool' bs. alloc_blocks n pool got = (pool', Some bs)"
  by (induction n pool got rule: alloc_blocks.induct) auto

lemma groups_alloc_ok:
  assumes "groups_alloc (Some small) pool n = (pool', Some gi)"
    and "length small = NGROUPS_SMALL" and "\<forall>pg \<in> set pool. length pg = NGROUPS_PER_BLOCK"
  shows "group_info_ok gi \<and> ngroups gi = n \<and> usage gi = 1"
proof (cases "n \<le> NGROUPS_SMALL")
  case True
  with assms show ?thesis by (auto simp: groups_alloc_def group_info_ok_def Let_def)
next
  case False
  let ?nb = "(1023 + n) div 1024"
  from False assms(1) obtain bs where bs: "alloc_blocks ?nb pool [] = (pool', Some bs)"
    and gi: "gi = \<lparr>usage = 1, ngroups = n, nblocks = ?nb, small_block = small, blocks = bs\<rparr>"
    by (auto simp: groups_alloc_def Let_def split: if_splits prod.splits option.splits)
  from alloc_blocks_pages [OF bs] have "length bs = ?nb" "set bs \<subseteq> Page ` set pool" by simp_all
  moreover from this(2) assms(3) have "\<forall>b \<in> set bs. \<exists>pg. b = Page pg \<and> length pg = 1024" by blast
  ultimately show ?thesis using False assms(2) gi by (simp add: group_info_ok_def)
qed

lemma groups_alloc_pages:
  assumes "groups_alloc kmem pool n = (pool', r)"
  shows "case r of None \<Rightarrow> mset pool' = mset pool
         | Some gi \<Rightarrow> mset (groups_free gi pool') = mset pool"
proof (cases "kmem = None \<or> n \<le> NGROUPS_SMALL")
  case True
  with assms show ?thesis by (auto simp: groups_alloc_def groups_free_def Let_def split: option.splits)
next
  case False
  let ?nb = "(1023 + n) div 1024"
  obtain small where kmem: "kmem = Some small" using False by auto
  obtain pool1 bso where bs: "alloc_blocks ?nb pool [] = (pool1, bso)" by fastforce
  have none: "pages_of [] = {#}" by (simp add: pages_of_def)
  have nb: "0 < ?nb" using False by auto
  show ?thesis
  proof (cases bso)
    case None
    with assms False kmem bs alloc_blocks_pages [OF bs] show ?thesis
      by (auto simp: groups_alloc_def Let_def none nb)
  next
    case (Some bs')
    with alloc_blocks_pages [OF bs] have pages: "mset pool1 + pages_of bs' = mset pool"
      and len: "length bs' = ?nb" and ps: "set bs' \<subseteq> Page ` set pool" by (simp_all add: none)
    have "bs' \<noteq> []" using len False by auto
    with ps have "bs' ! 0 \<noteq> Small" by (cases bs') auto
    moreover have "map (\<lambda>i. bs' ! i) [0..<?nb] = bs'" by (metis len map_nth)
    ultimately show ?thesis using assms False kmem bs Some pages
      by (auto simp: groups_alloc_def groups_free_def Let_def mset_free_pages nb)
  qed
qed

section \<open>Properties\<close>

text \<open>
  C13: \<open>groups_sort\<close> leaves the group ids of any well-formed array, small or paged, in
  ascending order, keeps every id with its multiplicity, and keeps the array well formed.
\<close>

theorem groups_sort_correct:
  assumes "group_info_ok gi"
  shows "sorted (gids (groups_sort gi)) \<and> mset (gids (groups_sort gi)) = mset (gids gi) \<and>
         group_info_ok (groups_sort gi)"
  using assms by (simp add: sorted_groups_sort groups_sort_perm)

definition example_groups :: group_info where
  "example_groups = \<lparr>usage = 1, ngroups = 5, nblocks = 1,
     small_block = [3003, 1015, 3001, 1006, 3001] @ replicate 27 0, blocks = [Small]\<rparr>"

theorem groups_sort_correct_witness:
  "gids example_groups = [3003, 1015, 3001, 1006, 3001] \<and>
   sorted (gids (groups_sort example_groups)) \<and>
   mset (gids (groups_sort example_groups)) = {#3003, 1015, 3001, 1006, 3001#}"
proof -
  have ok: "group_info_ok example_groups" by (simp add: group_info_ok_def example_groups_def)
  have ids: "gids example_groups = [3003, 1015, 3001, 1006, 3001]" by code_simp
  show ?thesis using groups_sort_correct [OF ok] unfolding ids by simp
qed

text \<open>
  C16: allocation and release of a group array neither lose nor duplicate a page. When
  \<open>groups_alloc\<close> fails part of the way, every page it had taken is back in the pool; when it
  succeeds, freeing the array gives the pool it started from.
\<close>

theorem groups_alloc_balanced:
  assumes "groups_alloc kmem pool n = (pool', r)"
  shows "case r of None \<Rightarrow> mset pool' = mset pool
         | Some gi \<Rightarrow> mset (groups_free gi pool') = mset pool"
  using assms by (rule groups_alloc_pages)

theorem groups_alloc_balanced_witness:
  "groups_alloc (Some (replicate 32 0)) [replicate 1024 7] 2000 = ([replicate 1024 7], None) \<and>
   mset [replicate 1024 (7::gid_t)] = mset [replicate 1024 7]"
proof -
  have "groups_alloc (Some (replicate 32 0)) [replicate 1024 7] 2000 = ([replicate 1024 7], None)"
    by (simp add: groups_alloc_def numeral_2_eq_2 Let_def)
  with groups_alloc_balanced [OF this] show ?thesis by simp
qed

end
