(* ===== verification/Capability.thy ===== *)
theory Capability
  imports Supp_Groups
begin

text \<open>
  POSIX capabilities: the set operations of \<^verbatim>\<open>include/linux/capability.h\<close>, the default
  security hooks of \<^verbatim>\<open>security/commoncap.c\<close> (this build has no LSM, so the
  \<^verbatim>\<open>security_*\<close> calls are these functions) and the system calls of
  \<^verbatim>\<open>kernel/capability.c\<close>, together with the \<^verbatim>\<open>setgroups\<close> and \<^verbatim>\<open>getgroups\<close> calls of
  \<^verbatim>\<open>kernel/groups.c\<close>, which need \<open>capable\<close>. A \<^verbatim>\<open>kernel_cap_t\<close> is its array of two
  32-bit words. The calling task \<open>current\<close> is the argument \<open>t\<close>, threaded because
  \<open>capable\<close> sets its \<open>PF_SUPERPRIV\<close> flag. \<open>CONFIG_ANDROID_PARANOID_NETWORK\<close> is set,
  as in the shipped configuration. The references that RCU callbacks drop after a
  credential was replaced or aborted are outside the model.
\<close>

section \<open>Constants\<close>

abbreviation (input) CAP_CHOWN :: nat where "CAP_CHOWN \<equiv> 0"
abbreviation (input) CAP_DAC_OVERRIDE :: nat where "CAP_DAC_OVERRIDE \<equiv> 1"
abbreviation (input) CAP_DAC_READ_SEARCH :: nat where "CAP_DAC_READ_SEARCH \<equiv> 2"
abbreviation (input) CAP_FOWNER :: nat where "CAP_FOWNER \<equiv> 3"
abbreviation (input) CAP_FSETID :: nat where "CAP_FSETID \<equiv> 4"
abbreviation (input) CAP_SETGID :: nat where "CAP_SETGID \<equiv> 6"
abbreviation (input) CAP_SETUID :: nat where "CAP_SETUID \<equiv> 7"
abbreviation (input) CAP_SETPCAP :: nat where "CAP_SETPCAP \<equiv> 8"
abbreviation (input) CAP_LINUX_IMMUTABLE :: nat where "CAP_LINUX_IMMUTABLE \<equiv> 9"
abbreviation (input) CAP_NET_ADMIN :: nat where "CAP_NET_ADMIN \<equiv> 12"
abbreviation (input) CAP_NET_RAW :: nat where "CAP_NET_RAW \<equiv> 13"
abbreviation (input) CAP_SYS_RAWIO :: nat where "CAP_SYS_RAWIO \<equiv> 17"
abbreviation (input) CAP_SYS_PTRACE :: nat where "CAP_SYS_PTRACE \<equiv> 19"
abbreviation (input) CAP_SYS_ADMIN :: nat where "CAP_SYS_ADMIN \<equiv> 21"
abbreviation (input) CAP_SYS_NICE :: nat where "CAP_SYS_NICE \<equiv> 23"
abbreviation (input) CAP_SYS_TIME :: nat where "CAP_SYS_TIME \<equiv> 25"
abbreviation (input) CAP_MKNOD :: nat where "CAP_MKNOD \<equiv> 27"
abbreviation (input) CAP_SETFCAP :: nat where "CAP_SETFCAP \<equiv> 31"
abbreviation (input) CAP_MAC_OVERRIDE :: nat where "CAP_MAC_OVERRIDE \<equiv> 32"
abbreviation (input) CAP_LAST_CAP :: nat where "CAP_LAST_CAP \<equiv> 33"

abbreviation (input) AID_NET_RAW :: gid_t where "AID_NET_RAW \<equiv> 3004"
abbreviation (input) AID_NET_ADMIN :: gid_t where "AID_NET_ADMIN \<equiv> 3005"

abbreviation (input) SECURE_NOROOT :: nat where "SECURE_NOROOT \<equiv> 0"
abbreviation (input) SECURE_NO_SETUID_FIXUP :: nat where "SECURE_NO_SETUID_FIXUP \<equiv> 2"
abbreviation (input) SECURE_KEEP_CAPS :: nat where "SECURE_KEEP_CAPS \<equiv> 4"
abbreviation (input) SECURE_KEEP_CAPS_LOCKED :: nat where "SECURE_KEEP_CAPS_LOCKED \<equiv> 5"

abbreviation (input) ESRCH :: int where "ESRCH \<equiv> 3"
abbreviation (input) ENOSYS :: int where "ENOSYS \<equiv> 38"
abbreviation (input) ENODATA :: int where "ENODATA \<equiv> 61"
abbreviation (input) EOPNOTSUPP :: int where "EOPNOTSUPP \<equiv> 95"

section \<open>Capability sets\<close>

definition cap_valid :: "nat \<Rightarrow> bool" where
  "cap_valid x \<longleftrightarrow> x \<le> CAP_LAST_CAP"

definition CAP_TO_INDEX :: "nat \<Rightarrow> nat" where
  "CAP_TO_INDEX x = x div 32"

definition CAP_TO_MASK :: "nat \<Rightarrow> u32" where
  "CAP_TO_MASK x = push_bit (x mod 32) 1"

definition cap_raised :: "kernel_cap_t \<Rightarrow> nat \<Rightarrow> bool" where
  "cap_raised c flag \<longleftrightarrow> (c ! CAP_TO_INDEX flag) AND CAP_TO_MASK flag \<noteq> 0"

definition cap_raise :: "kernel_cap_t \<Rightarrow> nat \<Rightarrow> kernel_cap_t" where
  "cap_raise c flag =
     c[CAP_TO_INDEX flag := (c ! CAP_TO_INDEX flag) OR CAP_TO_MASK flag]"

definition cap_lower :: "kernel_cap_t \<Rightarrow> nat \<Rightarrow> kernel_cap_t" where
  "cap_lower c flag =
     c[CAP_TO_INDEX flag := (c ! CAP_TO_INDEX flag) AND NOT (CAP_TO_MASK flag)]"

definition CAP_EMPTY_SET :: kernel_cap_t where
  "CAP_EMPTY_SET = [0, 0]"

definition CAP_FULL_SET :: kernel_cap_t where
  "CAP_FULL_SET = [NOT 0, NOT 0]"

definition CAP_BOP_ALL :: "(u32 \<Rightarrow> u32 \<Rightarrow> u32) \<Rightarrow> kernel_cap_t \<Rightarrow> kernel_cap_t \<Rightarrow> kernel_cap_t" where
  "CAP_BOP_ALL oper a b = [oper (a ! 0) (b ! 0), oper (a ! 1) (b ! 1)]"

definition cap_combine :: "kernel_cap_t \<Rightarrow> kernel_cap_t \<Rightarrow> kernel_cap_t" where
  "cap_combine a b = CAP_BOP_ALL (\<lambda>x y. x OR y) a b"

definition cap_intersect :: "kernel_cap_t \<Rightarrow> kernel_cap_t \<Rightarrow> kernel_cap_t" where
  "cap_intersect a b = CAP_BOP_ALL (\<lambda>x y. x AND y) a b"

definition cap_drop :: "kernel_cap_t \<Rightarrow> kernel_cap_t \<Rightarrow> kernel_cap_t" where
  "cap_drop a b = CAP_BOP_ALL (\<lambda>x y. x AND NOT y) a b"

definition cap_isclear :: "kernel_cap_t \<Rightarrow> bool" where
  "cap_isclear a \<longleftrightarrow> a ! 0 = 0 \<and> a ! 1 = 0"

definition cap_issubset :: "kernel_cap_t \<Rightarrow> kernel_cap_t \<Rightarrow> bool" where
  "cap_issubset a b \<longleftrightarrow> cap_isclear (cap_drop a b)"

definition CAP_FS_SET :: kernel_cap_t where
  "CAP_FS_SET =
     [CAP_TO_MASK CAP_CHOWN OR CAP_TO_MASK CAP_MKNOD OR CAP_TO_MASK CAP_DAC_OVERRIDE OR
      CAP_TO_MASK CAP_DAC_READ_SEARCH OR CAP_TO_MASK CAP_FOWNER OR CAP_TO_MASK CAP_FSETID OR
      CAP_TO_MASK CAP_LINUX_IMMUTABLE,
      CAP_TO_MASK CAP_MAC_OVERRIDE]"

definition cap_drop_fs_set :: "kernel_cap_t \<Rightarrow> kernel_cap_t" where
  "cap_drop_fs_set a = cap_drop a CAP_FS_SET"

definition cap_raise_fs_set :: "kernel_cap_t \<Rightarrow> kernel_cap_t \<Rightarrow> kernel_cap_t" where
  "cap_raise_fs_set a permitted = cap_combine a (cap_intersect permitted CAP_FS_SET)"

section \<open>Tasks\<close>

text \<open>
  The part of \<^verbatim>\<open>struct task_struct\<close> the hooks touch; \<open>mm_dumpable\<close> is the dumpable
  state of \<open>task->mm\<close>, \<^term>\<open>None\<close> for a task without \<open>mm\<close>.
\<close>

record task_struct =
  tcred :: cred
  tflags :: u32
  tpid :: int
  pdeath_signal :: int
  mm_dumpable :: "int option"

abbreviation (input) PF_SUPERPRIV :: u32 where "PF_SUPERPRIV \<equiv> 0x100"

text \<open>What the environment decides in one call: whether memory is there, and a sysctl.\<close>

record cred_env =
  cred_mem :: bool
  suid_dumpable :: int

definition prepare_creds :: "cred_env \<Rightarrow> task_struct \<Rightarrow> (task_struct \<times> cred) option" where
  "prepare_creds env t =
     (if \<not> cred_mem env then None
      else let c = (tcred t)\<lparr>group_info := get_group_info (group_info (tcred t))\<rparr>
           in Some (t\<lparr>tcred := c\<rparr>, c))"

definition commit_creds :: "cred_env \<Rightarrow> task_struct \<Rightarrow> cred \<Rightarrow> task_struct \<times> int" where
  "commit_creds env t new =
     (let old = tcred t;
          t = (if euid old \<noteq> euid new \<or> egid old \<noteq> egid new \<or> fsuid old \<noteq> fsuid new \<or>
                  fsgid old \<noteq> fsgid new \<or> \<not> cap_issubset (cap_permitted new) (cap_permitted old)
               then t\<lparr>mm_dumpable := (case mm_dumpable t of None \<Rightarrow> None
                                       | Some d \<Rightarrow> Some (suid_dumpable env)),
                      pdeath_signal := 0\<rparr>
               else t)
      in (t\<lparr>tcred := new\<rparr>, 0))"

section \<open>Permission hooks\<close>

text \<open>
  \<open>cred\<close> is the subject's credential, but \<open>in_egroup_p\<close> looks at the groups of \<open>current\<close>.
\<close>

definition cap_capable :: "task_struct \<Rightarrow> cred \<Rightarrow> nat \<Rightarrow> int" where
  "cap_capable t cred cap =
     (if cap = CAP_NET_RAW \<and> in_egroup_p (tcred t) AID_NET_RAW then 0
      else if cap = CAP_NET_ADMIN \<and> in_egroup_p (tcred t) AID_NET_ADMIN then 0
      else if cap_raised (cap_effective cred) cap then 0 else - EPERM)"

text \<open>\<open>capable\<close>: \<^term>\<open>None\<close> is the \<^verbatim>\<open>BUG()\<close> for an invalid capability.\<close>

definition capable :: "task_struct \<Rightarrow> nat \<Rightarrow> (bool \<times> task_struct) option" where
  "capable t cap =
     (if \<not> cap_valid cap then None
      else if cap_capable t (tcred t) cap = 0
      then Some (True, t\<lparr>tflags := tflags t OR PF_SUPERPRIV\<rparr>)
      else Some (False, t))"

definition has_capability :: "task_struct \<Rightarrow> cred \<Rightarrow> nat \<Rightarrow> bool" where
  "has_capability t cred cap \<longleftrightarrow> cap_capable t cred cap = 0"

definition cap_netlink_send :: "task_struct \<Rightarrow> kernel_cap_t \<times> int" where
  "cap_netlink_send t = (cap_effective (tcred t), 0)"

definition cap_netlink_recv :: "kernel_cap_t \<Rightarrow> nat \<Rightarrow> int" where
  "cap_netlink_recv eff_cap cap = (if \<not> cap_raised eff_cap cap then - EPERM else 0)"

definition cap_settime :: "task_struct \<Rightarrow> (int \<times> task_struct) option" where
  "cap_settime t = do {
     (ok, t) \<leftarrow> capable t CAP_SYS_TIME;
     Some (if \<not> ok then - EPERM else 0, t) }"

definition cap_ptrace_access_check :: "task_struct \<Rightarrow> cred \<Rightarrow> (int \<times> task_struct) option" where
  "cap_ptrace_access_check t child =
     (if \<not> cap_issubset (cap_permitted child) (cap_permitted (tcred t))
      then do { (ok, t) \<leftarrow> capable t CAP_SYS_PTRACE; Some (if \<not> ok then - EPERM else 0, t) }
      else Some (0, t))"

definition cap_ptrace_traceme :: "task_struct \<Rightarrow> cred \<Rightarrow> int" where
  "cap_ptrace_traceme t parent =
     (if \<not> cap_issubset (cap_permitted (tcred t)) (cap_permitted parent) \<and>
         \<not> has_capability t parent CAP_SYS_PTRACE
      then - EPERM else 0)"

definition cap_capget :: "cred \<Rightarrow> kernel_cap_t \<times> kernel_cap_t \<times> kernel_cap_t" where
  "cap_capget target = (cap_effective target, cap_inheritable target, cap_permitted target)"

definition cap_inh_is_capped :: "task_struct \<Rightarrow> bool" where
  "cap_inh_is_capped t = (if cap_capable t (tcred t) CAP_SETPCAP = 0 then False else True)"

definition cap_capset ::
    "task_struct \<Rightarrow> cred \<Rightarrow> cred \<Rightarrow> kernel_cap_t \<Rightarrow> kernel_cap_t \<Rightarrow> kernel_cap_t \<Rightarrow> cred \<times> int" where
  "cap_capset t new old effective inheritable permitted =
     (if cap_inh_is_capped t \<and>
         \<not> cap_issubset inheritable (cap_combine (cap_inheritable old) (cap_permitted old))
      then (new, - EPERM)
      else if \<not> cap_issubset inheritable (cap_combine (cap_inheritable old) (cap_bset old))
      then (new, - EPERM)
      else if \<not> cap_issubset permitted (cap_permitted old) then (new, - EPERM)
      else if \<not> cap_issubset effective permitted then (new, - EPERM)
      else (new\<lparr>cap_effective := effective, cap_inheritable := inheritable,
                cap_permitted := permitted\<rparr>, 0))"

definition cap_safe_nice :: "task_struct \<Rightarrow> cred \<Rightarrow> (int \<times> task_struct) option" where
  "cap_safe_nice t p =
     (if \<not> cap_issubset (cap_permitted p) (cap_permitted (tcred t))
      then do { (ok, t) \<leftarrow> capable t CAP_SYS_NICE; Some (if \<not> ok then - EPERM else 0, t) }
      else Some (0, t))"

definition cap_task_setscheduler :: "task_struct \<Rightarrow> cred \<Rightarrow> (int \<times> task_struct) option" where
  "cap_task_setscheduler t p = cap_safe_nice t p"

definition cap_task_setioprio :: "task_struct \<Rightarrow> cred \<Rightarrow> (int \<times> task_struct) option" where
  "cap_task_setioprio t p = cap_safe_nice t p"

definition cap_task_setnice :: "task_struct \<Rightarrow> cred \<Rightarrow> (int \<times> task_struct) option" where
  "cap_task_setnice t p = cap_safe_nice t p"

abbreviation (input) SYSLOG_ACTION_OPEN :: int where "SYSLOG_ACTION_OPEN \<equiv> 1"
abbreviation (input) SYSLOG_ACTION_READ_ALL :: int where "SYSLOG_ACTION_READ_ALL \<equiv> 3"
abbreviation (input) SYSLOG_ACTION_SIZE_BUFFER :: int where "SYSLOG_ACTION_SIZE_BUFFER \<equiv> 10"

definition cap_syslog :: "task_struct \<Rightarrow> int \<Rightarrow> bool \<Rightarrow> (int \<times> task_struct) option" where
  "cap_syslog t type from_file =
     (if type \<noteq> SYSLOG_ACTION_OPEN \<and> from_file then Some (0, t)
      else if type \<noteq> SYSLOG_ACTION_READ_ALL \<and> type \<noteq> SYSLOG_ACTION_SIZE_BUFFER
      then do { (ok, t) \<leftarrow> capable t CAP_SYS_ADMIN; Some (if \<not> ok then - EPERM else 0, t) }
      else Some (0, t))"

definition cap_vm_enough_memory :: "(int \<Rightarrow> bool \<Rightarrow> int) \<Rightarrow> task_struct \<Rightarrow> int \<Rightarrow> int" where
  "cap_vm_enough_memory vm_enough t pages =
     (let cap_sys_admin = (cap_capable t (tcred t) CAP_SYS_ADMIN = 0)
      in vm_enough pages cap_sys_admin)"

definition cap_file_mmap :: "u32 \<Rightarrow> task_struct \<Rightarrow> u32 \<Rightarrow> int \<times> task_struct" where
  "cap_file_mmap dac_mmap_min_addr t addr =
     (if addr < dac_mmap_min_addr
      then (let ret = cap_capable t (tcred t) CAP_SYS_RAWIO in
            (ret, if ret = 0 then t\<lparr>tflags := tflags t OR PF_SUPERPRIV\<rparr> else t))
      else (0, t))"

definition XATTR_NAME_CAPS :: string where
  "XATTR_NAME_CAPS = ''security.capability''"

definition cap_inode_setxattr :: "task_struct \<Rightarrow> string \<Rightarrow> (int \<times> task_struct) option" where
  "cap_inode_setxattr t name =
     (if name = XATTR_NAME_CAPS
      then do { (ok, t) \<leftarrow> capable t CAP_SETFCAP; Some (if \<not> ok then - EPERM else 0, t) }
      else if take 9 name = ''security.''
      then do { (ok, t) \<leftarrow> capable t CAP_SYS_ADMIN; Some (if \<not> ok then - EPERM else 0, t) }
      else Some (0, t))"

definition cap_inode_removexattr :: "task_struct \<Rightarrow> string \<Rightarrow> (int \<times> task_struct) option" where
  "cap_inode_removexattr t name =
     (if name = XATTR_NAME_CAPS
      then do { (ok, t) \<leftarrow> capable t CAP_SETFCAP; Some (if \<not> ok then - EPERM else 0, t) }
      else if take 9 name = ''security.''
      then do { (ok, t) \<leftarrow> capable t CAP_SYS_ADMIN; Some (if \<not> ok then - EPERM else 0, t) }
      else Some (0, t))"

section \<open>Changing user ids\<close>

definition issecure_mask :: "nat \<Rightarrow> u32" where
  "issecure_mask x = push_bit x 1"

definition issecure :: "task_struct \<Rightarrow> nat \<Rightarrow> bool" where
  "issecure t x \<longleftrightarrow> issecure_mask x AND securebits (tcred t) \<noteq> 0"

definition cap_emulate_setxuid :: "task_struct \<Rightarrow> cred \<Rightarrow> cred \<Rightarrow> cred" where
  "cap_emulate_setxuid t new old =
     (let new = (if (uid old = 0 \<or> euid old = 0 \<or> suid old = 0) \<and>
                    (uid new \<noteq> 0 \<and> euid new \<noteq> 0 \<and> suid new \<noteq> 0) \<and>
                    \<not> issecure t SECURE_KEEP_CAPS
                 then new\<lparr>cap_permitted := CAP_EMPTY_SET, cap_effective := CAP_EMPTY_SET\<rparr>
                 else new);
          new = (if euid old = 0 \<and> euid new \<noteq> 0 then new\<lparr>cap_effective := CAP_EMPTY_SET\<rparr> else new)
      in if euid old \<noteq> 0 \<and> euid new = 0 then new\<lparr>cap_effective := cap_permitted new\<rparr> else new)"

abbreviation (input) LSM_SETID_ID :: int where "LSM_SETID_ID \<equiv> 1"
abbreviation (input) LSM_SETID_RE :: int where "LSM_SETID_RE \<equiv> 2"
abbreviation (input) LSM_SETID_RES :: int where "LSM_SETID_RES \<equiv> 4"
abbreviation (input) LSM_SETID_FS :: int where "LSM_SETID_FS \<equiv> 8"

definition cap_task_fix_setuid :: "task_struct \<Rightarrow> cred \<Rightarrow> cred \<Rightarrow> int \<Rightarrow> cred \<times> int" where
  "cap_task_fix_setuid t new old flags =
     (if flags = LSM_SETID_RE \<or> flags = LSM_SETID_ID \<or> flags = LSM_SETID_RES
      then (if \<not> issecure t SECURE_NO_SETUID_FIXUP then cap_emulate_setxuid t new old else new, 0)
      else if flags = LSM_SETID_FS
      then (if \<not> issecure t SECURE_NO_SETUID_FIXUP
            then (let new = (if fsuid old = 0 \<and> fsuid new \<noteq> 0
                             then new\<lparr>cap_effective := cap_drop_fs_set (cap_effective new)\<rparr>
                             else new)
                  in if fsuid old \<noteq> 0 \<and> fsuid new = 0
                     then new\<lparr>cap_effective :=
                            cap_raise_fs_set (cap_effective new) (cap_permitted new)\<rparr>
                     else new)
            else new, 0)
      else (new, - EINVAL))"

section \<open>The prctl options\<close>

abbreviation (input) PR_GET_KEEPCAPS :: int where "PR_GET_KEEPCAPS \<equiv> 7"
abbreviation (input) PR_SET_KEEPCAPS :: int where "PR_SET_KEEPCAPS \<equiv> 8"
abbreviation (input) PR_CAPBSET_READ :: int where "PR_CAPBSET_READ \<equiv> 23"
abbreviation (input) PR_CAPBSET_DROP :: int where "PR_CAPBSET_DROP \<equiv> 24"
abbreviation (input) PR_GET_SECUREBITS :: int where "PR_GET_SECUREBITS \<equiv> 27"
abbreviation (input) PR_SET_SECUREBITS :: int where "PR_SET_SECUREBITS \<equiv> 28"

definition SECURE_ALL_BITS :: u32 where
  "SECURE_ALL_BITS = issecure_mask SECURE_NOROOT OR issecure_mask SECURE_NO_SETUID_FIXUP OR
                     issecure_mask SECURE_KEEP_CAPS"

definition SECURE_ALL_LOCKS :: u32 where
  "SECURE_ALL_LOCKS = push_bit 1 SECURE_ALL_BITS"

definition cap_prctl_drop :: "task_struct \<Rightarrow> cred \<Rightarrow> u32 \<Rightarrow> (int \<times> task_struct \<times> cred) option" where
  "cap_prctl_drop t new cap = do {
     (ok, t) \<leftarrow> capable t CAP_SETPCAP;
     Some (if \<not> ok then (- EPERM, t, new)
           else if \<not> cap_valid (unat cap) then (- EINVAL, t, new)
           else (0, t, new\<lparr>cap_bset := cap_lower (cap_bset new) (unat cap)\<rparr>)) }"

text \<open>
  The switch of \<open>cap_task_prctl\<close>: \<open>changed\<close> commits the new credentials, every other exit
  aborts them and returns \<open>error\<close>.
\<close>

definition cap_task_prctl :: "cred_env \<Rightarrow> task_struct \<Rightarrow> int \<Rightarrow> u32 \<Rightarrow> (int \<times> task_struct) option" where
  "cap_task_prctl env t option arg2 =
     (case prepare_creds env t of
        None \<Rightarrow> Some (- ENOMEM, t)
      | Some (t, new) \<Rightarrow>
        (let changed = (\<lambda>t new. case commit_creds env t new of (t', r) \<Rightarrow> Some (r, t'));
             error = (\<lambda>e t. Some (e, t)) in
         if option = PR_CAPBSET_READ
         then (if \<not> cap_valid (unat arg2) then error (- EINVAL) t
               else error (if cap_raised (cap_bset new) (unat arg2) then 1 else 0) t)
         else if option = PR_CAPBSET_DROP
         then do {
           (e, t, new) \<leftarrow> cap_prctl_drop t new arg2;
           if e < 0 then error e t else changed t new }
         else if option = PR_SET_SECUREBITS
         then (if drop_bit 1 (securebits new AND SECURE_ALL_LOCKS) AND (securebits new XOR arg2) \<noteq> 0 \<or>
                  (securebits new AND SECURE_ALL_LOCKS) AND NOT arg2 \<noteq> 0 \<or>
                  arg2 AND NOT (SECURE_ALL_LOCKS OR SECURE_ALL_BITS) \<noteq> 0 \<or>
                  cap_capable t (tcred t) CAP_SETPCAP \<noteq> 0
               then error (- EPERM) t
               else changed t (new\<lparr>securebits := arg2\<rparr>))
         else if option = PR_GET_SECUREBITS then error (sint (securebits new)) t
         else if option = PR_GET_KEEPCAPS
         then error (if issecure t SECURE_KEEP_CAPS then 1 else 0) t
         else if option = PR_SET_KEEPCAPS
         then (if arg2 > 1 then error (- EINVAL) t
               else if issecure t SECURE_KEEP_CAPS_LOCKED then error (- EPERM) t
               else if arg2 \<noteq> 0
               then changed t (new\<lparr>securebits := securebits new OR issecure_mask SECURE_KEEP_CAPS\<rparr>)
               else changed t (new\<lparr>securebits := securebits new AND NOT (issecure_mask SECURE_KEEP_CAPS)\<rparr>))
         else error (- ENOSYS) t))"

section \<open>Capabilities across exec\<close>

text \<open>
  The extended attribute as it lies on disk (little endian, like the CPU). \<open>getxattr\<close>
  gives its size or an error together with the words read.
\<close>

record vfs_cap_data =
  magic_etc :: u32
  data :: "(u32 \<times> u32) list"  \<comment> \<open>permitted, inheritable\<close>

record cpu_vfs_cap_data =
  cpu_magic_etc :: u32
  cpu_permitted :: kernel_cap_t
  cpu_inheritable :: kernel_cap_t

record linux_binprm =
  bprm_cred :: cred
  bprm_cap_effective :: bool
  bprm_unsafe :: u32
  mnt_nosuid :: bool
  getxattr :: "(int \<times> vfs_cap_data) option"  \<comment> \<open>None: no inode or no such operation\<close>

abbreviation (input) VFS_CAP_REVISION_MASK :: u32 where "VFS_CAP_REVISION_MASK \<equiv> 0xFF000000"
abbreviation (input) VFS_CAP_REVISION_1 :: u32 where "VFS_CAP_REVISION_1 \<equiv> 0x01000000"
abbreviation (input) VFS_CAP_REVISION_2 :: u32 where "VFS_CAP_REVISION_2 \<equiv> 0x02000000"
abbreviation (input) VFS_CAP_FLAGS_EFFECTIVE :: u32 where "VFS_CAP_FLAGS_EFFECTIVE \<equiv> 1"
abbreviation (input) XATTR_CAPS_SZ_1 :: int where "XATTR_CAPS_SZ_1 \<equiv> 12"
abbreviation (input) XATTR_CAPS_SZ_2 :: int where "XATTR_CAPS_SZ_2 \<equiv> 20"
abbreviation (input) LSM_UNSAFE_PTRACE_CAP :: u32 where "LSM_UNSAFE_PTRACE_CAP \<equiv> 4"

definition bprm_clear_caps :: "linux_binprm \<Rightarrow> linux_binprm" where
  "bprm_clear_caps bprm =
     bprm\<lparr>bprm_cred := (bprm_cred bprm)\<lparr>cap_permitted := CAP_EMPTY_SET\<rparr>,
          bprm_cap_effective := False\<rparr>"

definition cap_inode_need_killpriv :: "(int \<times> vfs_cap_data) option \<Rightarrow> int" where
  "cap_inode_need_killpriv xattr =
     (case xattr of None \<Rightarrow> 0 | Some (error, _) \<Rightarrow> if error \<le> 0 then 0 else 1)"

definition cap_inode_killpriv :: "int option \<Rightarrow> int" where
  "cap_inode_killpriv removexattr = (case removexattr of None \<Rightarrow> 0 | Some error \<Rightarrow> error)"

definition vfs_caps_word :: "cpu_vfs_cap_data \<Rightarrow> nat \<Rightarrow> cred \<times> int \<Rightarrow> cred \<times> int" where
  "vfs_caps_word caps i st =
     (let (new, ret) = st;
          permitted = cpu_permitted caps ! i;
          inheritable = cpu_inheritable caps ! i;
          new = new\<lparr>cap_permitted := (cap_permitted new)[i :=
                  (cap_bset new ! i AND permitted) OR (cap_inheritable new ! i AND inheritable)]\<rparr>
      in (new, if permitted AND NOT (cap_permitted new ! i) \<noteq> 0 then - EPERM else ret))"

definition bprm_caps_from_vfs_caps ::
    "cpu_vfs_cap_data \<Rightarrow> linux_binprm \<Rightarrow> bool \<Rightarrow> int \<times> linux_binprm \<times> bool" where
  "bprm_caps_from_vfs_caps caps bprm effective =
     (let effective = (if cpu_magic_etc caps AND VFS_CAP_FLAGS_EFFECTIVE \<noteq> 0 then True else effective);
          (new, ret) = fold (vfs_caps_word caps) [0, 1] (bprm_cred bprm, 0)
      in (if effective then ret else 0, bprm\<lparr>bprm_cred := new\<rparr>, effective))"

definition get_vfs_caps_from_disk :: "(int \<times> vfs_cap_data) option \<Rightarrow> int \<times> cpu_vfs_cap_data" where
  "get_vfs_caps_from_disk xattr =
     (let zero = \<lparr>cpu_magic_etc = 0, cpu_permitted = [0, 0], cpu_inheritable = [0, 0]\<rparr> in
      case xattr of
        None \<Rightarrow> (- ENODATA, zero)
      | Some (sz, caps) \<Rightarrow>
          if sz = - ENODATA \<or> sz = - EOPNOTSUPP then (- ENODATA, zero)
          else if sz < 0 then (sz, zero)
          else if sz < 4 then (- EINVAL, zero)
          else
            (let m = magic_etc caps; cpu = zero\<lparr>cpu_magic_etc := m\<rparr>;
                 copy = (\<lambda>tocopy. cpu\<lparr>
                   cpu_permitted := map (\<lambda>i. if i < tocopy then fst (data caps ! i) else 0) [0, 1],
                   cpu_inheritable := map (\<lambda>i. if i < tocopy then snd (data caps ! i) else 0) [0, 1]\<rparr>) in
             if m AND VFS_CAP_REVISION_MASK = VFS_CAP_REVISION_1
             then (if sz \<noteq> XATTR_CAPS_SZ_1 then (- EINVAL, cpu) else (0, copy (1::nat)))
             else if m AND VFS_CAP_REVISION_MASK = VFS_CAP_REVISION_2
             then (if sz \<noteq> XATTR_CAPS_SZ_2 then (- EINVAL, cpu) else (0, copy 2))
             else (- EINVAL, cpu)))"

definition get_file_caps :: "bool \<Rightarrow> linux_binprm \<Rightarrow> bool \<Rightarrow> int \<times> linux_binprm \<times> bool" where
  "get_file_caps file_caps_enabled bprm effective =
     (let bprm = bprm_clear_caps bprm in
      if \<not> file_caps_enabled then (0, bprm, effective)
      else if mnt_nosuid bprm then (0, bprm, effective)
      else
        (let (rc, vcaps) = get_vfs_caps_from_disk (getxattr bprm);
             (rc, bprm, effective) =
               (if rc < 0 then (if rc = - ENODATA then 0 else rc, bprm, effective)
                else bprm_caps_from_vfs_caps vcaps bprm effective)
         in (rc, if rc \<noteq> 0 then bprm_clear_caps bprm else bprm, effective)))"

text \<open>
  \<open>is_init\<close>: the task is the global init; \<open>audit\<close> is the result of
  \<^verbatim>\<open>audit_log_bprm_fcaps\<close>.
\<close>

record exec_env =
  file_caps_enabled :: bool
  is_global_init :: bool
  audit_log_bprm_fcaps :: int

definition bprm_root_caps :: "task_struct \<Rightarrow> cred \<Rightarrow> bool \<Rightarrow> cred \<times> bool" where
  "bprm_root_caps t new effective =
     (let old = tcred t in
      if \<not> issecure t SECURE_NOROOT
      then (if effective \<and> uid new \<noteq> 0 \<and> euid new = 0 then (new, effective)
            else
              (let new = (if euid new = 0 \<or> uid new = 0
                          then new\<lparr>cap_permitted := cap_combine (cap_bset old) (cap_inheritable old)\<rparr>
                          else new)
               in (new, if euid new = 0 then True else effective)))
      else (new, effective))"

definition bprm_unsafe_downgrade :: "task_struct \<Rightarrow> u32 \<Rightarrow> cred \<Rightarrow> (task_struct \<times> cred) option" where
  "bprm_unsafe_downgrade t unsafe new =
     (let old = tcred t in
      if (euid new \<noteq> uid old \<or> egid new \<noteq> gid old \<or>
          \<not> cap_issubset (cap_permitted new) (cap_permitted old)) \<and>
         unsafe AND NOT LSM_UNSAFE_PTRACE_CAP \<noteq> 0
      then do {
        (ok, t) \<leftarrow> capable t CAP_SETUID;
        let new = (if \<not> ok then new\<lparr>euid := uid new, egid := gid new\<rparr> else new);
        Some (t, new\<lparr>cap_permitted := cap_intersect (cap_permitted new) (cap_permitted old)\<rparr>) }
      else Some (t, new))"

definition cap_bprm_set_creds ::
    "exec_env \<Rightarrow> task_struct \<Rightarrow> linux_binprm \<Rightarrow> (int \<times> task_struct \<times> linux_binprm) option" where
  "cap_bprm_set_creds env t bprm =
     (let (ret, bprm, effective) = get_file_caps (file_caps_enabled env) bprm False in
      if ret < 0 then Some (ret, t, bprm)
      else
        (let (new, effective) = bprm_root_caps t (bprm_cred bprm) effective in do {
           (t, new) \<leftarrow> bprm_unsafe_downgrade t (bprm_unsafe bprm) new;
           let new = new\<lparr>suid := euid new, fsuid := euid new\<rparr>;
           let new = new\<lparr>sgid := egid new, fsgid := egid new\<rparr>;
           let new = (if \<not> is_global_init env
                      then (if effective then new\<lparr>cap_effective := cap_permitted new\<rparr>
                            else new\<lparr>cap_effective := CAP_EMPTY_SET\<rparr>)
                      else new);
           let bprm = bprm\<lparr>bprm_cred := new, bprm_cap_effective := effective\<rparr>;
           if \<not> cap_isclear (cap_effective new) \<and>
              (\<not> cap_issubset CAP_FULL_SET (cap_effective new) \<or> euid new \<noteq> 0 \<or> uid new \<noteq> 0 \<or>
               issecure t SECURE_NOROOT) \<and>
              audit_log_bprm_fcaps env < 0
           then Some (audit_log_bprm_fcaps env, t, bprm)
           else Some (0, t, bprm\<lparr>bprm_cred :=
                  new\<lparr>securebits := securebits new AND NOT (issecure_mask SECURE_KEEP_CAPS)\<rparr>\<rparr>) }))"

definition cap_bprm_secureexec :: "task_struct \<Rightarrow> linux_binprm \<Rightarrow> bool" where
  "cap_bprm_secureexec t bprm =
     (let cred = tcred t in
      if uid cred \<noteq> 0 \<and> bprm_cap_effective bprm then True
      else if uid cred \<noteq> 0 \<and> \<not> cap_isclear (cap_permitted cred) then True
      else euid cred \<noteq> uid cred \<or> egid cred \<noteq> gid cred)"

text \<open>
  The credentials of a whole \<^verbatim>\<open>execve\<close> (\<^verbatim>\<open>fs/exec.c\<close>). An \<open>exec_file\<close> is what is asked
  of a file; \<open>kernel_read\<close> is the result of reading its head. A script makes the binary
  handler prepare again for its interpreter, so a call prepares for a list of files.
\<close>

record exec_file =
  has_f_op :: bool
  i_mode :: u32
  i_uid :: uid_t
  i_gid :: gid_t
  file_nosuid :: bool
  file_getxattr :: "(int \<times> vfs_cap_data) option"
  kernel_read :: int

abbreviation (input) S_ISUID :: u32 where "S_ISUID \<equiv> 0x800"
abbreviation (input) S_ISGID :: u32 where "S_ISGID \<equiv> 0x400"
abbreviation (input) S_IXGRP :: u32 where "S_IXGRP \<equiv> 0x8"

definition prepare_binprm ::
    "exec_env \<Rightarrow> task_struct \<Rightarrow> exec_file \<Rightarrow> linux_binprm \<Rightarrow> (int \<times> task_struct \<times> linux_binprm) option" where
  "prepare_binprm env t file bprm =
     (if \<not> has_f_op file then Some (- EACCES, t, bprm)
      else
        (let cred = (bprm_cred bprm)\<lparr>euid := euid (tcred t), egid := egid (tcred t)\<rparr>;
             cred = (if \<not> file_nosuid file \<and> i_mode file AND S_ISUID \<noteq> 0
                     then cred\<lparr>euid := i_uid file\<rparr> else cred);
             cred = (if \<not> file_nosuid file \<and> i_mode file AND (S_ISGID OR S_IXGRP) = S_ISGID OR S_IXGRP
                     then cred\<lparr>egid := i_gid file\<rparr> else cred)
         in do {
           (retval, t, bprm) \<leftarrow> cap_bprm_set_creds env t (bprm\<lparr>bprm_cred := cred,
             mnt_nosuid := file_nosuid file, getxattr := file_getxattr file\<rparr>);
           Some (if retval \<noteq> 0 then retval else kernel_read file, t, bprm) }))"

fun prepare_binprms ::
    "exec_env \<Rightarrow> task_struct \<Rightarrow> exec_file list \<Rightarrow> linux_binprm \<Rightarrow> (int \<times> task_struct \<times> linux_binprm) option" where
  "prepare_binprms env t [] bprm = Some (0, t, bprm)"
| "prepare_binprms env t (file # files) bprm = do {
     (retval, t, bprm) \<leftarrow> prepare_binprm env t file bprm;
     if retval < 0 then Some (retval, t, bprm) else prepare_binprms env t files bprm }"

definition install_exec_creds :: "cred_env \<Rightarrow> task_struct \<Rightarrow> linux_binprm \<Rightarrow> task_struct" where
  "install_exec_creds env t bprm = fst (commit_creds env t (bprm_cred bprm))"

text \<open>
  What else decides an \<^verbatim>\<open>execve\<close>: \<open>check_unsafe_exec\<close> with the flags it sets, opening the
  file and setting up the new address space (\<open>setup_error\<close>, negative on failure), copying the
  strings, and the binary handler: whether it gets as far as \<open>install_exec_creds\<close> and what
  it returns.
\<close>

record exec_run =
  guard_interrupted :: bool
  check_unsafe_exec :: "int \<times> u32"
  setup_error :: int
  copy_strings_error :: int
  handler_installs :: bool
  handler_result :: int

abbreviation (input) ERESTARTNOINTR :: int where "ERESTARTNOINTR \<equiv> 513"

definition do_execve ::
    "cred_env \<Rightarrow> exec_env \<Rightarrow> exec_run \<Rightarrow> exec_file \<Rightarrow> exec_file list \<Rightarrow> task_struct \<Rightarrow>
       (int \<times> task_struct) option" where
  "do_execve env eenv run file interps t =
     (if guard_interrupted run then Some (- ERESTARTNOINTR, t)
      else
        (case prepare_creds env t of
           None \<Rightarrow> Some (- ENOMEM, t)
         | Some (t, new) \<Rightarrow>
             let (retval, unsafe) = check_unsafe_exec run;
                 bprm = \<lparr>bprm_cred = new, bprm_cap_effective = False, bprm_unsafe = unsafe,
                         mnt_nosuid = False, getxattr = None\<rparr> in
             if retval < 0 then Some (retval, t)
             else if setup_error run < 0 then Some (setup_error run, t)
             else do {
               (retval, t, bprm) \<leftarrow> prepare_binprm eenv t file bprm;
               if retval < 0 then Some (retval, t)
               else if copy_strings_error run < 0 then Some (copy_strings_error run, t)
               else do {
                 (retval, t, bprm) \<leftarrow> prepare_binprms eenv t interps bprm;
                 if retval < 0 then Some (retval, t)
                 else Some (handler_result run,
                            if handler_installs run then install_exec_creds env t bprm else t) } }))"

section \<open>The capget and capset system calls\<close>

abbreviation (input) LINUX_CAPABILITY_VERSION_1 :: u32 where "LINUX_CAPABILITY_VERSION_1 \<equiv> 0x19980330"
abbreviation (input) LINUX_CAPABILITY_VERSION_2 :: u32 where "LINUX_CAPABILITY_VERSION_2 \<equiv> 0x20071026"
abbreviation (input) LINUX_CAPABILITY_VERSION_3 :: u32 where "LINUX_CAPABILITY_VERSION_3 \<equiv> 0x20080522"

text \<open>
  The user's header: what \<open>get_user\<close> reads (\<^term>\<open>None\<close> is a fault) and whether
  \<open>put_user\<close> can write the version back.
\<close>

record user_cap_header =
  version :: "u32 option"
  version_writable :: bool
  pid :: "int option"

type_synonym user_cap_data = "u32 \<times> u32 \<times> u32"  \<comment> \<open>effective, permitted, inheritable\<close>

text \<open>The result, \<open>tocopy\<close>, and the version written back to the user.\<close>

definition cap_validate_magic :: "user_cap_header \<Rightarrow> int \<times> nat \<times> u32 option" where
  "cap_validate_magic header =
     (case version header of
        None \<Rightarrow> (- EFAULT, 0, None)
      | Some v \<Rightarrow>
          if v = LINUX_CAPABILITY_VERSION_1 then (0, 1, None)
          else if v = LINUX_CAPABILITY_VERSION_2 \<or> v = LINUX_CAPABILITY_VERSION_3 then (0, 2, None)
          else if \<not> version_writable header then (- EFAULT, 0, None)
          else (- EINVAL, 0, Some LINUX_CAPABILITY_VERSION_3))"

definition cap_get_target_pid ::
    "(int \<Rightarrow> cred option) \<Rightarrow> task_struct \<Rightarrow> int \<Rightarrow>
       (kernel_cap_t \<times> kernel_cap_t \<times> kernel_cap_t) option \<times> int" where
  "cap_get_target_pid find_task_by_vpid t p =
     (if p \<noteq> 0 \<and> p \<noteq> tpid t
      then (case find_task_by_vpid p of
              None \<Rightarrow> (None, - ESRCH)
            | Some target \<Rightarrow> (Some (cap_capget target), 0))
      else (Some (cap_capget (tcred t)), 0))"

text \<open>
  \<open>has_data\<close>: \<open>dataptr\<close> is not null; \<open>writable\<close>: the final copy succeeds. The second
  component is what reaches the user's buffer.
\<close>

definition sys_capget ::
    "(int \<Rightarrow> cred option) \<Rightarrow> task_struct \<Rightarrow> user_cap_header \<Rightarrow> bool \<Rightarrow> bool \<Rightarrow>
       int \<times> user_cap_data list option" where
  "sys_capget find_task_by_vpid t header has_data writable =
     (let (ret, tocopy, _) = cap_validate_magic header in
      if \<not> has_data \<or> ret \<noteq> 0
      then (if \<not> has_data \<and> ret = - EINVAL then 0 else ret, None)
      else (case pid header of
              None \<Rightarrow> (- EFAULT, None)
            | Some p \<Rightarrow>
                if p < 0 then (- EINVAL, None)
                else (case cap_get_target_pid find_task_by_vpid t p of
                        (None, ret) \<Rightarrow> (ret, None)
                      | (Some (pE, pI, pP), ret) \<Rightarrow>
                          let kdata = map (\<lambda>i. (pE ! i, pP ! i, pI ! i)) [0..<tocopy] in
                          if \<not> writable then (- EFAULT, None) else (ret, Some kdata))))"

definition kdata_words :: "(user_cap_data \<Rightarrow> u32) \<Rightarrow> nat \<Rightarrow> user_cap_data list \<Rightarrow> kernel_cap_t" where
  "kdata_words f tocopy kdata = map (\<lambda>i. if i < tocopy then f (kdata ! i) else 0) [0, 1]"

definition sys_capset ::
    "cred_env \<Rightarrow> task_struct \<Rightarrow> user_cap_header \<Rightarrow> (nat \<Rightarrow> user_cap_data list option) \<Rightarrow>
       int \<times> task_struct" where
  "sys_capset env t header copy =
     (let (ret, tocopy, _) = cap_validate_magic header in
      if ret \<noteq> 0 then (ret, t)
      else (case pid header of
              None \<Rightarrow> (- EFAULT, t)
            | Some p \<Rightarrow>
                if p \<noteq> 0 \<and> p \<noteq> tpid t then (- EPERM, t)
                else (case copy tocopy of
                        None \<Rightarrow> (- EFAULT, t)
                      | Some kdata \<Rightarrow>
                          let effective = kdata_words fst tocopy kdata;
                              permitted = kdata_words (fst \<circ> snd) tocopy kdata;
                              inheritable = kdata_words (snd \<circ> snd) tocopy kdata in
                          (case prepare_creds env t of
                             None \<Rightarrow> (- ENOMEM, t)
                           | Some (t, new) \<Rightarrow>
                               let (new, ret) =
                                     cap_capset t new (tcred t) effective inheritable permitted in
                               if ret < 0 then (ret, t)
                               else (case commit_creds env t new of (t', r) \<Rightarrow> (r, t'))))))"

section \<open>The group system calls\<close>

definition set_current_groups ::
    "cred_env \<Rightarrow> task_struct \<Rightarrow> group_info \<Rightarrow> page_pool \<Rightarrow> int \<times> task_struct \<times> page_pool" where
  "set_current_groups env t gi pool =
     (case prepare_creds env t of
        None \<Rightarrow> (- ENOMEM, t, pool)
      | Some (t, new) \<Rightarrow>
          let (pool, new) = set_groups new gi pool in
          case commit_creds env t new of (t', r) \<Rightarrow> (r, t', pool))"

text \<open>
  The written-out copies and the result of \<^verbatim>\<open>getgroups\<close>; \<open>w\<close> tells which copies to user
  space succeed.
\<close>

definition sys_getgroups ::
    "task_struct \<Rightarrow> (nat \<Rightarrow> gid_t list \<Rightarrow> bool) \<Rightarrow> int \<Rightarrow> (nat \<times> gid_t list) list \<times> int" where
  "sys_getgroups t w gidsetsize =
     (let gi = group_info (tcred t) in
      if gidsetsize < 0 then ([], - EINVAL)
      else if gidsetsize \<noteq> 0
      then (if int (ngroups gi) > gidsetsize then ([], - EINVAL)
            else (case groups_to_user w gi of
                    (out, r) \<Rightarrow> (out, if r \<noteq> 0 then - EFAULT else int (ngroups gi))))
      else ([], int (ngroups gi)))"

text \<open>
  The final \<open>put_group_info\<close> drops the caller's reference: the object now belongs to the
  credentials (the model keeps one copy of it, in \<open>tcred\<close>), or is freed when installing it
  failed.
\<close>

definition sys_setgroups ::
    "cred_env \<Rightarrow> gid_t list option \<Rightarrow> page_pool \<Rightarrow> task_struct \<Rightarrow> int \<Rightarrow> user_array \<Rightarrow>
       (int \<times> task_struct \<times> page_pool) option" where
  "sys_setgroups env kmem pool t gidsetsize grouplist = do {
     (ok, t) \<leftarrow> capable t CAP_SETGID;
     if \<not> ok then Some (- EPERM, t, pool)
     else if gidsetsize < 0 \<or> gidsetsize > NGROUPS_MAX then Some (- EINVAL, t, pool)
     else (case groups_alloc kmem pool (nat gidsetsize) of
             (pool, None) \<Rightarrow> Some (- ENOMEM, t, pool)
           | (pool, Some gi) \<Rightarrow>
               (case groups_from_user gi grouplist of
                  (gi, retval) \<Rightarrow>
                    if retval \<noteq> 0 then Some (retval, t, fst (put_group_info gi pool))
                    else
                      (case set_current_groups env t gi pool of
                         (retval, t', pool) \<Rightarrow>
                           if retval \<noteq> 0 then Some (retval, t', fst (put_group_info gi pool))
                           else
                             (let (pool, gi') = put_group_info (group_info (tcred t')) pool in
                              Some (retval, t'\<lparr>tcred := (tcred t')\<lparr>group_info :=
                                      (case gi' of None \<Rightarrow> group_info (tcred t') | Some g \<Rightarrow> g)\<rparr>\<rparr>,
                                    pool))))) }"

section \<open>Capability sets as sets\<close>

definition cap_ok :: "kernel_cap_t \<Rightarrow> bool" where
  "cap_ok c \<longleftrightarrow> length c = 2"

definition caps :: "kernel_cap_t \<Rightarrow> nat set" where
  "caps c = {n. n < 64 \<and> cap_raised c n}"

text \<open>
  What the hooks rely on: the word operations behave like the operations of set algebra on
  the capability numbers below \<open>bound\<close>.
\<close>

locale finite_set_ops =
  fixes bound :: nat
    and ok :: "'s \<Rightarrow> bool"
    and member :: "'s \<Rightarrow> nat \<Rightarrow> bool"
    and union_op inter_op diff_op :: "'s \<Rightarrow> 's \<Rightarrow> 's"
    and is_empty :: "'s \<Rightarrow> bool"
  assumes member_union: "n < bound \<Longrightarrow> member (union_op a b) n \<longleftrightarrow> member a n \<or> member b n"
    and member_inter: "n < bound \<Longrightarrow> member (inter_op a b) n \<longleftrightarrow> member a n \<and> member b n"
    and member_diff: "n < bound \<Longrightarrow> member (diff_op a b) n \<longleftrightarrow> member a n \<and> \<not> member b n"
    and ok_ops: "ok (union_op a b)" "ok (inter_op a b)" "ok (diff_op a b)"
    and empty_iff: "ok a \<Longrightarrow> is_empty a \<longleftrightarrow> (\<forall>n < bound. \<not> member a n)"
begin

definition elems :: "'s \<Rightarrow> nat set" where
  "elems a = {n. n < bound \<and> member a n}"

lemma elems_ops:
  "elems (union_op a b) = elems a \<union> elems b"
  "elems (inter_op a b) = elems a \<inter> elems b"
  "elems (diff_op a b) = elems a - elems b"
  by (auto simp: elems_def member_union member_inter member_diff)

lemma is_empty_elems: "ok a \<Longrightarrow> is_empty a \<longleftrightarrow> elems a = {}"
  by (auto simp: elems_def empty_iff)

lemma subset_elems: "is_empty (diff_op a b) \<longleftrightarrow> elems a \<subseteq> elems b"
  by (auto simp: is_empty_elems ok_ops elems_ops)

end

lemma cap_raised_bit: "cap_raised c n \<longleftrightarrow> bit (c ! (n div 32)) (n mod 32)"
proof -
  have "(w::u32) AND push_bit k 1 \<noteq> 0 \<longleftrightarrow> bit w k" if "k < 32" for w k
  proof
    assume "w AND push_bit k 1 \<noteq> 0"
    then obtain j where "bit (w AND push_bit k 1) j" using bit_eqI [of _ 0] by fastforce
    then show "bit w k" by (auto simp: bit_simps)
  next
    assume "bit w k"
    with that have "bit (w AND push_bit k 1) k" by (simp add: bit_simps)
    then show "w AND push_bit k 1 \<noteq> 0" by auto
  qed
  then show ?thesis by (simp add: cap_raised_def CAP_TO_INDEX_def CAP_TO_MASK_def)
qed

lemma index_lt_64: "n < 64 \<Longrightarrow> n div 32 = 0 \<or> n div 32 = Suc 0"
  by auto

lemma cap_isclear_iff:
  assumes "cap_ok c"
  shows "cap_isclear c \<longleftrightarrow> (\<forall>n < 64. \<not> cap_raised c n)"
proof
  assume "cap_isclear c"
  then show "\<forall>n < 64. \<not> cap_raised c n"
    by (auto simp: cap_isclear_def cap_raised_bit dest!: index_lt_64)
next
  assume none: "\<forall>n < 64. \<not> cap_raised c n"
  have "c ! k = 0" if "k < 2" for k
  proof (rule bit_eqI)
    fix i assume "possible_bit TYPE(u32) i"
    then have i: "i < 32" by simp
    with that none have "\<not> cap_raised c (k * 32 + i)" by simp
    with i show "bit (c ! k) i \<longleftrightarrow> bit (0::u32) i" by (simp add: cap_raised_bit)
  qed
  then show "cap_isclear c" by (simp add: cap_isclear_def)
qed

interpretation cs: finite_set_ops 64 cap_ok cap_raised cap_combine cap_intersect cap_drop cap_isclear
proof
  fix n :: nat and a b :: kernel_cap_t
  assume "n < 64"
  then have n: "n div 32 = 0 \<or> n div 32 = Suc 0" by (rule index_lt_64)
  show "cap_raised (cap_combine a b) n \<longleftrightarrow> cap_raised a n \<or> cap_raised b n"
    using n by (auto simp: cap_raised_bit cap_combine_def CAP_BOP_ALL_def bit_simps)
  show "cap_raised (cap_intersect a b) n \<longleftrightarrow> cap_raised a n \<and> cap_raised b n"
    using n by (auto simp: cap_raised_bit cap_intersect_def CAP_BOP_ALL_def bit_simps)
  show "cap_raised (cap_drop a b) n \<longleftrightarrow> cap_raised a n \<and> \<not> cap_raised b n"
    using n by (auto simp: cap_raised_bit cap_drop_def CAP_BOP_ALL_def bit_simps)
qed (simp_all add: cap_isclear_iff cap_ok_def cap_combine_def cap_intersect_def cap_drop_def
      CAP_BOP_ALL_def)

lemma caps_elems: "caps = cs.elems"
  by (simp add: fun_eq_iff caps_def cs.elems_def)

lemmas caps_ops [simp] = cs.elems_ops [folded caps_elems]

lemma cap_issubset_caps: "cap_issubset a b \<longleftrightarrow> caps a \<subseteq> caps b"
  by (simp add: cap_issubset_def cs.subset_elems caps_elems)

lemma cap_isclear_caps: "cap_ok a \<Longrightarrow> cap_isclear a \<longleftrightarrow> caps a = {}"
  by (simp add: cs.is_empty_elems caps_elems)

lemma cap_ok_simps [simp]:
  "cap_ok (cap_combine a b)" "cap_ok (cap_intersect a b)" "cap_ok (cap_drop a b)"
  "cap_ok CAP_EMPTY_SET" "cap_ok CAP_FULL_SET" "cap_ok (kdata_words f k d)"
  "cap_ok (c[i := w]) = cap_ok c"
  by (simp_all add: cap_ok_def cap_combine_def cap_intersect_def cap_drop_def CAP_BOP_ALL_def
      CAP_EMPTY_SET_def CAP_FULL_SET_def kdata_words_def)

lemma caps_EMPTY [simp]: "caps CAP_EMPTY_SET = {}"
  by (auto simp: caps_def cap_raised_bit CAP_EMPTY_SET_def dest!: index_lt_64)

lemma caps_FULL [simp]: "caps CAP_FULL_SET = {..<64}"
  by (auto simp: caps_def cap_raised_bit CAP_FULL_SET_def bit_simps dest: index_lt_64)

lemma div_mod_32_inj: "n div 32 = m div 32 \<Longrightarrow> n mod 32 = m mod (32::nat) \<Longrightarrow> n = m"
  by (metis div_mult_mod_eq)

lemma caps_lower:
  assumes "cap_ok c" and "k < 64"
  shows "caps (cap_lower c k) = caps c - {k}"
proof -
  have "cap_raised (cap_lower c k) n \<longleftrightarrow> cap_raised c n \<and> n \<noteq> k" if "n < 64" for n
    using assms index_lt_64 [OF that] index_lt_64 [OF assms(2)] div_mod_32_inj [of n k]
    by (auto simp: cap_raised_bit cap_lower_def CAP_TO_INDEX_def CAP_TO_MASK_def cap_ok_def
        nth_list_update bit_simps)
  then show ?thesis by (auto simp: caps_def)
qed

lemma cap_ok_lower [simp]: "cap_ok (cap_lower c k) = cap_ok c"
  by (simp add: cap_lower_def)

section \<open>Credentials only lose privilege\<close>

definition cred_caps_ok :: "cred \<Rightarrow> bool" where
  "cred_caps_ok c \<longleftrightarrow>
     cap_ok (cap_inheritable c) \<and> cap_ok (cap_permitted c) \<and> cap_ok (cap_effective c) \<and>
     cap_ok (cap_bset c)"

text \<open>The invariant of a task's credentials: well-formed sets, effective within permitted.\<close>

definition cred_inv :: "cred \<Rightarrow> bool" where
  "cred_inv c \<longleftrightarrow> cred_caps_ok c \<and> caps (cap_effective c) \<subseteq> caps (cap_permitted c)"

text \<open>A lock bit \<open>k + 1\<close> stays set and freezes the bit \<open>k\<close> it guards.\<close>

definition locks_kept :: "u32 \<Rightarrow> u32 \<Rightarrow> bool" where
  "locks_kept sb sb' \<longleftrightarrow>
     (\<forall>k \<in> {SECURE_NOROOT, SECURE_NO_SETUID_FIXUP, SECURE_KEEP_CAPS}.
        bit sb (Suc k) \<longrightarrow> bit sb' (Suc k) \<and> (bit sb' k \<longleftrightarrow> bit sb k))"

definition cred_shrinks :: "cred \<Rightarrow> cred \<Rightarrow> bool" where
  "cred_shrinks old new \<longleftrightarrow>
     caps (cap_permitted new) \<subseteq> caps (cap_permitted old) \<and>
     caps (cap_bset new) \<subseteq> caps (cap_bset old) \<and>
     caps (cap_inheritable new) \<subseteq> caps (cap_inheritable old) \<union> caps (cap_bset old) \<and>
     locks_kept (securebits old) (securebits new)"

lemma locks_kept_refl [simp]: "locks_kept sb sb"
  by (simp add: locks_kept_def)

lemma locks_kept_trans: "locks_kept a b \<Longrightarrow> locks_kept b c \<Longrightarrow> locks_kept a c"
  by (simp add: locks_kept_def)

lemma cred_shrinks_refl [simp]: "cred_shrinks c c"
  by (auto simp: cred_shrinks_def)

lemma cred_shrinks_trans: "cred_shrinks a b \<Longrightarrow> cred_shrinks b c \<Longrightarrow> cred_shrinks a c"
  using locks_kept_trans by (auto simp: cred_shrinks_def)

lemma capable_Some:
  "capable t cap = Some (ok, t') \<longleftrightarrow>
     cap_valid cap \<and> ok = (cap_capable t (tcred t) cap = 0) \<and>
     t' = (if ok then t\<lparr>tflags := tflags t OR PF_SUPERPRIV\<rparr> else t)"
  by (auto simp: capable_def)

lemma prepare_creds_Some:
  "prepare_creds env t = Some (t', new) \<longleftrightarrow>
     cred_mem env \<and> new = (tcred t)\<lparr>group_info := get_group_info (group_info (tcred t))\<rparr> \<and>
     t' = t\<lparr>tcred := new\<rparr>"
  by (auto simp: prepare_creds_def Let_def)

lemma prepare_creds_None: "prepare_creds env t = None \<longleftrightarrow> \<not> cred_mem env"
  by (simp add: prepare_creds_def Let_def)

lemma commit_creds_tcred [simp]:
  "tcred (fst (commit_creds env t new)) = new" "snd (commit_creds env t new) = 0"
  by (simp_all add: commit_creds_def Let_def)

lemma commit_creds_eq: "commit_creds env t new = (t', r) \<Longrightarrow> tcred t' = new \<and> r = 0"
  using commit_creds_tcred [of env t new] by simp

lemma issecure_bit: "x < 32 \<Longrightarrow> issecure t x \<longleftrightarrow> bit (securebits (tcred t)) x"
  using cap_raised_bit [of "[securebits (tcred t)]" x]
  by (simp add: issecure_def issecure_mask_def cap_raised_def CAP_TO_INDEX_def CAP_TO_MASK_def
      and.commute)

lemma bit_issecure_mask: "bit (issecure_mask x) n \<longleftrightarrow> n = x \<and> x < 32"
  by (auto simp: issecure_mask_def bit_simps)

lemma SECURE_bits:
  "SECURE_ALL_BITS = 0x15" "SECURE_ALL_LOCKS = 0x2A"
  by (simp_all add: SECURE_ALL_BITS_def SECURE_ALL_LOCKS_def issecure_mask_def)

lemma locks_kept_checks:
  assumes "drop_bit 1 (sb AND SECURE_ALL_LOCKS) AND (sb XOR sb') = 0"
    and "(sb AND SECURE_ALL_LOCKS) AND NOT sb' = (0::u32)"
  shows "locks_kept sb sb'"
  unfolding locks_kept_def
proof (intro ballI impI)
  fix k assume "k \<in> {SECURE_NOROOT, SECURE_NO_SETUID_FIXUP, SECURE_KEEP_CAPS}"
    and set: "bit sb (Suc k)"
  then have lock: "bit SECURE_ALL_LOCKS (Suc k)" and k: "Suc k < 32" by (auto simp: SECURE_bits)
  have "\<not> bit (drop_bit 1 (sb AND SECURE_ALL_LOCKS) AND (sb XOR sb')) k"
    and "\<not> bit ((sb AND SECURE_ALL_LOCKS) AND NOT sb') (Suc k)"
    unfolding assms by simp_all
  with set lock k show "bit sb' (Suc k) \<and> (bit sb' k \<longleftrightarrow> bit sb k)"
    by (auto simp: bit_and_iff bit_xor_iff bit_drop_bit_eq bit_not_iff)
qed

lemma cred_shrinks_groups [simp]:
  "cred_shrinks c (d\<lparr>group_info := g\<rparr>) = cred_shrinks c d"
  "cred_shrinks (c\<lparr>group_info := g\<rparr>) d = cred_shrinks c d"
  "cred_inv (c\<lparr>group_info := g\<rparr>) = cred_inv c"
  by (simp_all add: cred_shrinks_def cred_inv_def cred_caps_ok_def)

subsection \<open>Each call\<close>

lemma cap_capset_cases:
  assumes "cap_capset t new old e i p = (new', r)"
  obtains (denied) "r = - EPERM" "new' = new"
  | (set) "r = 0"
      "new' = new\<lparr>cap_effective := e, cap_inheritable := i, cap_permitted := p\<rparr>"
      "caps p \<subseteq> caps (cap_permitted old)" "caps e \<subseteq> caps p"
      "caps i \<subseteq> caps (cap_inheritable old) \<union> caps (cap_bset old)"
      "cap_capable t (tcred t) CAP_SETPCAP = 0 \<or>
       caps i \<subseteq> caps (cap_inheritable old) \<union> caps (cap_permitted old)"
  using assms
  by (auto simp: cap_capset_def cap_issubset_caps cap_inh_is_capped_def split: if_splits)


lemma cap_capset_shrinks:
  assumes "cap_capset t c c e i p = (new, r)" and "cap_ok e" "cap_ok i" "cap_ok p"
  shows "cred_shrinks c new \<and> (cred_inv c \<longrightarrow> cred_inv new)"
  using assms(1)
proof (cases rule: cap_capset_cases)
  case denied
  then show ?thesis by simp
next
  case set
  with assms(2-4) show ?thesis by (auto simp: cred_shrinks_def cred_inv_def cred_caps_ok_def)
qed

lemma sys_capset_shrinks:
  assumes "sys_capset env t header copy = (r, t')"
  shows "cred_shrinks (tcred t) (tcred t') \<and> (cred_inv (tcred t) \<longrightarrow> cred_inv (tcred t'))"
proof -
  let ?c = "(tcred t)\<lparr>group_info := get_group_info (group_info (tcred t))\<rparr>"
  have "tcred t' = tcred t \<or> tcred t' = ?c \<or>
        (\<exists>e i p t1 ret. cap_ok e \<and> cap_ok i \<and> cap_ok p \<and>
           cap_capset t1 ?c ?c e i p = (tcred t', ret))"
    using assms
    by (fastforce simp: sys_capset_def Let_def prepare_creds_Some
        split: prod.splits option.splits if_splits dest!: commit_creds_eq)
  then show ?thesis
  proof (elim disjE exE conjE)
    fix e i p t1 ret
    assume "cap_ok e" "cap_ok i" "cap_ok p" "cap_capset t1 ?c ?c e i p = (tcred t', ret)"
    then have "cred_shrinks ?c (tcred t') \<and> (cred_inv ?c \<longrightarrow> cred_inv (tcred t'))"
      by (intro cap_capset_shrinks)
    then show ?thesis by simp
  qed auto
qed

lemma cap_prctl_drop_shrinks:
  assumes "cap_prctl_drop t c k = Some (r, t', new)" and "cred_inv c"
  shows "cred_shrinks c new \<and> cred_inv new \<and> tcred t' = tcred t"
proof -
  have "cap_valid (unat k) \<Longrightarrow> unat k < 64" by (simp add: cap_valid_def)
  with assms caps_lower [of "cap_bset c" "unat k"] show ?thesis
    by (auto simp: cap_prctl_drop_def capable_Some Option.bind_eq_Some_conv
        cred_shrinks_def cred_inv_def cred_caps_ok_def split: if_splits)
qed

lemma locks_kept_keepcaps:
  assumes "\<not> bit sb SECURE_KEEP_CAPS_LOCKED"
  shows "locks_kept sb (sb OR issecure_mask SECURE_KEEP_CAPS)"
    and "locks_kept sb (sb AND NOT (issecure_mask SECURE_KEEP_CAPS))"
  using assms by (simp_all add: locks_kept_def bit_or_iff bit_and_iff bit_not_iff bit_issecure_mask)

lemma cred_shrinks_securebits:
  "cred_shrinks c (c\<lparr>securebits := sb\<rparr>) \<longleftrightarrow> locks_kept (securebits c) sb"
  "cred_inv (c\<lparr>securebits := sb\<rparr>) = cred_inv c"
  by (auto simp: cred_shrinks_def cred_inv_def cred_caps_ok_def)

lemma cap_task_prctl_shrinks:
  assumes run: "cap_task_prctl env t option arg2 = Some (r, t')" and inv: "cred_inv (tcred t)"
  shows "cred_shrinks (tcred t) (tcred t') \<and> cred_inv (tcred t')"
proof (cases "cred_mem env")
  case False
  with run inv show ?thesis by (simp add: cap_task_prctl_def prepare_creds_def)
next
  case True
  define c where "c = (tcred t)\<lparr>group_info := get_group_info (group_info (tcred t))\<rparr>"
  define u where "u = t\<lparr>tcred := c\<rparr>"
  let ?sb = "securebits c"
  have prep: "prepare_creds env t = Some (u, c)"
    using True by (simp add: prepare_creds_def c_def u_def Let_def)
  have c: "cred_inv c" "\<And>d. cred_shrinks (tcred t) d = cred_shrinks c d" "tcred u = c"
    using inv by (simp_all add: c_def u_def)
  note run' = run [unfolded cap_task_prctl_def prep Let_def option.case prod.case]
  consider "option = PR_CAPBSET_DROP" | "option = PR_SET_SECUREBITS" | "option = PR_SET_KEEPCAPS"
    | "option \<notin> {PR_CAPBSET_DROP, PR_SET_SECUREBITS, PR_SET_KEEPCAPS}" by blast
  then show ?thesis
  proof cases
    case 1
    with run' obtain e t2 d where drop: "cap_prctl_drop u c arg2 = Some (e, t2, d)"
      by (cases "cap_prctl_drop u c arg2") auto
    with 1 run' have res: "tcred t' = d \<or> t' = t2"
      by (cases "e < 0") (auto simp: case_prod_beta)
    from cap_prctl_drop_shrinks [OF drop c(1)] have "cred_shrinks c d" "cred_inv d" "tcred t2 = c"
      by (simp_all add: c(3))
    with res c(1) show ?thesis by (elim disjE) (simp_all add: c(2))
  next
    case 2
    with run' have "tcred t' = c \<or> locks_kept ?sb arg2 \<and> tcred t' = c\<lparr>securebits := arg2\<rparr>"
      using locks_kept_checks [of ?sb arg2] c(3)
      by (auto simp: case_prod_beta split: if_splits)
    with c(1) show ?thesis unfolding c(2)
      by (elim disjE conjE) (simp_all add: cred_shrinks_securebits)
  next
    case 3
    with run' c(3) have "tcred t' = c \<or> \<not> issecure u SECURE_KEEP_CAPS_LOCKED \<and>
        (tcred t' = c\<lparr>securebits := ?sb OR issecure_mask SECURE_KEEP_CAPS\<rparr> \<or>
         tcred t' = c\<lparr>securebits := ?sb AND NOT (issecure_mask SECURE_KEEP_CAPS)\<rparr>)"
      by (auto simp: case_prod_beta split: if_splits)
    with c(1,3) locks_kept_keepcaps [of ?sb] show ?thesis unfolding c(2)
      by (elim disjE conjE) (simp_all add: cred_shrinks_securebits issecure_bit)
  next
    case 4
    with run' have "t' = u" by (simp split: if_splits)
    with c(1,3) show ?thesis by (simp add: c(2))
  qed
qed

section \<open>Groups through the system calls\<close>

lemma set_current_groups_0:
  assumes "set_current_groups env t gi pool = (0, t', pool')"
  shows "group_info (tcred t') = get_group_info (groups_sort gi) \<and> fsgid (tcred t') = fsgid (tcred t) \<and>
         egid (tcred t') = egid (tcred t)"
  using assms
  by (auto simp: set_current_groups_def set_groups_def prepare_creds_def case_prod_beta Let_def
      split: option.splits if_splits)

lemma sys_setgroups_0:
  assumes "sys_setgroups env (Some small) pool t n u = Some (0, t', pool')"
    and "length small = NGROUPS_SMALL" and "\<forall>pg \<in> set pool. length pg = NGROUPS_PER_BLOCK"
  shows "\<exists>gi x. group_info_ok gi \<and> group_info (tcred t') = (groups_sort gi)\<lparr>usage := x\<rparr> \<and>
           gids gi = map (\<lambda>j. the (u j)) [0..<nat n] \<and> (\<forall>j < nat n. u j \<noteq> None) \<and>
           fsgid (tcred t') = fsgid (tcred t) \<and> egid (tcred t') = egid (tcred t)"
proof -
  define t1 where "t1 = t\<lparr>tflags := tflags t OR PF_SUPERPRIV\<rparr>"
  obtain pool1 g where a: "groups_alloc (Some small) pool (nat n) = (pool1, g)"
    by (cases "groups_alloc (Some small) pool (nat n)")
  from assms(1) a obtain gi0 where g: "g = Some gi0"
    by (cases g) (auto simp: sys_setgroups_def capable_def split: if_splits)
  obtain gi r where f: "groups_from_user gi0 u = (gi, r)" by (cases "groups_from_user gi0 u")
  from assms(1) a g f have r: "r = 0"
    by (cases "r = 0") (auto simp: sys_setgroups_def capable_def split: if_splits)
  obtain q t2 pool2 where s: "set_current_groups env t1 gi pool1 = (q, t2, pool2)"
    by (cases "set_current_groups env t1 gi pool1")
  from assms(1) a g f r s have q: "q = 0"
    and t': "\<exists>x. tcred t' = (tcred t2)\<lparr>group_info := (group_info (tcred t2))\<lparr>usage := x\<rparr>\<rparr>"
    by (cases "q = 0";
        auto simp: sys_setgroups_def capable_def t1_def put_group_info_def split: if_splits
          intro: exI [of _ "usage (group_info (tcred t2))"])+
  note a = a [unfolded g] and f = f [unfolded r] and s = s [unfolded q]
  have t1: "tcred t1 = tcred t" by (simp add: t1_def)
  have ok0: "group_info_ok gi0" "ngroups gi0 = nat n" using groups_alloc_ok [OF a assms(2,3)] by simp_all
  from groups_from_user_0 [OF ok0(1) f] ok0(2) set_current_groups_0 [OF s] t' t1
  show ?thesis by (intro exI [of _ gi]) (auto simp: get_group_info_def)
qed


lemma in_group_sorted:
  assumes "group_info_ok gi" and "group_info c = (groups_sort gi)\<lparr>usage := x\<rparr>"
  shows "in_group_p c g \<longleftrightarrow> g = fsgid c \<or> g \<in> set (gids gi)"
    and "in_egroup_p c g \<longleftrightarrow> g = egid c \<or> g \<in> set (gids gi)"
  using assms sorted_groups_sort [OF assms(1)] groups_sort_perm(4) [OF assms(1)]
  by (auto simp: in_group_p_def in_egroup_p_def groups_search_sorted)

text \<open>
  C10: after a successful \<^verbatim>\<open>setgroups\<close> with any list the kernel could read, the permission
  checks \<open>in_group_p\<close> and \<open>in_egroup_p\<close> accept exactly the listed groups and the caller's
  own filesystem or effective group, however long the list and in whatever order.
\<close>

theorem setgroups_membership:
  assumes "sys_setgroups env (Some small) pool t n u = Some (0, t', pool')"
    and "length small = NGROUPS_SMALL" and "\<forall>pg \<in> set pool. length pg = NGROUPS_PER_BLOCK"
  shows "(in_group_p (tcred t') g \<longleftrightarrow> g = fsgid (tcred t) \<or> (\<exists>i < nat n. u i = Some g)) \<and>
         (in_egroup_p (tcred t') g \<longleftrightarrow> g = egid (tcred t) \<or> (\<exists>i < nat n. u i = Some g))"
proof -
  from sys_setgroups_0 [OF assms] obtain gi x where gi: "group_info_ok gi"
    "group_info (tcred t') = (groups_sort gi)\<lparr>usage := x\<rparr>" "gids gi = map (\<lambda>j. the (u j)) [0..<nat n]"
    "\<forall>j < nat n. u j \<noteq> None" "fsgid (tcred t') = fsgid (tcred t)" "egid (tcred t') = egid (tcred t)"
    by blast
  from gi(3,4) have "g \<in> set (gids gi) \<longleftrightarrow> (\<exists>i < nat n. u i = Some g)" by force
  with in_group_sorted [OF gi(1,2)] gi(5,6) show ?thesis by simp
qed

definition init_cred :: cred where
  "init_cred = \<lparr>uid = 0, gid = 0, suid = 0, sgid = 0, euid = 0, egid = 0, fsuid = 0, fsgid = 0,
     securebits = 0, cap_inheritable = CAP_EMPTY_SET, cap_permitted = CAP_FULL_SET,
     cap_effective = CAP_FULL_SET, cap_bset = CAP_FULL_SET,
     group_info = \<lparr>usage = 2, ngroups = 0, nblocks = 1, small_block = replicate 32 0,
                   blocks = [Small]\<rparr>\<rparr>"

definition init_task :: task_struct where
  "init_task = \<lparr>tcred = init_cred, tflags = 0, tpid = 1, pdeath_signal = 0, mm_dumpable = Some 1\<rparr>"

definition example_env :: cred_env where
  "example_env = \<lparr>cred_mem = True, suid_dumpable = 0\<rparr>"

definition example_setgroups :: "(int \<times> task_struct \<times> page_pool) option" where
  "example_setgroups = sys_setgroups example_env (Some (replicate 32 0)) [] init_task 3
     (\<lambda>i. if i < 3 then Some ([3003, 1015, 3001] ! i) else None)"

theorem setgroups_membership_witness:
  "\<exists>t' pool'. example_setgroups = Some (0, t', pool') \<and>
     in_group_p (tcred t') 1015 \<and> \<not> in_group_p (tcred t') 1016"
proof -
  have "map_option fst example_setgroups = Some 0" by code_simp
  then obtain t' pool' where run: "example_setgroups = Some (0, t', pool')" by auto
  have three: "i < 3 \<longleftrightarrow> i = 0 \<or> i = 1 \<or> i = 2" for i :: nat by auto
  note m = setgroups_membership [OF run [unfolded example_setgroups_def]]
  have "in_group_p (tcred t') 1015" using m [of 1015] by (auto intro!: exI [of _ 1])
  moreover have "\<not> in_group_p (tcred t') 1016"
    using m [of 1016] by (auto simp: init_task_def init_cred_def three)
  ultimately show ?thesis using run by blast
qed

text \<open>
  C14: the groups read back with \<^verbatim>\<open>getgroups\<close> after a successful \<^verbatim>\<open>setgroups\<close> are the ones
  that were set, in ascending order, provided the caller's buffer is large enough: the call
  returns their number, its copies leave the sorted list at the start of the caller's array,
  each id in its place, and they touch nothing behind it.
\<close>

theorem setgroups_getgroups:
  assumes "sys_setgroups env (Some small) pool t n u = Some (0, t', pool')"
    and "length small = NGROUPS_SMALL" and "\<forall>pg \<in> set pool. length pg = NGROUPS_PER_BLOCK"
    and "n \<le> k" and "0 < k"
  shows "\<exists>out gs. sys_getgroups t' (\<lambda>_ _. True) k = (out, int (nat n)) \<and>
           sorted gs \<and> mset gs = mset (map (\<lambda>j. the (u j)) [0..<nat n]) \<and>
           (\<forall>m. user_array out m = (\<lambda>j. if j < nat n then Some (gs ! j) else m j))"
proof -
  from sys_setgroups_0 [OF assms(1-3)] obtain gi x where gi: "group_info_ok gi"
    "group_info (tcred t') = (groups_sort gi)\<lparr>usage := x\<rparr>" "gids gi = map (\<lambda>j. the (u j)) [0..<nat n]"
    by blast
  have "length (gids gi) = nat n" using gi(3) by simp
  then have n: "ngroups gi = nat n" by (simp add: gids_def)
  let ?gi = "(groups_sort gi)\<lparr>usage := x\<rparr>"
  have "group_info_ok ?gi" using groups_sort_perm(1) [OF gi(1)] by simp
  from groups_to_user_all [OF this] obtain out where
    out: "groups_to_user (\<lambda>_ _. True) ?gi = (out, 0)"
    "\<forall>m. user_array out m = (\<lambda>j. if j < length (gids ?gi) then Some (gids ?gi ! j) else m j)"
    by blast
  have g: "gids ?gi = gids (groups_sort gi)" by simp
  have p: "mset (gids (groups_sort gi)) = mset (gids gi)" "sorted (gids (groups_sort gi))"
    "ngroups (groups_sort gi) = ngroups gi"
    using groups_sort_perm [OF gi(1)] sorted_groups_sort [OF gi(1)] by simp_all
  have "length (gids (groups_sort gi)) = nat n"
    using p(1) \<open>length (gids gi) = nat n\<close> by (metis size_mset)
  with out gi assms(4,5) n p show ?thesis
    by (intro exI [of _ out] exI [of _ "gids (groups_sort gi)"]) (auto simp: sys_getgroups_def g)
qed

theorem setgroups_getgroups_witness:
  "\<exists>t' pool' out gs. example_setgroups = Some (0, t', pool') \<and>
     sys_getgroups t' (\<lambda>_ _. True) 16 = (out, 3) \<and> sorted gs \<and> mset gs = {#3003, 1015, 3001#} \<and>
     user_array out (\<lambda>_. None) = (\<lambda>j. if j < 3 then Some (gs ! j) else None)"
proof -
  have "map_option fst example_setgroups = Some 0" by code_simp
  then obtain t' pool' where run: "example_setgroups = Some (0, t', pool')" by auto
  have l: "map (\<lambda>j. the (if j < 3 then Some ([3003, 1015, 3001] ! j) else None)) [0..<nat 3] =
      [3003, 1015, 3001 :: gid_t]" by code_simp
  from setgroups_getgroups [OF run [unfolded example_setgroups_def], of 16, unfolded l]
  obtain out gs where "sys_getgroups t' (\<lambda>_ _. True) 16 = (out, 3)" "sorted gs"
    "mset gs = {#3003, 1015, 3001#}"
    "user_array out (\<lambda>_. None) = (\<lambda>j. if j < 3 then Some (gs ! j) else None)" by auto
  with run show ?thesis by blast
qed

section \<open>Capabilities across exec\<close>











section \<open>Reading and writing back the sets\<close>

lemma cap_ok_cases: "cap_ok c \<Longrightarrow> (\<And>a b. c = [a, b] \<Longrightarrow> P) \<Longrightarrow> P"
  by (auto simp: cap_ok_def length_Suc_conv numeral_2_eq_2)

text \<open>
  C15: a task that reads its capability sets with \<^verbatim>\<open>capget\<close> and writes them back with
  \<^verbatim>\<open>capset\<close> succeeds. With the 64-bit interface its sets are unchanged; with the
  legacy 32-bit interface the upper capabilities are dropped and the lower ones kept, as the
  comment in \<^verbatim>\<open>capget\<close> says.
\<close>

theorem capget_capset:
  assumes "sys_capget ft t header True True = (0, Some kdata)" and "pid header = Some 0"
    and "cred_inv (tcred t)" and "cred_mem env"
    and "sys_capset env t header (\<lambda>n. Some kdata) = (r, t')"
  shows "r = 0 \<and>
    (let keep = (\<lambda>c. if version header = Some LINUX_CAPABILITY_VERSION_1 then [c ! 0, 0] else c) in
       cap_effective (tcred t') = keep (cap_effective (tcred t)) \<and>
       cap_permitted (tcred t') = keep (cap_permitted (tcred t)) \<and>
       cap_inheritable (tcred t') = keep (cap_inheritable (tcred t)))"
proof -
  let ?c = "tcred t"
  obtain e0 e1 p0 p1 i0 i1 where c: "cap_effective ?c = [e0, e1]" "cap_permitted ?c = [p0, p1]"
    "cap_inheritable ?c = [i0, i1]"
    using assms(3) by (auto simp: cred_inv_def cred_caps_ok_def elim!: cap_ok_cases)
  define legacy where "legacy = (version header = Some LINUX_CAPABILITY_VERSION_1)"
  define keep where "keep = (\<lambda>c :: kernel_cap_t. if legacy then [c ! 0, 0] else c)"
  define tc :: nat where "tc = (if legacy then 1 else 2)"
  have magic: "cap_validate_magic header = (0, tc, None)"
    using assms(1) by (auto simp: sys_capget_def cap_validate_magic_def tc_def legacy_def
        split: option.splits if_splits)
  have "kdata = map (\<lambda>i. (cap_effective ?c ! i, cap_permitted ?c ! i, cap_inheritable ?c ! i)) [0..<tc]"
    using assms(1,2) magic by (simp add: sys_capget_def cap_get_target_pid_def cap_capget_def Let_def)
  then have words: "kdata_words fst tc kdata = keep (cap_effective ?c)"
    "kdata_words (fst \<circ> snd) tc kdata = keep (cap_permitted ?c)"
    "kdata_words (snd \<circ> snd) tc kdata = keep (cap_inheritable ?c)"
    by (auto simp: kdata_words_def keep_def tc_def c)
  have keep: "keep a = cap_intersect a [NOT 0, if legacy then 0 else NOT 0]" if "cap_ok a" for a
    using that by (auto elim!: cap_ok_cases simp: keep_def cap_intersect_def CAP_BOP_ALL_def)
  let ?d = "?c\<lparr>group_info := get_group_info (group_info ?c)\<rparr>"
  have "cap_capset u ?d ?d (keep (cap_effective ?c)) (keep (cap_inheritable ?c)) (keep (cap_permitted ?c)) =
      (?d\<lparr>cap_effective := keep (cap_effective ?c), cap_inheritable := keep (cap_inheritable ?c),
          cap_permitted := keep (cap_permitted ?c)\<rparr>, 0)" for u
    using assms(3)
    by (auto simp: cap_capset_def cap_issubset_caps keep cred_inv_def cred_caps_ok_def)
  with assms(2,4,5) magic words have "r = 0 \<and> tcred t' = ?d\<lparr>cap_effective := keep (cap_effective ?c),
      cap_inheritable := keep (cap_inheritable ?c), cap_permitted := keep (cap_permitted ?c)\<rparr>"
    by (auto simp: sys_capset_def prepare_creds_def Let_def split: prod.splits dest!: commit_creds_eq)
  then show ?thesis by (simp add: keep_def legacy_def Let_def)
qed

definition example_header :: user_cap_header where
  "example_header = \<lparr>version = Some LINUX_CAPABILITY_VERSION_1, version_writable = True, pid = Some 0\<rparr>"

theorem capget_capset_witness:
  "sys_capget (\<lambda>_. None) init_task example_header True True = (0, Some [(- 1, - 1, 0)]) \<and>
   (\<exists>t'. sys_capset example_env init_task example_header (\<lambda>n. Some [(- 1, - 1, 0)]) = (0, t') \<and>
         cap_permitted (tcred t') = [- 1, 0])"
proof -
  have get: "sys_capget (\<lambda>_. None) init_task example_header True True = (0, Some [(- 1, - 1, 0)])"
    by code_simp
  have inv: "cred_inv (tcred init_task)"
    by (simp add: cred_inv_def cred_caps_ok_def init_task_def init_cred_def)
  obtain r t' where set:
      "sys_capset example_env init_task example_header (\<lambda>n. Some [(- 1, - 1, 0)]) = (r, t')"
    by (meson surj_pair)
  from capget_capset [OF get _ inv _ set] set get show ?thesis
    by (auto simp: example_header_def example_env_def init_task_def init_cred_def CAP_FULL_SET_def)
qed

end
