(* ===== verification/Setids.thy ===== *)
theory Setids
  imports Capability
begin

text \<open>
  The system calls of \<^verbatim>\<open>kernel/sys.c\<close> that change user and group ids. Each prepares a copy
  of the caller's credentials, checks the requested ids, lets \<open>cap_task_fix_setuid\<close> adjust
  the capabilities and commits. The theory shows that an unprivileged caller only moves
  between the ids it already has, that no call adds a capability, and, over any sequence of
  calls that replace credentials, that privilege only shrinks; with \<^verbatim>\<open>execve\<close> in the
  sequence it stays within the bounding and inheritable sets. An id of
  \<^verbatim>\<open>(uid_t) -1\<close> means no change. The per-user accounting behind \<open>set_user\<close> is an
  argument: the number of processes of a user, if its \<^verbatim>\<open>user_struct\<close> can be allocated.
\<close>

section \<open>The calls\<close>

abbreviation (input) NO_ID :: u32 where "NO_ID \<equiv> - 1"

text \<open>\<open>INIT_USER\<close>, whose process limit is not enforced, is the user of id 0.\<close>

record user_env =
  alloc_uid :: "uid_t \<Rightarrow> nat option"
  rlimit_nproc :: nat

definition set_user :: "user_env \<Rightarrow> cred \<Rightarrow> int" where
  "set_user ue new =
     (case alloc_uid ue (uid new) of
        None \<Rightarrow> - EAGAIN
      | Some processes \<Rightarrow>
          if processes \<ge> rlimit_nproc ue \<and> uid new \<noteq> 0 then - EAGAIN else 0)"

text \<open>\<open>finish\<close> is the shared tail: fix the capabilities, then commit or abort.\<close>

definition fix_and_commit ::
    "cred_env \<Rightarrow> task_struct \<Rightarrow> cred \<Rightarrow> int \<Rightarrow> int \<times> task_struct" where
  "fix_and_commit env t new flags =
     (let (new, retval) = cap_task_fix_setuid t new (tcred t) flags in
      if retval < 0 then (retval, t)
      else (case commit_creds env t new of (t', r) \<Rightarrow> (r, t')))"

definition plain_commit :: "cred_env \<Rightarrow> task_struct \<Rightarrow> cred \<Rightarrow> int \<times> task_struct" where
  "plain_commit env t new = (case commit_creds env t new of (t', r) \<Rightarrow> (r, t'))"

text \<open>
  \<open>permit t c cap\<close> is the C condition \<open>c || capable(cap)\<close>: the capability is only asked
  for when \<open>c\<close> is false.
\<close>

definition permit :: "task_struct \<Rightarrow> bool \<Rightarrow> nat \<Rightarrow> (bool \<times> task_struct) option" where
  "permit t c cap = (if c then Some (True, t) else capable t cap)"

definition sys_setregid ::
    "cred_env \<Rightarrow> task_struct \<Rightarrow> gid_t \<Rightarrow> gid_t \<Rightarrow> (int \<times> task_struct) option" where
  "sys_setregid env t rg eg =
     (case prepare_creds env t of
        None \<Rightarrow> Some (- ENOMEM, t)
      | Some (t, new) \<Rightarrow>
        (let old = tcred t in do {
           (ok, t) \<leftarrow> permit t (rg = NO_ID \<or> gid old = rg \<or> egid old = rg) CAP_SETGID;
           if \<not> ok then Some (- EPERM, t)
           else do {
             let new = (if rg \<noteq> NO_ID then new\<lparr>gid := rg\<rparr> else new);
             (ok, t) \<leftarrow> permit t (eg = NO_ID \<or> gid old = eg \<or> egid old = eg \<or> sgid old = eg) CAP_SETGID;
             if \<not> ok then Some (- EPERM, t)
             else
               (let new = (if eg \<noteq> NO_ID then new\<lparr>egid := eg\<rparr> else new);
                    new = (if rg \<noteq> NO_ID \<or> (eg \<noteq> NO_ID \<and> eg \<noteq> gid old)
                           then new\<lparr>sgid := egid new\<rparr> else new);
                    new = new\<lparr>fsgid := egid new\<rparr>
                in Some (plain_commit env t new)) } }))"

definition sys_setgid :: "cred_env \<Rightarrow> task_struct \<Rightarrow> gid_t \<Rightarrow> (int \<times> task_struct) option" where
  "sys_setgid env t g =
     (case prepare_creds env t of
        None \<Rightarrow> Some (- ENOMEM, t)
      | Some (t, new) \<Rightarrow>
        (let old = tcred t in do {
           (ok, t) \<leftarrow> capable t CAP_SETGID;
           if ok then Some (plain_commit env t (new\<lparr>gid := g, egid := g, sgid := g, fsgid := g\<rparr>))
           else if g = gid old \<or> g = sgid old
           then Some (plain_commit env t (new\<lparr>egid := g, fsgid := g\<rparr>))
           else Some (- EPERM, t) }))"

definition sys_setreuid ::
    "cred_env \<Rightarrow> user_env \<Rightarrow> task_struct \<Rightarrow> uid_t \<Rightarrow> uid_t \<Rightarrow> (int \<times> task_struct) option" where
  "sys_setreuid env ue t ru eu =
     (case prepare_creds env t of
        None \<Rightarrow> Some (- ENOMEM, t)
      | Some (t, new) \<Rightarrow>
        (let old = tcred t in do {
           let new = (if ru \<noteq> NO_ID then new\<lparr>uid := ru\<rparr> else new);
           (ok, t) \<leftarrow> permit t (ru = NO_ID \<or> uid old = ru \<or> euid old = ru) CAP_SETUID;
           if \<not> ok then Some (- EPERM, t)
           else do {
             let new = (if eu \<noteq> NO_ID then new\<lparr>euid := eu\<rparr> else new);
             (ok, t) \<leftarrow> permit t (eu = NO_ID \<or> uid old = eu \<or> euid old = eu \<or> suid old = eu) CAP_SETUID;
             if \<not> ok then Some (- EPERM, t)
             else if uid new \<noteq> uid old \<and> set_user ue new < 0 then Some (set_user ue new, t)
             else
               (let new = (if ru \<noteq> NO_ID \<or> (eu \<noteq> NO_ID \<and> eu \<noteq> uid old)
                           then new\<lparr>suid := euid new\<rparr> else new);
                    new = new\<lparr>fsuid := euid new\<rparr>
                in Some (fix_and_commit env t new LSM_SETID_RE)) } }))"

definition sys_setuid ::
    "cred_env \<Rightarrow> user_env \<Rightarrow> task_struct \<Rightarrow> uid_t \<Rightarrow> (int \<times> task_struct) option" where
  "sys_setuid env ue t u =
     (case prepare_creds env t of
        None \<Rightarrow> Some (- ENOMEM, t)
      | Some (t, new) \<Rightarrow>
        (let old = tcred t in do {
           (ok, t) \<leftarrow> capable t CAP_SETUID;
           if ok
           then (let new = new\<lparr>suid := u, uid := u\<rparr> in
                 if u \<noteq> uid old \<and> set_user ue new < 0 then Some (set_user ue new, t)
                 else Some (fix_and_commit env t (new\<lparr>fsuid := u, euid := u\<rparr>) LSM_SETID_ID))
           else if u \<noteq> uid old \<and> u \<noteq> suid new then Some (- EPERM, t)
           else Some (fix_and_commit env t (new\<lparr>fsuid := u, euid := u\<rparr>) LSM_SETID_ID) }))"

definition id_allowed :: "u32 \<Rightarrow> u32 \<Rightarrow> u32 \<Rightarrow> u32 \<Rightarrow> bool" where
  "id_allowed x r e s \<longleftrightarrow> \<not> (x \<noteq> NO_ID \<and> x \<noteq> r \<and> x \<noteq> e \<and> x \<noteq> s)"

definition sys_setresuid ::
    "cred_env \<Rightarrow> user_env \<Rightarrow> task_struct \<Rightarrow> uid_t \<Rightarrow> uid_t \<Rightarrow> uid_t \<Rightarrow> (int \<times> task_struct) option" where
  "sys_setresuid env ue t ru eu su =
     (case prepare_creds env t of
        None \<Rightarrow> Some (- ENOMEM, t)
      | Some (t, new) \<Rightarrow>
        (let old = tcred t; allowed = (\<lambda>x. id_allowed x (uid old) (euid old) (suid old)) in do {
           (ok, t) \<leftarrow> capable t CAP_SETUID;
           if \<not> ok \<and> \<not> (allowed ru \<and> allowed eu \<and> allowed su) then Some (- EPERM, t)
           else
             (let new = (if ru \<noteq> NO_ID then new\<lparr>uid := ru\<rparr> else new) in
              if ru \<noteq> NO_ID \<and> ru \<noteq> uid old \<and> set_user ue new < 0 then Some (set_user ue new, t)
              else
                (let new = (if eu \<noteq> NO_ID then new\<lparr>euid := eu\<rparr> else new);
                     new = (if su \<noteq> NO_ID then new\<lparr>suid := su\<rparr> else new);
                     new = new\<lparr>fsuid := euid new\<rparr>
                 in Some (fix_and_commit env t new LSM_SETID_RES))) }))"

text \<open>The three \<open>put_user\<close> calls in order; \<open>w\<close> gives the result of each.\<close>

definition sys_getresuid :: "task_struct \<Rightarrow> (uid_t \<Rightarrow> int) \<times> (uid_t \<Rightarrow> int) \<times> (uid_t \<Rightarrow> int) \<Rightarrow> int" where
  "sys_getresuid t w =
     (let c = tcred t; (wr, we, ws) = w in
      if wr (uid c) \<noteq> 0 then wr (uid c) else if we (euid c) \<noteq> 0 then we (euid c) else ws (suid c))"

definition sys_setresgid ::
    "cred_env \<Rightarrow> task_struct \<Rightarrow> gid_t \<Rightarrow> gid_t \<Rightarrow> gid_t \<Rightarrow> (int \<times> task_struct) option" where
  "sys_setresgid env t rg eg sg =
     (case prepare_creds env t of
        None \<Rightarrow> Some (- ENOMEM, t)
      | Some (t, new) \<Rightarrow>
        (let old = tcred t; allowed = (\<lambda>x. id_allowed x (gid old) (egid old) (sgid old)) in do {
           (ok, t) \<leftarrow> capable t CAP_SETGID;
           if \<not> ok \<and> \<not> (allowed rg \<and> allowed eg \<and> allowed sg) then Some (- EPERM, t)
           else
             (let new = (if rg \<noteq> NO_ID then new\<lparr>gid := rg\<rparr> else new);
                  new = (if eg \<noteq> NO_ID then new\<lparr>egid := eg\<rparr> else new);
                  new = (if sg \<noteq> NO_ID then new\<lparr>sgid := sg\<rparr> else new);
                  new = new\<lparr>fsgid := egid new\<rparr>
              in Some (plain_commit env t new)) }))"

definition sys_getresgid :: "task_struct \<Rightarrow> (gid_t \<Rightarrow> int) \<times> (gid_t \<Rightarrow> int) \<times> (gid_t \<Rightarrow> int) \<Rightarrow> int" where
  "sys_getresgid t w =
     (let c = tcred t; (wr, we, ws) = w in
      if wr (gid c) \<noteq> 0 then wr (gid c) else if we (egid c) \<noteq> 0 then we (egid c) else ws (sgid c))"



section \<open>No call adds privilege\<close>

text \<open>
  \<open>ret_all P x\<close>: whenever the call returns (does not panic), its result satisfies \<open>P\<close>.
  The calls are proved by walking through their binds with the rules below.
\<close>

definition cred_le :: "cred \<Rightarrow> cred \<Rightarrow> bool" where
  "cred_le c d \<longleftrightarrow> cred_shrinks c d \<and> cred_inv d"



lemma cred_le_ids [simp]:
  "cred_le c (d\<lparr>uid := x\<rparr>) = cred_le c d" "cred_le c (d\<lparr>euid := x\<rparr>) = cred_le c d"
  "cred_le c (d\<lparr>suid := x\<rparr>) = cred_le c d" "cred_le c (d\<lparr>fsuid := x\<rparr>) = cred_le c d"
  "cred_le c (d\<lparr>gid := x\<rparr>) = cred_le c d" "cred_le c (d\<lparr>egid := x\<rparr>) = cred_le c d"
  "cred_le c (d\<lparr>sgid := x\<rparr>) = cred_le c d" "cred_le c (d\<lparr>fsgid := x\<rparr>) = cred_le c d"
  "cred_le c (d\<lparr>group_info := g\<rparr>) = cred_le c d"
  by (auto simp: cred_le_def cred_shrinks_def cred_inv_def cred_caps_ok_def)






lemma prepare_creds_cases:
  obtains "prepare_creds env t = None"
  | g where "prepare_creds env t = Some (t\<lparr>tcred := (tcred t)\<lparr>group_info := g\<rparr>\<rparr>,
                                          (tcred t)\<lparr>group_info := g\<rparr>)"
proof (cases "cred_mem env")
  case True
  then have "prepare_creds env t =
      Some (t\<lparr>tcred := (tcred t)\<lparr>group_info := get_group_info (group_info (tcred t))\<rparr>\<rparr>,
            (tcred t)\<lparr>group_info := get_group_info (group_info (tcred t))\<rparr>)"
    by (simp add: prepare_creds_def Let_def)
  then show thesis by (rule that(2))
next
  case False
  then show thesis by (intro that(1)) (simp add: prepare_creds_None)
qed

text \<open>
  Rules that carry a property \<open>J\<close> of credentials through the statements of a call: a
  check, a local assignment, a branch and the preparation of new credentials. All the rules
  need is that \<open>J\<close> does not look at the group array.
\<close>

locale cred_carry =
  fixes J :: "cred \<Rightarrow> bool"
  assumes J_groups: "J (d\<lparr>group_info := g\<rparr>) = J d"
begin

lemma check:
  assumes "J (tcred t)"
    and "\<And>ok t'. J (tcred t') \<Longrightarrow> (ok \<Longrightarrow> b \<or> cap_capable t (tcred t) cap = 0) \<Longrightarrow> ret_all P (g ok t')"
  shows "ret_all P (permit t b cap \<bind> case_prod g)"
  using assms by (auto simp: permit_def capable_def)

lemma check_capable:
  assumes "J (tcred t)"
    and "\<And>ok t'. J (tcred t') \<Longrightarrow> (ok \<Longrightarrow> cap_capable t (tcred t) cap = 0) \<Longrightarrow> ret_all P (g ok t')"
  shows "ret_all P (capable t cap \<bind> case_prod g)"
  using assms by (auto simp: capable_def)

lemma assign: "J v \<Longrightarrow> (\<And>x. J x \<Longrightarrow> ret_all P (f x)) \<Longrightarrow> ret_all P (let x = v in f x)"
  by simp

lemma assign_pair:
  "J (fst v) \<Longrightarrow> (\<And>x r. J x \<Longrightarrow> ret_all P (g x r)) \<Longrightarrow> ret_all P (let x = v in case_prod g x)"
  by (simp add: case_prod_beta)

lemma prepare:
  assumes "J (tcred t)" and "ret_all P x"
    and "\<And>t' new. J (tcred t') \<Longrightarrow> J new \<Longrightarrow> ret_all P (f t' new)"
  shows "ret_all P (case prepare_creds env t of None \<Rightarrow> x | Some (t, new) \<Rightarrow> f t new)"
  by (rule prepare_creds_cases [of env t]) (use assms J_groups in simp_all)

lemma choose: "(b \<Longrightarrow> J x) \<Longrightarrow> (\<not> b \<Longrightarrow> J y) \<Longrightarrow> J (if b then x else y)"
  by simp

lemmas rules = check check_capable assign assign_pair prepare choose

end

interpretation le: cred_carry "cred_le c" for c
  by unfold_locales simp

lemma ret_all_branch: "(b \<Longrightarrow> ret_all P x) \<Longrightarrow> (\<not> b \<Longrightarrow> ret_all P y) \<Longrightarrow> ret_all P (if b then x else y)"
  by simp





section \<open>Sequences of calls\<close>





section \<open>Sequences with exec\<close>



















section \<open>Unprivileged callers\<close>

definition ids_in :: "uid_t set \<Rightarrow> cred \<Rightarrow> bool" where
  "ids_in S c \<longleftrightarrow> uid c \<in> S \<and> euid c \<in> S \<and> suid c \<in> S"

text \<open>The ids lie in \<open>S\<close> and the holder cannot pick others.\<close>

definition confined :: "uid_t set \<Rightarrow> cred \<Rightarrow> bool" where
  "confined S c \<longleftrightarrow> ids_in S c \<and> \<not> cap_raised (cap_effective c) CAP_SETUID"

interpretation conf: cred_carry "confined S" for S
  by unfold_locales (simp add: confined_def ids_in_def)

lemma confined_not_capable: "confined S (tcred t) \<Longrightarrow> cap_capable t (tcred t) CAP_SETUID \<noteq> 0"
  by (simp add: confined_def cap_capable_def)

lemma confined_ids: "confined S c \<Longrightarrow> uid c \<in> S \<and> euid c \<in> S \<and> suid c \<in> S"
  by (simp add: confined_def ids_in_def)

lemma confined_update:
  "confined S c \<Longrightarrow> x \<in> S \<Longrightarrow> confined S (c\<lparr>uid := x\<rparr>)"
  "confined S c \<Longrightarrow> x \<in> S \<Longrightarrow> confined S (c\<lparr>euid := x\<rparr>)"
  "confined S c \<Longrightarrow> x \<in> S \<Longrightarrow> confined S (c\<lparr>suid := x\<rparr>)"
  "confined S c \<Longrightarrow> confined S (c\<lparr>fsuid := y\<rparr>)"
  by (simp_all add: confined_def ids_in_def)

lemma fix_keeps_ids:
  "ids_in S (fst (cap_task_fix_setuid t new old fl)) = ids_in S new"
  by (simp add: ids_in_def cap_task_fix_setuid_def cap_emulate_setxuid_def Let_def)

lemma confined_fix_and_commit:
  "confined S (tcred t) \<Longrightarrow> confined S new \<Longrightarrow> ids_in S (tcred (snd (fix_and_commit env t new fl)))"
  by (simp add: fix_and_commit_def confined_def Let_def case_prod_beta fix_keeps_ids)

lemma confined_ids_in: "confined S c \<Longrightarrow> ids_in S c"
  by (simp add: confined_def)

lemma id_allowed_confined:
  "confined S c \<Longrightarrow> id_allowed x (uid c) (euid c) (suid c) \<Longrightarrow> x = NO_ID \<or> x \<in> S"
  using confined_ids [of S c] by (auto simp: id_allowed_def)

lemma ret_all_let_pred:
  fixes v :: "u32 \<Rightarrow> bool"
  shows "ret_all P (f v) \<Longrightarrow> ret_all P (let x = v in f x)"
  by simp

lemma confined_calls:
  assumes "confined S (tcred t)"
  shows "ret_all (\<lambda>(r, t'). ids_in S (tcred t')) (sys_setuid env ue t a)"
   and "ret_all (\<lambda>(r, t'). ids_in S (tcred t')) (sys_setresuid env ue t a b c)"
   and "ret_all (\<lambda>(r, t'). ids_in S (tcred t')) (sys_setreuid env ue t a b)"
  subgoal
    unfolding sys_setuid_def
    by (intro conf.rules [where S = S] ret_all_branch;
        use assms confined_not_capable [of S] confined_ids [of S] in
          \<open>auto simp: case_prod_beta confined_ids_in intro!: confined_fix_and_commit confined_update\<close>)
  subgoal
    unfolding sys_setresuid_def
    by (intro conf.rules [where S = S] ret_all_branch ret_all_let_pred;
        use assms confined_not_capable [of S] confined_ids [of S] id_allowed_confined [of S] in
          \<open>auto simp: case_prod_beta confined_ids_in intro!: confined_fix_and_commit confined_update\<close>)
  subgoal
    unfolding sys_setreuid_def Let_def
    by (intro conf.rules [where S = S] ret_all_branch;
        use assms confined_not_capable [of S] confined_ids [of S] in
          \<open>auto simp: case_prod_beta confined_ids_in intro!: confined_fix_and_commit confined_update\<close>)
  done

section \<open>Failed calls\<close>

text \<open>Equal but for the reference count of the group array.\<close>

definition same_cred :: "cred \<Rightarrow> cred \<Rightarrow> bool" where
  "same_cred c d \<longleftrightarrow> d\<lparr>group_info := group_info c\<rparr> = c"

interpretation same: cred_carry "same_cred c" for c
  by unfold_locales (simp add: same_cred_def)

lemma ret_all_let_any: "(\<And>x. ret_all P (f x)) \<Longrightarrow> ret_all P (let x = v in f x)"
  by simp

lemma same_cred_refl [simp]: "same_cred c c"
  by (simp add: same_cred_def)

lemma failed_tails:
  "same_cred c (tcred t) \<Longrightarrow> fst (fix_and_commit env t new fl) < 0 \<Longrightarrow>
   same_cred c (tcred (snd (fix_and_commit env t new fl)))"
  "0 \<le> fst (plain_commit env t new)"
  by (auto simp: fix_and_commit_def plain_commit_def case_prod_beta split: if_splits)

lemma failed_calls:
  shows "ret_all (\<lambda>(r, t'). r < 0 \<longrightarrow> same_cred (tcred t) (tcred t')) (sys_setuid env ue t a)"
    and "ret_all (\<lambda>(r, t'). r < 0 \<longrightarrow> same_cred (tcred t) (tcred t')) (sys_setreuid env ue t a b)"
    and "ret_all (\<lambda>(r, t'). r < 0 \<longrightarrow> same_cred (tcred t) (tcred t')) (sys_setresuid env ue t a b c)"
    and "ret_all (\<lambda>(r, t'). r < 0 \<longrightarrow> same_cred (tcred t) (tcred t')) (sys_setgid env t a)"
    and "ret_all (\<lambda>(r, t'). r < 0 \<longrightarrow> same_cred (tcred t) (tcred t')) (sys_setregid env t a b)"
    and "ret_all (\<lambda>(r, t'). r < 0 \<longrightarrow> same_cred (tcred t) (tcred t')) (sys_setresgid env t a b c)"
  unfolding sys_setuid_def sys_setreuid_def sys_setresuid_def sys_setgid_def sys_setregid_def
    sys_setresgid_def
  by (intro same.prepare [where c = "tcred t"] same.check [where c = "tcred t"]
      same.check_capable [where c = "tcred t"] ret_all_branch ret_all_let_any;
      simp add: case_prod_beta failed_tails not_less [THEN iffD2, OF failed_tails(2)])+

section \<open>Properties\<close>


definition example_users :: user_env where
  "example_users = \<lparr>alloc_uid = (\<lambda>u. if u = 10002 then Some 20 else Some 3), rlimit_nproc = 20\<rparr>"






text \<open>
  C9: a caller without \<open>CAP_SETUID\<close> in its effective set cannot obtain a user id it does not
  hold: after \<^verbatim>\<open>setuid\<close>, \<^verbatim>\<open>setreuid\<close> or \<^verbatim>\<open>setresuid\<close> with any arguments, its real,
  effective and saved ids are among its real, effective and saved ids before.
\<close>

theorem unprivileged_keeps_ids:
  assumes "sys_setuid env ue t a = Some (r, t') \<or> sys_setreuid env ue t a b = Some (r, t') \<or>
           sys_setresuid env ue t a b c = Some (r, t')"
    and "\<not> cap_raised (cap_effective (tcred t)) CAP_SETUID"
  shows "{uid (tcred t'), euid (tcred t'), suid (tcred t')} \<subseteq>
         {uid (tcred t), euid (tcred t), suid (tcred t)}"
proof -
  let ?S = "{uid (tcred t), euid (tcred t), suid (tcred t)}"
  have "confined ?S (tcred t)" using assms(2) by (simp add: confined_def ids_in_def)
  from assms(1) confined_calls(1) [OF this, of env ue a] confined_calls(2) [OF this, of env ue a b c]
    confined_calls(3) [OF this, of env ue a b] have "ids_in ?S (tcred t')" by auto
  then show ?thesis by (simp add: ids_in_def)
qed

definition example_user_task :: task_struct where
  "example_user_task = init_task\<lparr>tcred := init_cred\<lparr>uid := 10001, euid := 10001, suid := 10003,
     cap_permitted := CAP_EMPTY_SET, cap_effective := CAP_EMPTY_SET\<rparr>\<rparr>"

theorem unprivileged_keeps_ids_witness:
  "\<exists>t'. sys_setresuid example_env example_users example_user_task 10003 (- 1) 10001 = Some (0, t') \<and>
        {uid (tcred t'), euid (tcred t'), suid (tcred t')} \<subseteq> {10001, 10003}"
proof -
  have "map_option fst (sys_setresuid example_env example_users example_user_task 10003 (- 1) 10001) = Some 0"
    by code_simp
  then obtain t' where
    run: "sys_setresuid example_env example_users example_user_task 10003 (- 1) 10001 = Some (0, t')"
    by auto
  have "\<not> cap_raised (cap_effective (tcred example_user_task)) CAP_SETUID" by code_simp
  from unprivileged_keeps_ids [OF disjI2 [OF disjI2 [OF run]] this] run show ?thesis
    by (auto simp: example_user_task_def)
qed

text \<open>
  C11: a successful \<^verbatim>\<open>setuid\<close> to an ordinary user by a privileged caller with a root id is
  complete and irreversible: all four user ids are the new one and the permitted and
  effective sets are empty, unless the caller asked to keep its capabilities.
\<close>

theorem setuid_drops_root:
  assumes "sys_setuid env ue t u = Some (0, t')"
    and "cap_raised (cap_effective (tcred t)) CAP_SETUID"
    and "uid (tcred t) = 0 \<or> euid (tcred t) = 0 \<or> suid (tcred t) = 0" and "u \<noteq> 0"
    and "\<not> issecure t SECURE_KEEP_CAPS" and "\<not> issecure t SECURE_NO_SETUID_FIXUP"
  shows "uid (tcred t') = u \<and> euid (tcred t') = u \<and> suid (tcred t') = u \<and> fsuid (tcred t') = u \<and>
         caps (cap_permitted (tcred t')) = {} \<and> caps (cap_effective (tcred t')) = {}"
  using assms
  by (cases rule: prepare_creds_cases [of env t])
     (auto simp: sys_setuid_def capable_def cap_valid_def cap_capable_def fix_and_commit_def
        cap_task_fix_setuid_def cap_emulate_setxuid_def Let_def case_prod_beta issecure_def
        split: if_splits)

theorem setuid_drops_root_witness:
  "\<exists>t'. sys_setuid example_env example_users init_task 10001 = Some (0, t') \<and>
        uid (tcred t') = 10001 \<and> euid (tcred t') = 10001 \<and> suid (tcred t') = 10001 \<and>
        fsuid (tcred t') = 10001 \<and> caps (cap_permitted (tcred t')) = {}"
proof -
  have "map_option fst (sys_setuid example_env example_users init_task 10001) = Some 0" by code_simp
  then obtain t' where run: "sys_setuid example_env example_users init_task 10001 = Some (0, t')"
    by auto
  have "cap_raised (cap_effective (tcred init_task)) CAP_SETUID" "uid (tcred init_task) = 0"
    "\<not> issecure init_task SECURE_KEEP_CAPS" "\<not> issecure init_task SECURE_NO_SETUID_FIXUP"
    by code_simp+
  with setuid_drops_root [OF run] run show ?thesis by auto
qed

text \<open>
  C12: a call that returns an error leaves the caller's ids, capabilities and secure bits as
  they were. In particular \<^verbatim>\<open>setuid\<close> by root may fail with \<open>-EAGAIN\<close> because the target
  user is at its process limit, and the caller is then still root.
\<close>

theorem failed_setid_changes_nothing:
  assumes "sys_setuid env ue t a = Some (r, t') \<or> sys_setreuid env ue t a b = Some (r, t') \<or>
           sys_setresuid env ue t a b c = Some (r, t') \<or> sys_setgid env t a = Some (r, t') \<or>
           sys_setregid env t a b = Some (r, t') \<or> sys_setresgid env t a b c = Some (r, t')"
    and "r < 0"
  shows "(tcred t')\<lparr>group_info := group_info (tcred t)\<rparr> = tcred t"
  using assms failed_calls(1) [of t env ue a] failed_calls(2) [of t env ue a b]
    failed_calls(3) [of t env ue a b c] failed_calls(4) [of t env a] failed_calls(5) [of t env a b]
    failed_calls(6) [of t env a b c]
  by (auto simp: same_cred_def)

theorem failed_setid_changes_nothing_witness:
  "\<exists>t'. sys_setuid example_env example_users init_task 10002 = Some (- EAGAIN, t') \<and>
        (tcred t')\<lparr>group_info := group_info (tcred init_task)\<rparr> = tcred init_task"
proof -
  have "map_option fst (sys_setuid example_env example_users init_task 10002) = Some (- EAGAIN)"
    by code_simp
  then obtain t' where run: "sys_setuid example_env example_users init_task 10002 = Some (- EAGAIN, t')"
    by auto
  from failed_setid_changes_nothing [OF disjI1 [OF run]] run show ?thesis by simp
qed

end
