(* ===== verification/Ashmem.thy ===== *)
theory Ashmem
  imports Capability
begin

text \<open>
  Anonymous shared memory: \<^verbatim>\<open>mm/ashmem.c\<close>. An area keeps the list of its unpinned page
  ranges, highest pages first; every range that has not been purged is also on one global
  LRU list, which the shrinker consumes. Areas and ranges are objects of a heap addressed
  by numbers, because a range sits on two lists at once. Allocation results, copies from and
  to user space and the operations of the backing shmem file are arguments. Page numbers and
  sizes are 32-bit words as on the ARM build. The callers hold \<open>ashmem_mutex\<close>, so every
  operation is one atomic step.
\<close>

section \<open>Data\<close>


abbreviation (input) ASHMEM_NAME_LEN :: nat where "ASHMEM_NAME_LEN \<equiv> 256"
abbreviation (input) ASHMEM_NAME_PREFIX :: string where "ASHMEM_NAME_PREFIX \<equiv> ''dev/ashmem/''"
abbreviation (input) ASHMEM_NAME_PREFIX_LEN :: nat where "ASHMEM_NAME_PREFIX_LEN \<equiv> 11"
abbreviation (input) ASHMEM_FULL_NAME_LEN :: nat where "ASHMEM_FULL_NAME_LEN \<equiv> 267"
abbreviation (input) ASHMEM_NAME_DEF :: string where "ASHMEM_NAME_DEF \<equiv> ''dev/ashmem''"
abbreviation (input) NUL :: char where "NUL \<equiv> CHR 0x00"

abbreviation (input) PROT_READ :: u32 where "PROT_READ \<equiv> 1"
abbreviation (input) PROT_WRITE :: u32 where "PROT_WRITE \<equiv> 2"
abbreviation (input) PROT_EXEC :: u32 where "PROT_EXEC \<equiv> 4"
abbreviation (input) PROT_MASK :: u32 where "PROT_MASK \<equiv> 7"
abbreviation (input) VM_SHARED :: u32 where "VM_SHARED \<equiv> 8"
abbreviation (input) VM_CAN_NONLINEAR :: u32 where "VM_CAN_NONLINEAR \<equiv> 0x08000000"

record ashmem_area =
  aname :: string
  unpinned_list :: "nat list"
  afile :: "nat option"
  asize :: u32
  prot_mask :: u32
  owner :: int

record ashmem_range =
  asma :: nat
  pgstart :: u32
  pgend :: u32
  purged :: bool

text \<open>
  \<open>truncated\<close> records the calls of \<^verbatim>\<open>vmtruncate_range\<close> (area, first and last byte);
  \<open>f_pos\<close> the positions of the backing files.
\<close>

record ashmem_state =
  areas :: "nat \<Rightarrow> ashmem_area option"
  ranges :: "nat \<Rightarrow> ashmem_range option"
  ashmem_lru_list :: "nat list"
  lru_count :: u32
  ashmem_area_list :: "nat list"
  truncated :: "(nat \<times> u32 \<times> u32) list"
  f_pos :: "nat \<Rightarrow> int"

definition area :: "ashmem_state \<Rightarrow> nat \<Rightarrow> ashmem_area" where
  "area s a = the (areas s a)"

definition rng :: "ashmem_state \<Rightarrow> nat \<Rightarrow> ashmem_range" where
  "rng s r = the (ranges s r)"

definition set_area :: "nat \<Rightarrow> ashmem_area \<Rightarrow> ashmem_state \<Rightarrow> ashmem_state" where
  "set_area a A s = s\<lparr>areas := (areas s)(a \<mapsto> A)\<rparr>"

definition set_rng :: "nat \<Rightarrow> ashmem_range \<Rightarrow> ashmem_state \<Rightarrow> ashmem_state" where
  "set_rng r R s = s\<lparr>ranges := (ranges s)(r \<mapsto> R)\<rparr>"

section \<open>Ranges\<close>

definition range_size :: "ashmem_range \<Rightarrow> u32" where
  "range_size R = pgend R - pgstart R + 1"

definition range_on_lru :: "ashmem_range \<Rightarrow> bool" where
  "range_on_lru R \<longleftrightarrow> \<not> purged R"

definition page_range_subsumes_range :: "ashmem_range \<Rightarrow> u32 \<Rightarrow> u32 \<Rightarrow> bool" where
  "page_range_subsumes_range R start fin \<longleftrightarrow> pgstart R \<ge> start \<and> pgend R \<le> fin"

definition page_range_subsumed_by_range :: "ashmem_range \<Rightarrow> u32 \<Rightarrow> u32 \<Rightarrow> bool" where
  "page_range_subsumed_by_range R start fin \<longleftrightarrow> pgstart R \<le> start \<and> pgend R \<ge> fin"

definition page_in_range :: "ashmem_range \<Rightarrow> u32 \<Rightarrow> bool" where
  "page_in_range R page \<longleftrightarrow> pgstart R \<le> page \<and> pgend R \<ge> page"

definition page_range_in_range :: "ashmem_range \<Rightarrow> u32 \<Rightarrow> u32 \<Rightarrow> bool" where
  "page_range_in_range R start fin \<longleftrightarrow>
     page_in_range R start \<or> page_in_range R fin \<or> page_range_subsumes_range R start fin"

definition range_before_page :: "ashmem_range \<Rightarrow> u32 \<Rightarrow> bool" where
  "range_before_page R page \<longleftrightarrow> pgend R < page"

definition lru_add :: "nat \<Rightarrow> ashmem_state \<Rightarrow> ashmem_state" where
  "lru_add r s = s\<lparr>ashmem_lru_list := ashmem_lru_list s @ [r],
                    lru_count := lru_count s + range_size (rng s r)\<rparr>"

definition lru_del :: "nat \<Rightarrow> ashmem_state \<Rightarrow> ashmem_state" where
  "lru_del r s = s\<lparr>ashmem_lru_list := removeAll r (ashmem_lru_list s),
                    lru_count := lru_count s - range_size (rng s r)\<rparr>"

text \<open>
  \<open>list_add_tail(&range->unpinned, &prev->unpinned)\<close>: before \<open>prev\<close>, or at the end of the
  list when \<open>prev\<close> is the list head (\<^term>\<open>None\<close>).
\<close>

fun insert_before :: "nat option \<Rightarrow> nat \<Rightarrow> nat list \<Rightarrow> nat list" where
  "insert_before p r [] = [r]"
| "insert_before p r (x # xs) = (if p = Some x then r # x # xs else x # insert_before p r xs)"

text \<open>\<open>mem\<close> is the result of the slab allocator: the address of the new range, if any.\<close>

definition range_alloc ::
    "nat option \<Rightarrow> nat \<Rightarrow> nat option \<Rightarrow> bool \<Rightarrow> u32 \<Rightarrow> u32 \<Rightarrow> ashmem_state \<Rightarrow> ashmem_state \<times> int" where
  "range_alloc mem a prev_range purge start fin s =
     (case mem of
        None \<Rightarrow> (s, - ENOMEM)
      | Some r \<Rightarrow>
          let R = \<lparr>asma = a, pgstart = start, pgend = fin, purged = purge\<rparr>;
              s = set_rng r R s;
              A = area s a;
              s = set_area a (A\<lparr>unpinned_list := insert_before prev_range r (unpinned_list A)\<rparr>) s
          in (if range_on_lru R then lru_add r s else s, 0))"

text \<open>\<open>list_del\<close> unlinks a range from whichever area's list holds it.\<close>

definition unlink :: "nat \<Rightarrow> ashmem_state \<Rightarrow> ashmem_state" where
  "unlink r s = s\<lparr>areas := \<lambda>a. map_option
     (\<lambda>A. A\<lparr>unpinned_list := removeAll r (unpinned_list A)\<rparr>) (areas s a)\<rparr>"

definition range_del :: "nat \<Rightarrow> ashmem_state \<Rightarrow> ashmem_state" where
  "range_del r s =
     (let s = unlink r s;
          s = (if range_on_lru (rng s r) then lru_del r s else s)
      in s\<lparr>ranges := (ranges s)(r := None)\<rparr>)"

definition range_shrink :: "nat \<Rightarrow> u32 \<Rightarrow> u32 \<Rightarrow> ashmem_state \<Rightarrow> ashmem_state" where
  "range_shrink r start fin s =
     (let pre = range_size (rng s r);
          R = (rng s r)\<lparr>pgstart := start, pgend := fin\<rparr>;
          s = set_rng r R s
      in if range_on_lru R then s\<lparr>lru_count := lru_count s - (pre - range_size R)\<rparr> else s)"

section \<open>Opening, closing, reading\<close>

definition ashmem_open :: "int \<Rightarrow> nat option \<Rightarrow> int \<Rightarrow> ashmem_state \<Rightarrow> ashmem_state \<times> int" where
  "ashmem_open generic_open mem cur s =
     (if generic_open \<noteq> 0 then (s, generic_open)
      else (case mem of
              None \<Rightarrow> (s, - ENOMEM)
            | Some a \<Rightarrow>
                let A = \<lparr>aname = ASHMEM_NAME_PREFIX @ replicate ASHMEM_NAME_LEN NUL, unpinned_list = [],
                         afile = None, asize = 0, prot_mask = PROT_MASK, owner = cur\<rparr>
                in ((set_area a A s)\<lparr>ashmem_area_list := ashmem_area_list s @ [a]\<rparr>, 0)))"

definition ashmem_release :: "nat \<Rightarrow> ashmem_state \<Rightarrow> ashmem_state \<times> int" where
  "ashmem_release a s =
     (let s = fold range_del (unpinned_list (area s a)) s;
          s = s\<lparr>ashmem_area_list := removeAll a (ashmem_area_list s)\<rparr>
      in (s\<lparr>areas := (areas s)(a := None)\<rparr>, 0))"

text \<open>\<open>f_op_read\<close> is the backing file's read: its result and the position it leaves.\<close>

definition ashmem_read ::
    "(nat \<Rightarrow> int \<times> int) \<Rightarrow> nat \<Rightarrow> ashmem_state \<Rightarrow> ashmem_state \<times> int" where
  "ashmem_read f_op_read a s =
     (let A = area s a in
      if asize A = 0 then (s, 0)
      else (case afile A of
              None \<Rightarrow> (s, - EBADF)
            | Some f \<Rightarrow>
                let (ret, pos) = f_op_read f in
                if ret < 0 then (s, ret) else (s\<lparr>f_pos := (f_pos s)(f := pos)\<rparr>, ret)))"

text \<open>The result is an \<open>int\<close>; the new position of the file handle is the second component.\<close>

definition ashmem_llseek ::
    "(nat \<Rightarrow> int \<times> int) \<Rightarrow> nat \<Rightarrow> int \<Rightarrow> ashmem_state \<Rightarrow> ashmem_state \<times> int \<times> int" where
  "ashmem_llseek f_op_llseek a file_pos s =
     (let A = area s a in
      if asize A = 0 then (s, file_pos, - EINVAL)
      else (case afile A of
              None \<Rightarrow> (s, file_pos, - EBADF)
            | Some f \<Rightarrow>
                let (ret, pos) = f_op_llseek f;
                    s = s\<lparr>f_pos := (f_pos s)(f := pos)\<rparr>;
                    ret = to_int32 ret in
                if ret < 0 then (s, file_pos, ret) else (s, f_pos s f, ret)))"

section \<open>Mapping\<close>

definition calc_vm_trans :: "u32 \<Rightarrow> u32 \<Rightarrow> u32 \<Rightarrow> u32" where
  "calc_vm_trans x bit1 bit2 =
     (if bit1 \<le> bit2 then (x AND bit1) * (bit2 div bit1) else (x AND bit1) div (bit1 div bit2))"

definition calc_vm_prot_bits :: "u32 \<Rightarrow> u32" where
  "calc_vm_prot_bits prot =
     calc_vm_trans prot PROT_READ 1 OR calc_vm_trans prot PROT_WRITE 2 OR calc_vm_trans prot PROT_EXEC 4"

definition calc_vm_may_flags :: "u32 \<Rightarrow> u32" where
  "calc_vm_may_flags prot =
     calc_vm_trans prot PROT_READ 0x10 OR calc_vm_trans prot PROT_WRITE 0x20 OR
     calc_vm_trans prot PROT_EXEC 0x40"

record vm_area =
  vm_flags :: u32
  vm_file :: "nat option"
  vm_shmem_ops :: bool

text \<open>
  \<open>setup name size flags\<close> is \<^verbatim>\<open>shmem_file_setup\<close>: a negative error or the new file.
  References to files taken and dropped are not modelled.
\<close>

definition ashmem_mmap ::
    "(string \<Rightarrow> u32 \<Rightarrow> u32 \<Rightarrow> int + nat) \<Rightarrow> nat \<Rightarrow> vm_area \<Rightarrow> ashmem_state \<Rightarrow>
       ashmem_state \<times> vm_area \<times> int" where
  "ashmem_mmap setup a vma s =
     (let A = area s a in
      if asize A = 0 then (s, vma, - EINVAL)
      else if (vm_flags vma AND NOT (calc_vm_prot_bits (prot_mask A))) AND calc_vm_prot_bits PROT_MASK \<noteq> 0
      then (s, vma, - EPERM)
      else
        (let vma = vma\<lparr>vm_flags := vm_flags vma AND NOT (calc_vm_may_flags (NOT (prot_mask A)))\<rparr>;
             name = (if aname A ! ASHMEM_NAME_PREFIX_LEN \<noteq> NUL then aname A else ASHMEM_NAME_DEF);
             file = (case afile A of Some f \<Rightarrow> Inr f | None \<Rightarrow> setup name (asize A) (vm_flags vma))
         in case file of
              Inl e \<Rightarrow> (s, vma, e)
            | Inr f \<Rightarrow>
                let s = set_area a (A\<lparr>afile := Some f\<rparr>) s;
                    vma = (if vm_flags vma AND VM_SHARED \<noteq> 0
                           then vma\<lparr>vm_file := Some f, vm_shmem_ops := True\<rparr>
                           else vma\<lparr>vm_file := Some f\<rparr>)
                in (s, vma\<lparr>vm_flags := vm_flags vma OR VM_CAN_NONLINEAR\<rparr>, 0)))"

section \<open>The shrinker\<close>

text \<open>
  The loop over the LRU list. \<^term>\<open>None\<close> is the null dereference of \<open>range->asma->file\<close>.
  \<open>nr_to_scan\<close> is an \<open>int\<close> from which a \<open>size_t\<close> is subtracted.
\<close>

fun shrink_loop :: "nat list \<Rightarrow> int \<Rightarrow> ashmem_state \<Rightarrow> ashmem_state option" where
  "shrink_loop [] nr s = Some s"
| "shrink_loop (r # rest) nr s =
     (let R = rng s r in
      if afile (area s (asma R)) = None then None
      else
        (let start = pgstart R * 4096;
             fin = (pgend R + 1) * 4096 - 1;
             s = s\<lparr>truncated := truncated s @ [(asma R, start, fin)]\<rparr>;
             s = set_rng r (R\<lparr>purged := True\<rparr>) s;
             s = lru_del r s;
             nr = to_int32 (nr - uint (range_size R))
         in if nr \<le> 0 then Some s else shrink_loop rest nr s))"

definition ashmem_shrink :: "int \<Rightarrow> bool \<Rightarrow> ashmem_state \<Rightarrow> (ashmem_state \<times> int) option" where
  "ashmem_shrink nr_to_scan gfp_fs s =
     (if nr_to_scan \<noteq> 0 \<and> \<not> gfp_fs then Some (s, - 1)
      else if nr_to_scan = 0 then Some (s, sint (lru_count s))
      else map_option (\<lambda>s. (s, sint (lru_count s))) (shrink_loop (ashmem_lru_list s) nr_to_scan s))"

section \<open>Protection mask and name\<close>

definition set_prot_mask :: "bool \<Rightarrow> nat \<Rightarrow> u32 \<Rightarrow> ashmem_state \<Rightarrow> ashmem_state \<times> int" where
  "set_prot_mask read_implies_exec a prot s =
     (let A = area s a in
      if prot_mask A AND prot \<noteq> prot then (s, - EINVAL)
      else
        (let prot = (if prot AND PROT_READ \<noteq> 0 \<and> read_implies_exec then prot OR PROT_EXEC else prot)
         in (set_area a (A\<lparr>prot_mask := prot\<rparr>) s, 0)))"

text \<open>
  A copy of \<open>n\<close> bytes from user space: the bytes read before a fault (if any); the rest of
  the kernel buffer is cleared.
\<close>

type_synonym user_bytes = "string \<times> bool"  \<comment> \<open>bytes, fault\<close>

definition copied :: "user_bytes \<Rightarrow> nat \<Rightarrow> string" where
  "copied u n = take n (fst u @ replicate n NUL)"

definition set_name :: "user_bytes \<Rightarrow> nat \<Rightarrow> ashmem_state \<Rightarrow> ashmem_state \<times> int" where
  "set_name u a s =
     (let A = area s a in
      if afile A \<noteq> None then (s, - EINVAL)
      else
        (let ret = (if snd u then - EFAULT else 0);
             name = take ASHMEM_NAME_PREFIX_LEN (aname A) @ copied u ASHMEM_NAME_LEN;
             name = name[ASHMEM_FULL_NAME_LEN - 1 := NUL]
         in (set_area a (A\<lparr>aname := name\<rparr>) s, ret)))"

text \<open>The bytes \<open>get_name\<close> copies out, and its result.\<close>

definition get_name :: "bool \<Rightarrow> nat \<Rightarrow> ashmem_state \<Rightarrow> string \<times> int" where
  "get_name writable a s =
     (let A = area s a in
      if aname A ! ASHMEM_NAME_PREFIX_LEN \<noteq> NUL
      then (let str = takeWhile (\<lambda>c. c \<noteq> NUL) (drop ASHMEM_NAME_PREFIX_LEN (aname A))
            in (str @ [NUL], if \<not> writable then - EFAULT else 0))
      else (ASHMEM_NAME_DEF @ [NUL], if \<not> writable then - EFAULT else 0))"

section \<open>Pinning\<close>

text \<open>
  The loop of \<open>ashmem_pin\<close> over the ranges still to visit. It stops at the first range that
  lies wholly below the request. \<open>ret\<close> accumulates \<open>ASHMEM_WAS_PURGED\<close>. The result of
  \<open>range_alloc\<close> in the last case is ignored, as in the source.
\<close>

fun pin_loop ::
    "nat option \<Rightarrow> nat \<Rightarrow> u32 \<Rightarrow> u32 \<Rightarrow> nat list \<Rightarrow> bool \<Rightarrow> ashmem_state \<Rightarrow> ashmem_state \<times> bool" where
  "pin_loop mem a ps pe [] ret s = (s, ret)"
| "pin_loop mem a ps pe (r # rest) ret s =
     (let R = rng s r in
      if range_before_page R ps then (s, ret)
      else if page_range_in_range R ps pe
      then (let ret = (ret \<or> purged R) in
            if page_range_subsumes_range R ps pe then pin_loop mem a ps pe rest ret (range_del r s)
            else if pgstart R \<ge> ps
            then pin_loop mem a ps pe rest ret (range_shrink r (pe + 1) (pgend R) s)
            else if pgend R \<le> pe
            then pin_loop mem a ps pe rest ret (range_shrink r (pgstart R) (ps - 1) s)
            else
              (let s = fst (range_alloc mem a (Some r) (purged R) (pe + 1) (pgend R) s)
               in (range_shrink r (pgstart R) (ps - 1) s, ret)))
      else pin_loop mem a ps pe rest ret s)"

definition ashmem_pin :: "nat option \<Rightarrow> nat \<Rightarrow> u32 \<Rightarrow> u32 \<Rightarrow> ashmem_state \<Rightarrow> ashmem_state \<times> int" where
  "ashmem_pin mem a ps pe s =
     (case pin_loop mem a ps pe (unpinned_list (area s a)) False s of
        (s', ret) \<Rightarrow> (s', if ret then 1 else 0))"

text \<open>
  One scan of \<open>ashmem_unpin\<close>: where it stops. \<open>Insert p\<close>: the new range goes before \<open>p\<close>;
  \<open>Covered\<close>: the pages are already unpinned; \<open>Merge r\<close>: range \<open>r\<close> overlaps.
\<close>

datatype unpin_stop = Insert "nat option" | Covered | Merge nat

fun unpin_scan :: "ashmem_state \<Rightarrow> u32 \<Rightarrow> u32 \<Rightarrow> nat list \<Rightarrow> unpin_stop" where
  "unpin_scan s ps pe [] = Insert None"
| "unpin_scan s ps pe (r # rest) =
     (let R = rng s r in
      if range_before_page R ps then Insert (Some r)
      else if page_range_subsumed_by_range R ps pe then Covered
      else if page_range_in_range R ps pe then Merge r
      else unpin_scan s ps pe rest)"

lemma unpin_scan_Merge: "unpin_scan s ps pe rs = Merge r \<Longrightarrow> r \<in> set rs"
  by (induction rs) (auto simp: Let_def split: if_splits)

lemma areas_range_del:
  "areas (range_del r s) =
     (\<lambda>a. map_option (\<lambda>A. A\<lparr>unpinned_list := removeAll r (unpinned_list A)\<rparr>) (areas s a))"
  by (simp add: range_del_def unlink_def lru_del_def Let_def)

text \<open>The \<open>goto restart\<close> loop; every round removes a range from the list.\<close>

function unpin_loop ::
    "nat option \<Rightarrow> nat \<Rightarrow> u32 \<Rightarrow> u32 \<Rightarrow> bool \<Rightarrow> ashmem_state \<Rightarrow> ashmem_state \<times> int" where
  "unpin_loop mem a ps pe purge s =
     (if areas s a = None then (s, 0)
      else case unpin_scan s ps pe (unpinned_list (area s a)) of
        Insert p \<Rightarrow> range_alloc mem a p purge ps pe s
      | Covered \<Rightarrow> (s, 0)
      | Merge r \<Rightarrow>
          (let R = rng s r in
           unpin_loop mem a (min (pgstart R) ps) (max (pgend R) pe) (purge \<or> purged R) (range_del r s)))"
  by pat_completeness auto
termination
proof (relation "measure (\<lambda>(mem, a, ps, pe, purge, s). length (unpinned_list (area s a)))", goal_cases)
  case (2 mem a ps pe purge s r R)
  then obtain A where A: "areas s a = Some A" by blast
  from 2 A have "r \<in> set (unpinned_list A)" by (auto simp: area_def dest: unpin_scan_Merge)
  with A show ?case by (simp add: area_def areas_range_del length_removeAll_less)
qed simp

definition ashmem_unpin :: "nat option \<Rightarrow> nat \<Rightarrow> u32 \<Rightarrow> u32 \<Rightarrow> ashmem_state \<Rightarrow> ashmem_state \<times> int" where
  "ashmem_unpin mem a ps pe s = unpin_loop mem a ps pe False s"

fun pin_status_loop :: "ashmem_state \<Rightarrow> u32 \<Rightarrow> u32 \<Rightarrow> nat list \<Rightarrow> int" where
  "pin_status_loop s ps pe [] = 1"
| "pin_status_loop s ps pe (r # rest) =
     (let R = rng s r in
      if range_before_page R ps then 1
      else if page_range_in_range R ps pe then 0
      else pin_status_loop s ps pe rest)"

definition ashmem_get_pin_status :: "nat \<Rightarrow> u32 \<Rightarrow> u32 \<Rightarrow> ashmem_state \<Rightarrow> int" where
  "ashmem_get_pin_status a ps pe s = pin_status_loop s ps pe (unpinned_list (area s a))"

section \<open>The ioctl\<close>

datatype pin_cmd = ASHMEM_PIN | ASHMEM_UNPIN | ASHMEM_GET_PIN_STATUS

definition PAGE_ALIGN :: "u32 \<Rightarrow> u32" where
  "PAGE_ALIGN x = (x + 4095) AND NOT 4095"

text \<open>
  The page range of a request, after the checks; \<open>pin\<close> is what \<open>copy_from_user\<close> read.
\<close>

definition pin_request :: "u32 \<Rightarrow> u32 \<times> u32 \<Rightarrow> (u32 \<times> u32) option" where
  "pin_request sz pin =
     (let (offset, len) = pin;
          len = (if len = 0 then PAGE_ALIGN sz - offset else len) in
      if (offset OR len) AND 4095 \<noteq> 0 then None
      else if - 1 - offset < len then None
      else if PAGE_ALIGN sz < offset + len then None
      else
        (let ps = offset div 4096 in Some (ps, ps + len div 4096 - 1)))"

definition ashmem_pin_unpin ::
    "nat option \<Rightarrow> nat \<Rightarrow> pin_cmd \<Rightarrow> (u32 \<times> u32) option \<Rightarrow> ashmem_state \<Rightarrow> ashmem_state \<times> int" where
  "ashmem_pin_unpin mem a cmd p s =
     (if afile (area s a) = None then (s, - EINVAL)
      else (case p of
              None \<Rightarrow> (s, - EFAULT)
            | Some pin \<Rightarrow>
                (case pin_request (asize (area s a)) pin of
                   None \<Rightarrow> (s, - EINVAL)
                 | Some (ps, pe) \<Rightarrow>
                     (case cmd of
                        ASHMEM_PIN \<Rightarrow> ashmem_pin mem a ps pe s
                      | ASHMEM_UNPIN \<Rightarrow> ashmem_unpin mem a ps pe s
                      | ASHMEM_GET_PIN_STATUS \<Rightarrow> (s, ashmem_get_pin_status a ps pe s)))))"

datatype ashmem_cmd =
    ASHMEM_SET_NAME user_bytes
  | ASHMEM_GET_NAME bool
  | ASHMEM_SET_SIZE u32
  | ASHMEM_GET_SIZE
  | ASHMEM_SET_PROT_MASK u32
  | ASHMEM_GET_PROT_MASK
  | ASHMEM_PIN_OP pin_cmd "(u32 \<times> u32) option"
  | ASHMEM_PURGE_ALL_CACHES
  | ASHMEM_OTHER

text \<open>
  The calling task enters through \<open>capable\<close> and its \<open>READ_IMPLIES_EXEC\<close> personality.
  \<^term>\<open>None\<close> is a panic.
\<close>

fun ashmem_ioctl ::
    "task_struct \<Rightarrow> bool \<Rightarrow> nat option \<Rightarrow> nat \<Rightarrow> ashmem_cmd \<Rightarrow> ashmem_state \<Rightarrow>
       (ashmem_state \<times> task_struct \<times> int) option" where
  "ashmem_ioctl t rie mem a (ASHMEM_SET_NAME u) s =
     (case set_name u a s of (s', ret) \<Rightarrow> Some (s', t, ret))"
| "ashmem_ioctl t rie mem a (ASHMEM_GET_NAME w) s = Some (s, t, snd (get_name w a s))"
| "ashmem_ioctl t rie mem a (ASHMEM_SET_SIZE arg) s =
     (if afile (area s a) = None then Some (set_area a ((area s a)\<lparr>asize := arg\<rparr>) s, t, 0)
      else Some (s, t, - EINVAL))"
| "ashmem_ioctl t rie mem a ASHMEM_GET_SIZE s = Some (s, t, sint (asize (area s a)))"
| "ashmem_ioctl t rie mem a (ASHMEM_SET_PROT_MASK arg) s =
     (case set_prot_mask rie a arg s of (s', ret) \<Rightarrow> Some (s', t, ret))"
| "ashmem_ioctl t rie mem a ASHMEM_GET_PROT_MASK s = Some (s, t, sint (prot_mask (area s a)))"
| "ashmem_ioctl t rie mem a (ASHMEM_PIN_OP cmd p) s =
     (case ashmem_pin_unpin mem a cmd p s of (s', ret) \<Rightarrow> Some (s', t, ret))"
| "ashmem_ioctl t rie mem a ASHMEM_PURGE_ALL_CACHES s = do {
     (ok, t) \<leftarrow> capable t CAP_SYS_ADMIN;
     if ok
     then do {
       (s, ret) \<leftarrow> ashmem_shrink 0 True s;
       (s, _) \<leftarrow> ashmem_shrink ret True s;
       Some (s, t, ret) }
     else Some (s, t, - EPERM) }"
| "ashmem_ioctl t rie mem a ASHMEM_OTHER s = Some (s, t, - ENOTTY)"

declare unpin_loop.simps [simp del]

section \<open>Well-formed states\<close>

definition area_inv :: "ashmem_state \<Rightarrow> nat \<Rightarrow> ashmem_area \<Rightarrow> bool" where
  "area_inv s a A \<longleftrightarrow>
     (\<forall>r \<in> set (unpinned_list A). \<exists>R. ranges s r = Some R \<and> asma R = a \<and> pgstart R \<le> pgend R) \<and>
     sorted_wrt (\<lambda>x y. pgend (rng s y) < pgstart (rng s x)) (unpinned_list A) \<and>
     (unpinned_list A \<noteq> [] \<longrightarrow> afile A \<noteq> None)"

text \<open>
  Every area's list holds disjoint ranges of that area, highest first; every range is on its
  area's list; the LRU list holds exactly the ranges that were not purged, once each, and
  \<open>lru_count\<close> is the number of their pages.
\<close>

definition ashmem_inv :: "ashmem_state \<Rightarrow> bool" where
  "ashmem_inv s \<longleftrightarrow>
     (\<forall>a A. areas s a = Some A \<longrightarrow> area_inv s a A) \<and>
     (\<forall>r R. ranges s r = Some R \<longrightarrow> (\<exists>A. areas s (asma R) = Some A \<and> r \<in> set (unpinned_list A))) \<and>
     distinct (ashmem_lru_list s) \<and>
     set (ashmem_lru_list s) = {r. \<exists>R. ranges s r = Some R \<and> \<not> purged R} \<and>
     lru_count s = (\<Sum>r \<leftarrow> ashmem_lru_list s. range_size (rng s r))"

definition range_pages :: "ashmem_range \<Rightarrow> u32 set" where
  "range_pages R = {pgstart R..pgend R}"

definition ulist :: "nat \<Rightarrow> ashmem_state \<Rightarrow> nat list" where
  "ulist a s = (case areas s a of None \<Rightarrow> [] | Some A \<Rightarrow> unpinned_list A)"

text \<open>The unpinned pages of an area, and those among them that belong to a purged range.\<close>

definition upages :: "nat \<Rightarrow> ashmem_state \<Rightarrow> u32 set" where
  "upages a s = (\<Union>r \<in> set (ulist a s). range_pages (rng s r))"

definition ppages :: "nat \<Rightarrow> ashmem_state \<Rightarrow> u32 set" where
  "ppages a s = (\<Union>r \<in> {r \<in> set (ulist a s). purged (rng s r)}. range_pages (rng s r))"

lemma sum_list_removeAll:
  fixes f :: "'a \<Rightarrow> 'b::ab_group_add"
  assumes "distinct xs" and "x \<in> set xs"
  shows "(\<Sum>y \<leftarrow> removeAll x xs. f y) = (\<Sum>y \<leftarrow> xs. f y) - f x"
  using assms by (induction xs) (auto simp: algebra_simps)

lemma sum_list_update:
  fixes f g :: "'a \<Rightarrow> 'b::ab_group_add"
  assumes "distinct xs" and "x \<in> set xs" and "\<And>y. y \<in> set xs \<Longrightarrow> y \<noteq> x \<Longrightarrow> g y = f y"
  shows "(\<Sum>y \<leftarrow> xs. g y) = (\<Sum>y \<leftarrow> xs. f y) - (f x - g x)"
proof -
  have "(\<Sum>y \<leftarrow> removeAll x xs. g y) = (\<Sum>y \<leftarrow> removeAll x xs. f y)"
    using assms(3) by (intro arg_cong [where f = sum_list] map_cong) auto
  then show ?thesis
    using assms(1,2) by (simp add: sum_list_removeAll algebra_simps)
qed

lemma rng_simps [simp]:
  "ranges s r = Some R \<Longrightarrow> rng s r = R"
  by (simp add: rng_def)

lemma area_simps [simp]:
  "areas s a = Some A \<Longrightarrow> area s a = A"
  by (simp add: area_def)

lemma inv_rangeE:
  assumes "ashmem_inv s" and "ranges s r = Some R"
  obtains A where "areas s (asma R) = Some A" "r \<in> set (unpinned_list A)"
  using assms unfolding ashmem_inv_def by blast

lemma inv_area: "ashmem_inv s \<Longrightarrow> areas s a = Some A \<Longrightarrow> area_inv s a A"
  by (simp add: ashmem_inv_def)

lemma inv_lru:
  assumes "ashmem_inv s"
  shows "distinct (ashmem_lru_list s)"
    and "set (ashmem_lru_list s) = {r. \<exists>R. ranges s r = Some R \<and> \<not> purged R}"
    and "lru_count s = (\<Sum>r \<leftarrow> ashmem_lru_list s. range_size (rng s r))"
  using assms by (simp_all add: ashmem_inv_def)

subsection \<open>Deleting a range\<close>

lemma range_del_fields [simp]:
  "ranges (range_del r s) = (ranges s)(r := None)"
  "truncated (range_del r s) = truncated s" "f_pos (range_del r s) = f_pos s"
  "ashmem_area_list (range_del r s) = ashmem_area_list s"
  by (simp_all add: range_del_def unlink_def lru_del_def Let_def)

lemma rng_range_del: "x \<noteq> r \<Longrightarrow> rng (range_del r s) x = rng s x"
  by (simp add: rng_def)

lemma lru_range_del:
  assumes "ranges s r = Some R"
  shows "ashmem_lru_list (range_del r s) = (if purged R then ashmem_lru_list s else removeAll r (ashmem_lru_list s))"
    and "lru_count (range_del r s) = (if purged R then lru_count s else lru_count s - range_size R)"
  using assms by (simp_all add: range_del_def unlink_def lru_del_def range_on_lru_def rng_def Let_def)

lemma area_inv_range_del:
  assumes "area_inv s a A"
  shows "area_inv (range_del r s) a (A\<lparr>unpinned_list := removeAll r (unpinned_list A)\<rparr>)"
proof -
  have "sorted_wrt (\<lambda>x y. pgend (rng s y) < pgstart (rng s x)) (removeAll r (unpinned_list A))"
    using assms by (simp add: area_inv_def removeAll_filter_not_eq sorted_wrt_filter)
  then have "sorted_wrt (\<lambda>x y. pgend (rng (range_del r s) y) < pgstart (rng (range_del r s) x))
      (removeAll r (unpinned_list A))"
    by (rule sorted_wrt_mono_rel [rotated]) (auto simp: rng_range_del)
  with assms show ?thesis by (fastforce simp: area_inv_def)
qed

lemma ashmem_inv_range_del:
  assumes inv: "ashmem_inv s" and R: "ranges s r = Some R"
  shows "ashmem_inv (range_del r s)"
proof -
  let ?s = "range_del r s"
  have a: "\<forall>a A. areas ?s a = Some A \<longrightarrow> area_inv ?s a A"
    using inv area_inv_range_del [of s _ _ r] by (auto simp: ashmem_inv_def areas_range_del)
  have b: "\<forall>x X. ranges ?s x = Some X \<longrightarrow> (\<exists>A. areas ?s (asma X) = Some A \<and> x \<in> set (unpinned_list A))"
  proof (intro allI impI)
    fix x X assume "ranges ?s x = Some X"
    then have x: "x \<noteq> r" "ranges s x = Some X" by (auto split: if_splits)
    then obtain A where "areas s (asma X) = Some A" "x \<in> set (unpinned_list A)"
      by (elim inv_rangeE [OF inv])
    with x(1) show "\<exists>A. areas ?s (asma X) = Some A \<and> x \<in> set (unpinned_list A)"
      by (simp add: areas_range_del)
  qed
  have d: "distinct (ashmem_lru_list s)"
    and l: "set (ashmem_lru_list s) = {r. \<exists>R. ranges s r = Some R \<and> \<not> purged R}"
    and c: "lru_count s = (\<Sum>r \<leftarrow> ashmem_lru_list s. range_size (rng s r))"
    using inv by (simp_all add: ashmem_inv_def)
  have e: "set (ashmem_lru_list ?s) = {x. \<exists>X. ranges ?s x = Some X \<and> \<not> purged X}"
    using l R by (auto simp: lru_range_del [OF R])
  have "(\<Sum>x \<leftarrow> ashmem_lru_list ?s. range_size (rng ?s x)) = (\<Sum>x \<leftarrow> ashmem_lru_list ?s. range_size (rng s x))"
    using e by (intro arg_cong [where f = sum_list] map_cong) (auto simp: rng_def split: if_splits)
  also have "\<dots> = lru_count ?s"
    using l d R c by (auto simp: lru_range_del [OF R] sum_list_removeAll)
  finally show ?thesis using a b d e by (simp add: ashmem_inv_def lru_range_del [OF R] distinct_removeAll)
qed


subsection \<open>Shrinking a range\<close>

lemma range_shrink_fields [simp]:
  "areas (range_shrink r st fn s) = areas s"
  "ranges (range_shrink r st fn s) = (ranges s)(r \<mapsto> (rng s r)\<lparr>pgstart := st, pgend := fn\<rparr>)"
  "ashmem_lru_list (range_shrink r st fn s) = ashmem_lru_list s"
  "truncated (range_shrink r st fn s) = truncated s" "f_pos (range_shrink r st fn s) = f_pos s"
  "ashmem_area_list (range_shrink r st fn s) = ashmem_area_list s"
  by (simp_all add: range_shrink_def set_rng_def Let_def)

lemma rng_range_shrink:
  "rng (range_shrink r st fn s) x = (if x = r then (rng s r)\<lparr>pgstart := st, pgend := fn\<rparr> else rng s x)"
  by (simp add: rng_def)

lemma lru_count_range_shrink:
  "lru_count (range_shrink r st fn s) =
     (if purged (rng s r) then lru_count s
      else lru_count s - (range_size (rng s r) - range_size ((rng s r)\<lparr>pgstart := st, pgend := fn\<rparr>)))"
  by (simp add: range_shrink_def set_rng_def Let_def range_on_lru_def)

lemma area_inv_range_shrink:
  assumes inv: "area_inv s a A" and R: "ranges s r = Some R"
    and bounds: "pgstart R \<le> st" "st \<le> fn" "fn \<le> pgend R"
  shows "area_inv (range_shrink r st fn s) a A"
proof -
  let ?s = "range_shrink r st fn s"
  have within: "pgend (rng ?s x) \<le> pgend (rng s x)" "pgstart (rng s x) \<le> pgstart (rng ?s x)" for x
    using bounds by (simp_all add: rng_range_shrink rng_simps [OF R])
  have "sorted_wrt (\<lambda>x y. pgend (rng s y) < pgstart (rng s x)) (unpinned_list A)"
    using inv by (simp add: area_inv_def)
  then have "sorted_wrt (\<lambda>x y. pgend (rng ?s y) < pgstart (rng ?s x)) (unpinned_list A)"
    by (rule sorted_wrt_mono_rel [rotated]) (meson within le_less_trans less_le_trans)
  moreover have "\<forall>x \<in> set (unpinned_list A). \<exists>X. ranges ?s x = Some X \<and> asma X = a \<and> pgstart X \<le> pgend X"
  proof
    fix x assume "x \<in> set (unpinned_list A)"
    with inv obtain X where "ranges s x = Some X" "asma X = a" "pgstart X \<le> pgend X"
      unfolding area_inv_def by blast
    with R bounds show "\<exists>X. ranges ?s x = Some X \<and> asma X = a \<and> pgstart X \<le> pgend X"
      by (cases "x = r") auto
  qed
  ultimately show ?thesis using inv by (simp add: area_inv_def)
qed

lemma ashmem_inv_range_shrink:
  assumes inv: "ashmem_inv s" and R: "ranges s r = Some R"
    and bounds: "pgstart R \<le> st" "st \<le> fn" "fn \<le> pgend R"
  shows "ashmem_inv (range_shrink r st fn s)"
proof -
  let ?s = "range_shrink r st fn s"
  have a: "\<forall>a A. areas ?s a = Some A \<longrightarrow> area_inv ?s a A"
    using inv area_inv_range_shrink [OF _ R bounds] by (simp add: ashmem_inv_def)
  have b: "\<forall>x X. ranges ?s x = Some X \<longrightarrow> (\<exists>A. areas ?s (asma X) = Some A \<and> x \<in> set (unpinned_list A))"
    using R by (auto elim: inv_rangeE [OF inv])
  have d: "distinct (ashmem_lru_list s)"
    and l: "set (ashmem_lru_list s) = {r. \<exists>R. ranges s r = Some R \<and> \<not> purged R}"
    and c: "lru_count s = (\<Sum>r \<leftarrow> ashmem_lru_list s. range_size (rng s r))"
    using inv by (simp_all add: ashmem_inv_def)
  have e: "set (ashmem_lru_list ?s) = {x. \<exists>X. ranges ?s x = Some X \<and> \<not> purged X}"
    using l R by auto
  have "lru_count ?s = (\<Sum>x \<leftarrow> ashmem_lru_list s. range_size (rng ?s x))"
  proof (cases "purged R")
    case True
    then have "r \<notin> set (ashmem_lru_list s)" using l R by simp
    then have "(\<Sum>x \<leftarrow> ashmem_lru_list s. range_size (rng ?s x)) = (\<Sum>x \<leftarrow> ashmem_lru_list s. range_size (rng s x))"
      by (intro arg_cong [where f = sum_list] map_cong) (auto simp: rng_range_shrink)
    with True R c show ?thesis by (simp add: lru_count_range_shrink)
  next
    case False
    then have "r \<in> set (ashmem_lru_list s)" using l R by simp
    from sum_list_update [OF d this, of "\<lambda>x. range_size (rng ?s x)" "\<lambda>x. range_size (rng s x)"] False R c
    show ?thesis by (simp add: lru_count_range_shrink rng_range_shrink)
  qed
  then show ?thesis using a b d e by (simp add: ashmem_inv_def)
qed

subsection \<open>Adding a range\<close>

lemma range_alloc_None [simp]: "range_alloc None a p pu st fn s = (s, - ENOMEM)"
  by (simp add: range_alloc_def)

lemma range_alloc_fields:
  "areas (fst (range_alloc (Some n) a p pu st fn s)) =
     (areas s)(a \<mapsto> (area s a)\<lparr>unpinned_list := insert_before p n (unpinned_list (area s a))\<rparr>)"
  "ranges (fst (range_alloc (Some n) a p pu st fn s)) =
     (ranges s)(n \<mapsto> \<lparr>asma = a, pgstart = st, pgend = fn, purged = pu\<rparr>)"
  "ashmem_lru_list (fst (range_alloc (Some n) a p pu st fn s)) =
     (if pu then ashmem_lru_list s else ashmem_lru_list s @ [n])"
  "lru_count (fst (range_alloc (Some n) a p pu st fn s)) =
     (if pu then lru_count s else lru_count s + (fn - st + 1))"
  "truncated (fst (range_alloc (Some n) a p pu st fn s)) = truncated s"
  "snd (range_alloc (Some n) a p pu st fn s) = 0"
  by (simp_all add: range_alloc_def set_rng_def set_area_def lru_add_def range_on_lru_def area_def
      rng_def range_size_def Let_def)

lemma set_insert_before [simp]: "set (insert_before p n xs) = insert n (set xs)"
  by (induction xs) auto

lemma insert_before_split:
  "(case p of None \<Rightarrow> ys = [] | Some q \<Rightarrow> q \<notin> set xs \<and> (\<exists>zs. ys = q # zs)) \<Longrightarrow>
   insert_before p n (xs @ ys) = xs @ n # ys"
  by (induction xs) (auto split: option.splits)

lemma ashmem_inv_range_alloc:
  assumes inv: "ashmem_inv s" and A: "areas s a = Some A" and fresh: "ranges s n = None"
    and backed: "afile A \<noteq> None" and le: "st \<le> fn"
    and list: "insert_before p n (unpinned_list A) = xs @ n # ys" "unpinned_list A = xs @ ys"
    and above: "\<And>x. x \<in> set xs \<Longrightarrow> fn < pgstart (rng s x)"
    and below: "\<And>y. y \<in> set ys \<Longrightarrow> pgend (rng s y) < st"
  shows "ashmem_inv (fst (range_alloc (Some n) a p pu st fn s))"
proof -
  let ?s = "fst (range_alloc (Some n) a p pu st fn s)"
  let ?N = "\<lparr>asma = a, pgstart = st, pgend = fn, purged = pu\<rparr>"
  note f = range_alloc_fields [of n a p pu st fn s] area_simps [OF A]
  have rng: "rng ?s x = (if x = n then ?N else rng s x)" for x by (simp add: rng_def f)
  have dom: "x \<noteq> n" if "x \<in> set (unpinned_list B)" "areas s b = Some B" for x b B
    using inv fresh that by (fastforce simp: ashmem_inv_def area_inv_def)
  have others: "area_inv ?s b B" if "areas s b = Some B" for b B
  proof -
    have old: "area_inv s b B" using inv that by (rule inv_area)
    then have "sorted_wrt (\<lambda>x y. pgend (rng s y) < pgstart (rng s x)) (unpinned_list B)"
      by (simp add: area_inv_def)
    then have "sorted_wrt (\<lambda>x y. pgend (rng ?s y) < pgstart (rng ?s x)) (unpinned_list B)"
      by (rule sorted_wrt_mono_rel [rotated]) (use dom that in \<open>auto simp: rng\<close>)
    with old dom that show ?thesis by (auto simp: area_inv_def f)
  qed
  have n: "n \<notin> set xs" "n \<notin> set ys" using dom [OF _ A] list(2) by auto
  have "area_inv ?s a A" using others A by simp
  then have sorted: "sorted_wrt (\<lambda>x y. pgend (rng ?s y) < pgstart (rng ?s x)) (xs @ ys)"
    and mem: "\<forall>r \<in> set (xs @ ys). \<exists>R. ranges ?s r = Some R \<and> asma R = a \<and> pgstart R \<le> pgend R"
    by (simp_all add: area_inv_def list(2))
  have "sorted_wrt (\<lambda>x y. pgend (rng ?s y) < pgstart (rng ?s x)) (xs @ n # ys)"
    using sorted above below n by (fastforce simp: sorted_wrt_append rng)
  then have this_area: "area_inv ?s a (A\<lparr>unpinned_list := xs @ n # ys\<rparr>)"
    using mem backed le by (auto simp: area_inv_def f)
  have a: "\<forall>b B. areas ?s b = Some B \<longrightarrow> area_inv ?s b B"
    using others this_area list(1) by (simp add: f)
  have b: "\<forall>x X. ranges ?s x = Some X \<longrightarrow> (\<exists>A. areas ?s (asma X) = Some A \<and> x \<in> set (unpinned_list A))"
    using A by (auto simp: f elim: inv_rangeE [OF inv])
  have d: "distinct (ashmem_lru_list s)" "n \<notin> set (ashmem_lru_list s)"
    and l: "set (ashmem_lru_list s) = {r. \<exists>R. ranges s r = Some R \<and> \<not> purged R}"
    and c: "lru_count s = (\<Sum>r \<leftarrow> ashmem_lru_list s. range_size (rng s r))"
    using inv fresh by (auto simp: ashmem_inv_def)
  have e: "set (ashmem_lru_list ?s) = {x. \<exists>X. ranges ?s x = Some X \<and> \<not> purged X}"
    using l fresh by (auto simp: f)
  have "(\<Sum>r \<leftarrow> ashmem_lru_list s. range_size (rng ?s r)) = lru_count s"
    unfolding c using d(2) by (intro arg_cong [where f = sum_list] map_cong) (auto simp: rng)
  then show ?thesis using a b d e by (simp add: ashmem_inv_def f rng range_size_def)
qed

section \<open>Pinned and unpinned pages\<close>

lemma word_Suc_le: "a < b \<Longrightarrow> a + 1 \<le> x \<longleftrightarrow> a < (x :: u32)"
  by uint_arith

lemma word_le_pred: "a < b \<Longrightarrow> x \<le> b - 1 \<longleftrightarrow> x < (b :: u32)"
  by uint_arith

lemma area_inv_disjoint:
  assumes "area_inv s a A" and "x \<in> set (unpinned_list A)" and "y \<in> set (unpinned_list A)" and "x \<noteq> y"
  shows "range_pages (rng s x) \<inter> range_pages (rng s y) = {}"
proof -
  obtain i j where ij: "i < length (unpinned_list A)" "j < length (unpinned_list A)"
    "x = unpinned_list A ! i" "y = unpinned_list A ! j" "i \<noteq> j"
    using assms(2-4) by (metis in_set_conv_nth)
  then have "pgend (rng s y) < pgstart (rng s x) \<or> pgend (rng s x) < pgstart (rng s y)"
    using assms(1) by (metis area_inv_def nat_neq_iff sorted_wrt_iff_nth_less)
  then show ?thesis by (auto simp: range_pages_def)
qed

lemma area_inv_distinct:
  assumes "area_inv s a A"
  shows "distinct (unpinned_list A)"
proof -
  have "\<not> pgend (rng s x) < pgstart (rng s x)" if "x \<in> set (unpinned_list A)" for x
    using assms that by (auto simp: area_inv_def)
  then show ?thesis
    using assms by (metis area_inv_def distinct_conv_nth nat_neq_iff nth_mem sorted_wrt_iff_nth_less)
qed

text \<open>
  The effect of an operation on area \<open>a\<close> that takes the pages \<open>S\<close> out of its unpinned set.
  When \<open>full\<close> fails (an allocation failed on the way) more pages may be gone.
\<close>

definition takes_out :: "nat \<Rightarrow> u32 set \<Rightarrow> bool \<Rightarrow> ashmem_state \<Rightarrow> ashmem_state \<Rightarrow> bool" where
  "takes_out a S full s s' \<longleftrightarrow> ashmem_inv s' \<and>
     upages a s' \<subseteq> upages a s - S \<and> ppages a s' \<subseteq> ppages a s - S \<and>
     (full \<longrightarrow> upages a s' = upages a s - S \<and> ppages a s' = ppages a s - S) \<and>
     (\<forall>b. b \<noteq> a \<longrightarrow> areas s' b = areas s b \<and> upages b s' = upages b s \<and> ppages b s' = ppages b s) \<and>
     (\<exists>l. areas s' a = map_option (\<lambda>A. A\<lparr>unpinned_list := l\<rparr>) (areas s a))"

lemma takes_out_refl:
  assumes "ashmem_inv s" and "upages a s \<inter> S = {}"
  shows "takes_out a S full s s"
proof -
  have "ppages a s \<subseteq> upages a s" by (auto simp: ppages_def upages_def)
  with assms have "ppages a s - S = ppages a s" "upages a s - S = upages a s" by blast+
  moreover have "\<exists>l. areas s a = map_option (\<lambda>A. A\<lparr>unpinned_list := l\<rparr>) (areas s a)"
    by (intro exI [of _ "unpinned_list (area s a)"]) (cases "areas s a"; simp add: area_def)
  ultimately show ?thesis using assms(1) by (simp add: takes_out_def)
qed

lemma takes_out_trans:
  assumes "takes_out a S full s s'" and "takes_out a T full' s' s''"
    and "upages a s \<inter> U = upages a s \<inter> (S \<union> T)"
  shows "takes_out a U (full \<and> full') s s''"
proof -
  have p: "ppages a x \<subseteq> upages a x" for x by (auto simp: ppages_def upages_def)
  from assms(3) have "upages a s - U = upages a s - S - T" by blast
  moreover from assms(3) p [of s] have "ppages a s - U = ppages a s - S - T" by blast
  moreover obtain l where "areas s'' a = map_option (\<lambda>A. A\<lparr>unpinned_list := l\<rparr>) (areas s a)"
    using assms(1,2) by (auto simp: takes_out_def option.map_comp o_def)
  ultimately show ?thesis using assms(1,2) by (auto simp: takes_out_def)
qed

lemma takes_out_less: "takes_out a S full s s' \<Longrightarrow> T \<subseteq> S \<Longrightarrow> takes_out a T False s s'"
  by (auto simp: takes_out_def)

lemma other_area_disjoint:
  assumes "ashmem_inv s" and "areas s b = Some B" and "ranges s r = Some R" and "asma R \<noteq> b"
  shows "r \<notin> set (unpinned_list B)"
  using inv_area [OF assms(1,2)] assms(3,4) by (auto simp: area_inv_def)

lemma pages_frame:
  assumes "areas s' b = areas s b" and "\<And>x. x \<in> set (ulist b s) \<Longrightarrow> rng s' x = rng s x"
  shows "upages b s' = upages b s \<and> ppages b s' = ppages b s"
proof -
  have "ulist b s' = ulist b s" using assms(1) by (simp add: ulist_def)
  then show ?thesis using assms(2) by (fastforce simp: upages_def ppages_def)
qed

lemma ulist_Some: "areas s a = Some A \<Longrightarrow> ulist a s = unpinned_list A"
  by (simp add: ulist_def)

lemma other_area:
  assumes "ashmem_inv s" and "ranges s r = Some R" and "asma R \<noteq> b"
  shows "r \<notin> set (ulist b s)"
proof (cases "areas s b")
  case (Some B)
  with inv_area [OF assms(1) Some] assms(2,3) show ?thesis by (auto simp: ulist_def area_inv_def)
qed (simp add: ulist_def)

lemma takes_out_range_del:
  assumes inv: "ashmem_inv s" and A: "areas s a = Some A" and r: "r \<in> set (unpinned_list A)"
  shows "takes_out a (range_pages (rng s r)) True s (range_del r s)"
proof -
  obtain R where R: "ranges s r = Some R" "asma R = a"
    using inv_area [OF inv A] r by (auto simp: area_inv_def)
  let ?s = "range_del r s"
  have A': "areas ?s a = Some (A\<lparr>unpinned_list := removeAll r (unpinned_list A)\<rparr>)"
    by (simp add: areas_range_del A)
  have dis: "range_pages (rng s x) \<inter> range_pages (rng s r) = {}"
    if "x \<in> set (unpinned_list A)" "x \<noteq> r" for x
    using area_inv_disjoint [OF inv_area [OF inv A] that(1) r that(2)] .
  have "upages a ?s = upages a s - range_pages (rng s r)"
    using dis r by (auto simp: upages_def ulist_Some [OF A] ulist_Some [OF A'] rng_range_del)
  moreover have "ppages a ?s = ppages a s - range_pages (rng s r)"
  proof -
    have "ppages a ?s = (\<Union>x \<in> {x \<in> set (unpinned_list A). x \<noteq> r \<and> purged (rng s x)}. range_pages (rng s x))"
      by (auto simp: ppages_def ulist_Some [OF A'] rng_range_del cong: conj_cong)
    then show ?thesis using dis r by (auto simp: ppages_def ulist_Some [OF A])
  qed
  moreover have "areas ?s b = areas s b \<and> upages b ?s = upages b s \<and> ppages b ?s = ppages b s" if "b \<noteq> a" for b
  proof -
    have no: "r \<notin> set (ulist b s)" using other_area [OF inv R(1)] R(2) that by simp
    then have "areas ?s b = areas s b"
      by (cases "areas s b") (simp_all add: areas_range_del ulist_def removeAll_id)
    moreover have "rng ?s x = rng s x" if "x \<in> set (ulist b s)" for x
      using no that by (intro rng_range_del) auto
    ultimately show ?thesis using pages_frame by blast
  qed
  ultimately show ?thesis using ashmem_inv_range_del [OF inv R(1)] A A' by (auto simp: takes_out_def)
qed

lemma takes_out_range_shrink:
  assumes inv: "ashmem_inv s" and A: "areas s a = Some A" and r: "r \<in> set (unpinned_list A)"
    and bounds: "pgstart (rng s r) \<le> st" "st \<le> fn" "fn \<le> pgend (rng s r)"
  shows "takes_out a (range_pages (rng s r) - {st..fn}) True s (range_shrink r st fn s)"
proof -
  obtain R where R: "ranges s r = Some R" "asma R = a"
    using inv_area [OF inv A] r by (auto simp: area_inv_def)
  let ?s = "range_shrink r st fn s" and ?S = "range_pages (rng s r) - {st..fn}"
  have A': "areas ?s a = Some A" by (simp add: A)
  have dis: "range_pages (rng s x) \<inter> range_pages (rng s r) = {}"
    if "x \<in> set (unpinned_list A)" "x \<noteq> r" for x
    using area_inv_disjoint [OF inv_area [OF inv A] that(1) r that(2)] .
  have new: "range_pages (rng ?s x) = range_pages (rng s x) - ?S" if "x \<in> set (unpinned_list A)" for x
    using dis [OF that] bounds by (cases "x = r") (auto simp: rng_range_shrink range_pages_def)
  have pu: "purged (rng ?s x) = purged (rng s x)" for x by (simp add: rng_range_shrink)
  have "upages a ?s = upages a s - ?S" using new by (auto simp: upages_def ulist_Some [OF A] ulist_Some [OF A'])
  moreover have "ppages a ?s = ppages a s - ?S"
    using new by (auto simp: ppages_def ulist_Some [OF A] ulist_Some [OF A'] pu)
  moreover have "areas ?s b = areas s b \<and> upages b ?s = upages b s \<and> ppages b ?s = ppages b s" if "b \<noteq> a" for b
  proof -
    have no: "r \<notin> set (ulist b s)" using other_area [OF inv R(1)] R(2) that by simp
    then have "rng ?s x = rng s x" if "x \<in> set (ulist b s)" for x
      using that by (auto simp: rng_range_shrink)
    then show ?thesis using pages_frame [of ?s b s] by simp
  qed
  moreover have "ashmem_inv ?s" using bounds R by (intro ashmem_inv_range_shrink [OF inv R(1)]) simp_all
  ultimately show ?thesis using A by (auto simp: takes_out_def intro: exI [of _ "unpinned_list A"])
qed

text \<open>Adding a range in the gap where it belongs.\<close>

lemma range_alloc_pages:
  assumes inv: "ashmem_inv s" and A: "areas s a = Some A" and fresh: "ranges s n = None"
  shows "upages a (fst (range_alloc (Some n) a p pu st fn s)) = upages a s \<union> {st..fn}"
    and "ppages a (fst (range_alloc (Some n) a p pu st fn s)) = ppages a s \<union> (if pu then {st..fn} else {})"
    and "b \<noteq> a \<Longrightarrow> upages b (fst (range_alloc (Some n) a p pu st fn s)) = upages b s \<and>
                  ppages b (fst (range_alloc (Some n) a p pu st fn s)) = ppages b s"
proof -
  let ?s = "fst (range_alloc (Some n) a p pu st fn s)"
  let ?N = "\<lparr>asma = a, pgstart = st, pgend = fn, purged = pu\<rparr>"
  note f = range_alloc_fields [of n a p pu st fn s]
  have rng: "rng ?s x = (if x = n then ?N else rng s x)" for x by (simp add: rng_def f)
  have n: "n \<notin> set (ulist b s)" for b
  proof (cases "areas s b")
    case (Some B)
    with inv_area [OF inv Some] fresh show ?thesis by (auto simp: ulist_def area_inv_def)
  qed (simp add: ulist_def)
  have l: "set (ulist a ?s) = insert n (set (ulist a s))" by (simp add: ulist_def f A)
  have same: "rng ?s x = rng s x" if "x \<in> set (ulist b s)" for x b using n that by (auto simp: rng)
  have new: "rng ?s n = ?N" by (simp add: rng)
  then have newp: "purged (rng ?s n) \<longleftrightarrow> pu" by simp
  have "(\<Union>x \<in> set (ulist a s). range_pages (rng ?s x)) = upages a s"
    unfolding upages_def by (intro SUP_cong refl) (simp add: same)
  then show "upages a ?s = upages a s \<union> {st..fn}"
    by (simp add: upages_def [of a ?s] l new range_pages_def Un_commute)
  have "{x \<in> set (ulist a ?s). purged (rng ?s x)} =
      {x \<in> set (ulist a s). purged (rng s x)} \<union> (if pu then {n} else {})"
    using same n newp by (auto simp: l)
  moreover have "(\<Union>x \<in> {x \<in> set (ulist a s). purged (rng s x)}. range_pages (rng ?s x)) = ppages a s"
    unfolding ppages_def by (intro SUP_cong refl) (auto simp: same [of _ a])
  moreover have "range_pages (rng ?s n) = {st..fn}" by (simp add: new range_pages_def)
  ultimately show "ppages a ?s = ppages a s \<union> (if pu then {st..fn} else {})"
    unfolding ppages_def [of a ?s] by (cases pu) (simp_all add: UN_Un Un_commute)
  assume "b \<noteq> a"
  then show "upages b ?s = upages b s \<and> ppages b ?s = ppages b s"
    using same by (intro pages_frame) (simp_all add: f)
qed

lemma shrink_alloc_commute:
  assumes "n \<noteq> r"
  shows "range_shrink r x y (fst (range_alloc (Some n) a p pu st fn s)) =
         fst (range_alloc (Some n) a p pu st fn (range_shrink r x y s))"
  using assms
  by (simp add: range_alloc_def range_shrink_def set_rng_def set_area_def lru_add_def rng_def area_def
      range_on_lru_def range_size_def Let_def fun_upd_twist)

text \<open>The fourth case of \<open>ashmem_pin\<close>: a hole in the middle of a range.\<close>

lemma hole_words:
  fixes ps :: u32
  assumes "lo < ps" "ps \<le> pe" "pe < hi"
  shows "x \<le> ps - 1 \<longleftrightarrow> x < ps" "pe + 1 \<le> x \<longleftrightarrow> pe < x" "ps - 1 < ps" "pe < pe + 1"
    "lo \<le> ps - 1" "ps - 1 \<le> hi" "{ps..hi} = {ps..pe} \<union> {pe + 1..hi}" "{ps..pe} \<inter> {pe + 1..hi} = {}"
proof -
  have pred: "y \<le> ps - 1 \<longleftrightarrow> y < ps" for y using word_le_pred [OF assms(1)] .
  have succ: "pe + 1 \<le> y \<longleftrightarrow> pe < y" for y using word_Suc_le [OF assms(3)] .
  show "x \<le> ps - 1 \<longleftrightarrow> x < ps" by (rule pred)
  show "pe + 1 \<le> x \<longleftrightarrow> pe < x" by (rule succ)
  show "ps - 1 < ps" "pe < pe + 1" using pred [of "ps - 1"] succ [of "pe + 1"] by simp_all
  then show "lo \<le> ps - 1" "ps - 1 \<le> hi" using assms by (auto simp: pred)
  show "{ps..hi} = {ps..pe} \<union> {pe + 1..hi}" "{ps..pe} \<inter> {pe + 1..hi} = {}"
    using assms by (auto simp: succ)
qed

text \<open>The allocation of the fourth case, seen after the range was cut.\<close>

lemma ashmem_inv_tail:
  assumes inv: "ashmem_inv s" and A: "areas s a = Some A" and l: "unpinned_list A = pre @ r # rest"
    and hole: "pgstart (rng s r) < ps" "ps \<le> pe" "pe < pgend (rng s r)" and n: "ranges s n = None"
    and s1: "s1 = range_shrink r (pgstart (rng s r)) (ps - 1) s" "ashmem_inv s1"
  shows "ashmem_inv (fst (range_alloc (Some n) a (Some r) pu (pe + 1) (pgend (rng s r)) s1))"
    and "insert_before (Some r) n (unpinned_list A) = pre @ n # r # rest"
    and "n \<noteq> r" and "ranges s1 n = None"
proof -
  let ?R = "rng s r"
  note w = hole_words [OF hole]
  obtain R where R: "ranges s r = Some R" using inv_area [OF inv A] l by (auto simp: area_inv_def)
  then show nr: "n \<noteq> r" and n1: "ranges s1 n = None" using n by (auto simp: s1)
  have dist: "distinct (pre @ r # rest)" using area_inv_distinct [OF inv_area [OF inv A]] l by simp
  then show ins: "insert_before (Some r) n (unpinned_list A) = pre @ n # r # rest"
    unfolding l by (intro insert_before_split) simp
  have sorted: "sorted_wrt (\<lambda>x y. pgend (rng s y) < pgstart (rng s x)) (pre @ r # rest)"
    using inv_area [OF inv A] l by (simp add: area_inv_def)
  have "areas s1 a = Some A" by (simp add: s1 A)
  show "ashmem_inv (fst (range_alloc (Some n) a (Some r) pu (pe + 1) (pgend ?R) s1))"
  proof (rule ashmem_inv_range_alloc [OF s1(2) \<open>areas s1 a = Some A\<close> n1 _ _ ins l])
    show "afile A \<noteq> None" using inv_area [OF inv A] l by (simp add: area_inv_def)
    show "pe + 1 \<le> pgend ?R" by (simp add: w hole)
    fix x assume "x \<in> set pre"
    with sorted dist show "pgend ?R < pgstart (rng s1 x)"
      by (auto simp: sorted_wrt_append rng_range_shrink s1)
  next
    fix y assume y: "y \<in> set (r # rest)"
    have "ps - 1 < pe + 1" using w(3,4) hole by order
    moreover have "pgend (rng s y) < pgstart ?R" if "y \<in> set rest"
      using sorted that by (simp add: sorted_wrt_append)
    ultimately show "pgend (rng s1 y) < pe + 1"
      using y hole w(4) by (cases "y = r") (auto simp: rng_range_shrink s1)
  qed
qed

lemma pages_in_range:
  assumes inv: "ashmem_inv s" and A: "areas s a = Some A" and r: "r \<in> set (unpinned_list A)"
    and C: "C \<subseteq> range_pages (rng s r)"
  shows "C \<subseteq> upages a s" and "purged (rng s r) \<Longrightarrow> C \<subseteq> ppages a s"
    and "\<not> purged (rng s r) \<Longrightarrow> ppages a s \<inter> C = {}"
proof -
  show "C \<subseteq> upages a s" using r C by (auto simp: upages_def ulist_Some [OF A])
  show "purged (rng s r) \<Longrightarrow> C \<subseteq> ppages a s" using r C by (auto simp: ppages_def ulist_Some [OF A])
  assume np: "\<not> purged (rng s r)"
  have "range_pages (rng s x) \<inter> C = {}" if "x \<in> set (unpinned_list A)" "purged (rng s x)" for x
    using area_inv_disjoint [OF inv_area [OF inv A] that(1) r] np that(2) C by blast
  then show "ppages a s \<inter> C = {}" by (auto simp: ppages_def ulist_Some [OF A])
qed

lemma takes_out_hole:
  assumes inv: "ashmem_inv s" and A: "areas s a = Some A" and l: "unpinned_list A = pre @ r # rest"
    and hole: "pgstart (rng s r) < ps" "ps \<le> pe" "pe < pgend (rng s r)"
    and fresh: "case mem of None \<Rightarrow> True | Some n \<Rightarrow> ranges s n = None"
  shows "takes_out a {ps..pe} (mem \<noteq> None) s
    (range_shrink r (pgstart (rng s r)) (ps - 1)
       (fst (range_alloc mem a (Some r) (purged (rng s r)) (pe + 1) (pgend (rng s r)) s)))"
proof -
  let ?R = "rng s r"
  define s1 where "s1 = range_shrink r (pgstart ?R) (ps - 1) s"
  note w = hole_words [OF hole]
  have r: "r \<in> set (unpinned_list A)" using l by simp
  have "range_pages ?R - {pgstart ?R..ps - 1} = {ps..pgend ?R}"
    using hole by (auto simp: range_pages_def w not_less)
  with takes_out_range_shrink [OF inv A r order_refl w(5,6)]
  have t1: "takes_out a {ps..pgend ?R} True s s1" by (simp only: s1_def)
  show ?thesis
  proof (cases mem)
    case None
    from takes_out_less [OF t1, of "{ps..pe}"] w(7) None show ?thesis by (simp add: s1_def)
  next
    case (Some n)
    let ?s2 = "fst (range_alloc (Some n) a (Some r) (purged ?R) (pe + 1) (pgend ?R) s1)"
    have inv1: "ashmem_inv s1" and A1: "areas s1 a = Some A" using t1 A by (simp_all add: takes_out_def s1_def)
    have n: "ranges s n = None" using fresh Some by simp
    note tail = ashmem_inv_tail [OF inv A l hole n s1_def inv1]
    have C: "{ps..pgend ?R} \<subseteq> range_pages ?R" using hole by (auto simp: range_pages_def)
    note pg = range_alloc_pages [OF inv1 A1 tail(4), where p = "Some r" and pu = "purged ?R" and
        st = "pe + 1" and fn = "pgend ?R"]
    have U: "upages a s1 = upages a s - {ps..pgend ?R}" "ppages a s1 = ppages a s - {ps..pgend ?R}"
      using t1 by (simp_all add: takes_out_def)
    have "upages a ?s2 = upages a s - {ps..pe}"
      using pages_in_range(1) [OF inv A r C] unfolding pg(1) U using w(7,8) by blast
    moreover have "ppages a ?s2 = ppages a s - {ps..pe}"
      using pages_in_range(2,3) [OF inv A r C] unfolding pg(2) U using w(7,8) by (auto split: if_splits)
    moreover have "areas ?s2 a = Some (A\<lparr>unpinned_list := pre @ n # r # rest\<rparr>)"
      using tail(2) by (simp add: range_alloc_fields area_simps [OF A1])
    moreover have "areas ?s2 b = areas s b \<and> upages b ?s2 = upages b s \<and> ppages b ?s2 = ppages b s"
      if "b \<noteq> a" for b
      using pg(3) [OF that] that t1 by (simp add: takes_out_def range_alloc_fields)
    ultimately have "takes_out a {ps..pe} True s ?s2" using A tail(1) by (auto simp: takes_out_def)
    then show ?thesis using Some by (simp add: shrink_alloc_commute [OF tail(3)] s1_def)
  qed
qed

text \<open>The tests of the source are interval tests.\<close>

lemma page_range_in_range_iff:
  "pgstart R \<le> pgend R \<Longrightarrow> ps \<le> pe \<Longrightarrow>
   page_range_in_range R ps pe \<longleftrightarrow> range_pages R \<inter> {ps..pe} \<noteq> {}"
  by (auto simp: page_range_in_range_def page_in_range_def page_range_subsumes_range_def
      range_pages_def Int_atLeastAtMost)

lemma before_disjoint:
  assumes "area_inv s a A" and "unpinned_list A = pre @ r # rest" and "range_before_page (rng s r) ps"
    and "x \<in> set (r # rest)"
  shows "range_pages (rng s x) \<inter> {ps..pe} = {}"
proof -
  have "pgstart (rng s r) \<le> pgend (rng s r)"
    using assms(1,2) by (auto simp: area_inv_def)
  moreover have "x = r \<or> pgend (rng s x) < pgstart (rng s r)"
    using assms(1,2,4) by (auto simp: area_inv_def sorted_wrt_append)
  ultimately have "pgend (rng s x) < ps" using assms(3) by (auto simp: range_before_page_def)
  then show ?thesis by (auto simp: range_pages_def)
qed

lemma upages_disjoint:
  assumes "areas s a = Some A" and "\<And>x. x \<in> set (unpinned_list A) \<Longrightarrow> range_pages (rng s x) \<inter> S = {}"
  shows "upages a s \<inter> S = {}" and "ppages a s \<inter> S = {}"
  using assms(2) by (auto simp: upages_def ppages_def ulist_Some [OF assms(1)])

lemma takes_out_inv: "takes_out a S full s s' \<Longrightarrow> ashmem_inv s'"
  by (simp add: takes_out_def)

text \<open>One round of the loop that frees the part of range \<open>r\<close> inside the request \<open>H\<close>.\<close>

lemma pin_round:
  assumes inv: "ashmem_inv s" and A: "areas s a = Some A" and r: "r \<in> set (unpinned_list A)"
    and meets: "range_pages (rng s r) \<inter> H \<noteq> {}"
    and step: "takes_out a (range_pages (rng s r) \<inter> H) True s s1"
    and rest: "takes_out a H full s1 s2" "ret2 = (ret \<or> purged (rng s r) \<or> ppages a s1 \<inter> H \<noteq> {})"
  shows "takes_out a H full s s2 \<and> ret2 = (ret \<or> ppages a s \<inter> H \<noteq> {})"
proof
  let ?S = "range_pages (rng s r) \<inter> H"
  show "takes_out a H full s s2"
    using takes_out_trans [OF step rest(1), of H] by (simp add: Int_Un_distrib Un_absorb1)
  have p: "ppages a s1 = ppages a s - ?S" using step by (simp add: takes_out_def)
  show "ret2 = (ret \<or> ppages a s \<inter> H \<noteq> {})"
  proof (cases "purged (rng s r)")
    case True
    then have "?S \<subseteq> ppages a s" using pages_in_range(2) [OF inv A r, of ?S] by simp
    with meets True rest(2) show ?thesis by blast
  next
    case False
    then have "ppages a s \<inter> ?S = {}" using pages_in_range(3) [OF inv A r, of ?S] by simp
    with False rest(2) p show ?thesis by blast
  qed
qed

text \<open>The three cases in which the loop goes on after changing range \<open>r\<close>.\<close>

lemma pin_cases:
  fixes H :: "u32 set"
  assumes inv: "ashmem_inv s" and A: "areas s a = Some A" and r: "r \<in> set (unpinned_list A)"
    and ord: "ps \<le> pe" and meets: "range_pages (rng s r) \<inter> {ps..pe} \<noteq> {}"
  shows "page_range_subsumes_range (rng s r) ps pe \<Longrightarrow>
           takes_out a (range_pages (rng s r) \<inter> {ps..pe}) True s (range_del r s)"
    and "pgstart (rng s r) \<ge> ps \<Longrightarrow> pe < pgend (rng s r) \<Longrightarrow>
           takes_out a (range_pages (rng s r) \<inter> {ps..pe}) True s (range_shrink r (pe + 1) (pgend (rng s r)) s) \<and>
           range_pages (rng (range_shrink r (pe + 1) (pgend (rng s r)) s) r) \<inter> {ps..pe} = {}"
    and "pgstart (rng s r) < ps \<Longrightarrow> pgend (rng s r) \<le> pe \<Longrightarrow>
           takes_out a (range_pages (rng s r) \<inter> {ps..pe}) True s (range_shrink r (pgstart (rng s r)) (ps - 1) s) \<and>
           range_pages (rng (range_shrink r (pgstart (rng s r)) (ps - 1) s) r) \<inter> {ps..pe} = {}"
proof -
  let ?R = "rng s r"
  from meets have m: "pgstart ?R \<le> pe" "ps \<le> pgend ?R" by (auto simp: range_pages_def)
  {
    assume "page_range_subsumes_range ?R ps pe"
    then have "range_pages ?R \<inter> {ps..pe} = range_pages ?R"
      by (auto simp: page_range_subsumes_range_def range_pages_def)
    with takes_out_range_del [OF inv A r]
    show "takes_out a (range_pages ?R \<inter> {ps..pe}) True s (range_del r s)" by simp
  next
    assume c: "pgstart ?R \<ge> ps" "pe < pgend ?R"
    note succ = word_Suc_le [OF c(2)]
    have "range_pages ?R - {pe + 1..pgend ?R} = range_pages ?R \<inter> {ps..pe}"
      using c by (auto simp: range_pages_def succ)
    moreover have "pgstart ?R \<le> pe + 1" using m succ [of "pe + 1"] by auto
    moreover have "pe + 1 \<le> pgend ?R" using c by (simp add: succ)
    ultimately show "takes_out a (range_pages ?R \<inter> {ps..pe}) True s (range_shrink r (pe + 1) (pgend ?R) s) \<and>
        range_pages (rng (range_shrink r (pe + 1) (pgend ?R) s) r) \<inter> {ps..pe} = {}"
      using takes_out_range_shrink [OF inv A r, of "pe + 1" "pgend ?R"]
      by (auto simp: rng_range_shrink range_pages_def succ)
  next
    assume c: "pgstart ?R < ps" "pgend ?R \<le> pe"
    note pred = word_le_pred [OF c(1)]
    have "range_pages ?R - {pgstart ?R..ps - 1} = range_pages ?R \<inter> {ps..pe}"
      using c by (auto simp: range_pages_def pred)
    moreover have "pgstart ?R \<le> ps - 1" using c by (simp add: pred)
    moreover have "ps - 1 \<le> pgend ?R" using m pred [of "ps - 1"] by auto
    ultimately show "takes_out a (range_pages ?R \<inter> {ps..pe}) True s (range_shrink r (pgstart ?R) (ps - 1) s) \<and>
        range_pages (rng (range_shrink r (pgstart ?R) (ps - 1) s) r) \<inter> {ps..pe} = {}"
      using takes_out_range_shrink [OF inv A r, of "pgstart ?R" "ps - 1"]
      by (auto simp: rng_range_shrink range_pages_def pred)
  }
qed

text \<open>
  What one round leaves for the next: the loop goes on in a state \<open>s'\<close> in which the ranges
  already visited are clear of the request.
\<close>

definition pin_ready :: "nat option \<Rightarrow> nat \<Rightarrow> u32 set \<Rightarrow> nat list \<Rightarrow> ashmem_state \<Rightarrow> bool" where
  "pin_ready mem a H rest s \<longleftrightarrow> ashmem_inv s \<and>
     (\<exists>A pre. areas s a = Some A \<and> unpinned_list A = pre @ rest \<and>
              (\<forall>x \<in> set pre. range_pages (rng s x) \<inter> H = {})) \<and>
     (case mem of None \<Rightarrow> True | Some n \<Rightarrow> ranges s n = None)"

lemma pin_readyE:
  assumes "pin_ready mem a H (r # rest) s"
  obtains A pre where "ashmem_inv s" "areas s a = Some A" "unpinned_list A = pre @ r # rest"
    "\<forall>x \<in> set pre. range_pages (rng s x) \<inter> H = {}" "r \<in> set (unpinned_list A)"
    "pgstart (rng s r) \<le> pgend (rng s r)" "distinct (pre @ r # rest)"
    "case mem of None \<Rightarrow> True | Some n \<Rightarrow> ranges s n = None \<and> n \<noteq> r"
proof -
  from assms obtain A pre where a: "ashmem_inv s" "areas s a = Some A" "unpinned_list A = pre @ r # rest"
    "\<forall>x \<in> set pre. range_pages (rng s x) \<inter> H = {}"
    and m: "case mem of None \<Rightarrow> True | Some n \<Rightarrow> ranges s n = None"
    by (auto simp: pin_ready_def)
  have ai: "area_inv s a A" using inv_area a(1,2) .
  then obtain R where "ranges s r = Some R" "pgstart R \<le> pgend R" using a(3) by (auto simp: area_inv_def)
  moreover have "distinct (pre @ r # rest)" using area_inv_distinct [OF ai] a(3) by simp
  ultimately show thesis using a m by (intro that [of A pre]) (auto split: option.splits)
qed

lemma pin_ready_del:
  assumes "pin_ready mem a H (r # rest) s" and "ashmem_inv (range_del r s)"
  shows "pin_ready mem a H rest (range_del r s)"
  using assms(1)
proof (cases rule: pin_readyE)
  case (1 A pre)
  have "areas (range_del r s) a = Some (A\<lparr>unpinned_list := pre @ rest\<rparr>)"
    using 1 by (simp add: areas_range_del)
  moreover have "\<forall>x \<in> set pre. range_pages (rng (range_del r s) x) \<inter> H = {}"
  proof
    fix x assume "x \<in> set pre"
    moreover from this 1(7) have "x \<noteq> r" by auto
    ultimately show "range_pages (rng (range_del r s) x) \<inter> H = {}" using 1(4) by (simp add: rng_range_del)
  qed
  ultimately show ?thesis using assms(2) 1(8) by (auto simp: pin_ready_def split: option.splits)
qed

lemma pin_ready_shrink:
  assumes "pin_ready mem a H (r # rest) s" and "ashmem_inv (range_shrink r x y s)"
    and "range_pages (rng (range_shrink r x y s) r) \<inter> H = {}"
  shows "pin_ready mem a H rest (range_shrink r x y s)"
  using assms(1)
proof (cases rule: pin_readyE)
  case (1 A pre)
  have "\<forall>x' \<in> set (pre @ [r]). range_pages (rng (range_shrink r x y s) x') \<inter> H = {}"
    using 1 assms(3) by (auto simp: rng_range_shrink)
  moreover have "unpinned_list A = (pre @ [r]) @ rest" using 1 by simp
  moreover have "areas (range_shrink r x y s) a = Some A" using 1 by simp
  ultimately show ?thesis using assms(2) 1(8) unfolding pin_ready_def by (auto split: option.splits)
qed

lemma pin_ready_skip:
  assumes "pin_ready mem a H (r # rest) s" and "range_pages (rng s r) \<inter> H = {}"
  shows "pin_ready mem a H rest s"
  using assms(1)
proof (cases rule: pin_readyE)
  case (1 A pre)
  have "unpinned_list A = (pre @ [r]) @ rest" using 1 by simp
  moreover have "\<forall>x \<in> set (pre @ [r]). range_pages (rng s x) \<inter> H = {}" using 1 assms(2) by simp
  ultimately show ?thesis using 1 unfolding pin_ready_def by (auto split: option.splits)
qed

lemma pin_loop_stop:
  assumes "pin_ready mem a {ps..pe} (r # rest) s" and "range_before_page (rng s r) ps"
  shows "upages a s \<inter> {ps..pe} = {} \<and> ppages a s \<inter> {ps..pe} = {}"
  using assms(1)
proof (cases rule: pin_readyE)
  case (1 A pre)
  have "range_pages (rng s x) \<inter> {ps..pe} = {}" if "x \<in> set (unpinned_list A)" for x
    using that 1 before_disjoint [OF inv_area [OF 1(1,2)] 1(3) assms(2)] by auto
  from upages_disjoint [OF 1(2) this] show ?thesis by simp
qed

lemma pin_loop_correct:
  assumes "pin_ready mem a {ps..pe} rest s" and "ps \<le> pe"
  shows "takes_out a {ps..pe} (mem \<noteq> None) s (fst (pin_loop mem a ps pe rest ret s)) \<and>
         snd (pin_loop mem a ps pe rest ret s) = (ret \<or> ppages a s \<inter> {ps..pe} \<noteq> {})"
  using assms
proof (induction rest arbitrary: ret s)
  case Nil
  then show ?case using upages_disjoint [of s a _ "{ps..pe}"] by (fastforce simp: pin_ready_def intro: takes_out_refl)
next
  case (Cons r rest)
  let ?H = "{ps..pe}" and ?R = "rng s r"
  from Cons.prems(1) show ?case
  proof (cases rule: pin_readyE)
    case A: (1 A pre)
    note iff = page_range_in_range_iff [OF A(6) Cons.prems(2)]
    have go: "takes_out a ?H (mem \<noteq> None) s (fst (pin_loop mem a ps pe rest (ret \<or> purged ?R) s')) \<and>
        snd (pin_loop mem a ps pe rest (ret \<or> purged ?R) s') = (ret \<or> ppages a s \<inter> ?H \<noteq> {})"
      if "takes_out a (range_pages ?R \<inter> ?H) True s s'" "pin_ready mem a ?H rest s'" "range_pages ?R \<inter> ?H \<noteq> {}" for s'
      by (rule pin_round [OF A(1,2,5) that(3,1)])
        (use Cons.IH [OF that(2) Cons.prems(2), of "ret \<or> purged ?R"] in simp_all)
    consider "range_before_page ?R ps" | "\<not> range_before_page ?R ps" "range_pages ?R \<inter> ?H = {}"
      | "\<not> range_before_page ?R ps" "range_pages ?R \<inter> ?H \<noteq> {}" by blast
    then show ?thesis
    proof cases
      case 1
      with pin_loop_stop [OF Cons.prems(1)] A(1) show ?thesis by (simp add: takes_out_refl)
    next
      case 2
      with Cons.IH [OF pin_ready_skip [OF Cons.prems(1)] Cons.prems(2)] show ?thesis by (simp add: iff)
    next
      case c: 3
      note pc = pin_cases [OF A(1,2,5) Cons.prems(2) c(2)]
      note ready = pin_ready_del [OF Cons.prems(1)] pin_ready_shrink [OF Cons.prems(1)]
      consider "page_range_subsumes_range ?R ps pe"
        | "\<not> page_range_subsumes_range ?R ps pe" "pgstart ?R \<ge> ps" "pe < pgend ?R"
        | "\<not> page_range_subsumes_range ?R ps pe" "pgstart ?R < ps" "pgend ?R \<le> pe"
        | "\<not> page_range_subsumes_range ?R ps pe" "pgstart ?R < ps" "pe < pgend ?R"
        by (fastforce simp: page_range_subsumes_range_def)
      then show ?thesis
      proof cases
        case 1
        note t = pc(1) [OF 1]
        from go [OF t ready(1) [OF takes_out_inv [OF t]] c(2)] 1 c show ?thesis by (simp add: iff)
      next
        case 2
        note t = pc(2) [OF 2(2,3)]
        from go [OF t [THEN conjunct1] ready(2) c(2)] takes_out_inv [OF t [THEN conjunct1]] t 2 c
        show ?thesis by (simp add: iff Let_def)
      next
        case 3
        note t = pc(3) [OF 3(2,3)]
        from go [OF t [THEN conjunct1] ready(2) c(2)] takes_out_inv [OF t [THEN conjunct1]] t 3 c
        show ?thesis by (simp add: iff Let_def 3(2) [folded not_le])
      next
        case 4
        have f: "case mem of None \<Rightarrow> True | Some n \<Rightarrow> ranges s n = None" using A(8) by (auto split: option.splits)
        have sub: "?H \<subseteq> range_pages ?R" using 4(2,3) by (auto simp: range_pages_def)
        have ret_hole: "(ret \<or> purged ?R) = (ret \<or> ppages a s \<inter> ?H \<noteq> {})"
          using pages_in_range(2,3) [OF A(1,2,5) sub] c(2) by (cases "purged ?R") blast+
        from takes_out_hole [OF A(1,2,3) 4(2) Cons.prems(2) 4(3) f]
          ret_hole 4 c show ?thesis
          by (simp add: iff Let_def 4(2,3) [folded not_le])
      qed
    qed
  qed
qed
section \<open>Unpinning\<close>

text \<open>
  The effect of adding the pages \<open>S\<close> to the unpinned set of area \<open>a\<close>: purged pages stay
  purged, and none becomes purged unless \<open>S\<close> joins purged pages or \<open>purge\<close> says so.
\<close>

definition puts_in :: "nat \<Rightarrow> u32 set \<Rightarrow> bool \<Rightarrow> ashmem_state \<Rightarrow> ashmem_state \<Rightarrow> bool" where
  "puts_in a S purge s s' \<longleftrightarrow> ashmem_inv s' \<and> upages a s' = upages a s \<union> S \<and>
     ppages a s \<union> (if purge then S else {}) \<subseteq> ppages a s' \<and>
     (\<not> purge \<and> ppages a s \<inter> S = {} \<longrightarrow> ppages a s' = ppages a s) \<and>
     (\<forall>b. b \<noteq> a \<longrightarrow> areas s' b = areas s b \<and> upages b s' = upages b s \<and> ppages b s' = ppages b s)"

text \<open>How a scan of the list ends.\<close>

lemma unpin_scan_cases:
  assumes "area_inv s a A" and "ps \<le> pe" and "unpinned_list A = pre @ rest"
    and "\<forall>x \<in> set pre. pe < pgstart (rng s x)"
  shows "case unpin_scan s ps pe rest of
      Covered \<Rightarrow> {ps..pe} \<subseteq> (\<Union>x \<in> set (unpinned_list A). range_pages (rng s x))
    | Merge r \<Rightarrow> r \<in> set (unpinned_list A) \<and> range_pages (rng s r) \<inter> {ps..pe} \<noteq> {}
    | Insert p \<Rightarrow> \<exists>xs ys. unpinned_list A = xs @ ys \<and> (\<forall>x \<in> set xs. pe < pgstart (rng s x)) \<and>
        (\<forall>y \<in> set ys. pgend (rng s y) < ps) \<and>
        (case p of None \<Rightarrow> ys = [] | Some q \<Rightarrow> \<exists>zs. ys = q # zs)"
  using assms(3,4)
proof (induction rest arbitrary: pre)
  case Nil
  then show ?case by simp
next
  case (Cons r rest)
  have r: "r \<in> set (unpinned_list A)" using Cons.prems(1) by simp
  then have ok: "pgstart (rng s r) \<le> pgend (rng s r)" using assms(1) by (auto simp: area_inv_def)
  note iff = page_range_in_range_iff [OF ok assms(2)]
  have low: "pgend (rng s y) < pgstart (rng s r)" if "y \<in> set rest" for y
    using assms(1) Cons.prems(1) that by (simp add: area_inv_def sorted_wrt_append)
  consider "range_before_page (rng s r) ps" | "\<not> range_before_page (rng s r) ps" "page_range_in_range (rng s r) ps pe \<or> page_range_subsumed_by_range (rng s r) ps pe"
    | "\<not> range_before_page (rng s r) ps" "\<not> page_range_in_range (rng s r) ps pe" "\<not> page_range_subsumed_by_range (rng s r) ps pe"
    by blast
  then show ?case
  proof cases
    case 1
    then have "\<forall>y \<in> set (r # rest). pgend (rng s y) < ps"
      using low ok by (fastforce simp: range_before_page_def)
    then have "\<exists>xs ys. unpinned_list A = xs @ ys \<and> (\<forall>x \<in> set xs. pe < pgstart (rng s x)) \<and>
        (\<forall>y \<in> set ys. pgend (rng s y) < ps) \<and> (\<exists>zs. ys = r # zs)"
      using Cons.prems by blast
    with 1 show ?thesis by simp
  next
    case 2
    with r show ?thesis
      by (auto simp: iff Let_def page_range_subsumed_by_range_def range_pages_def
          intro!: bexI [of _ r])
  next
    case 3
    then have "pe < pgstart (rng s r)" using ok assms(2)
      by (auto simp: iff range_before_page_def range_pages_def not_le)
    with Cons.IH [of "pre @ [r]"] Cons.prems 3 show ?thesis by (simp add: Let_def)
  qed
qed


lemma merge_interval:
  fixes ps :: u32
  assumes "range_pages R \<inter> {ps..pe} \<noteq> {}"
  shows "{min (pgstart R) ps..max (pgend R) pe} = range_pages R \<union> {ps..pe}"
    and "min (pgstart R) ps \<le> max (pgend R) pe"
  using assms by (auto simp: range_pages_def min_def max_def)

lemma unpin_insert:
  assumes inv: "ashmem_inv s" and A: "areas s a = Some A" and "afile A \<noteq> None" and "ps \<le> pe"
    and fresh: "ranges s n = None" and l: "unpinned_list A = xs @ ys"
    and "\<forall>x \<in> set xs. pe < pgstart (rng s x)" and "\<forall>y \<in> set ys. pgend (rng s y) < ps"
    and p: "case p of None \<Rightarrow> ys = [] | Some q \<Rightarrow> \<exists>zs. ys = q # zs"
  shows "puts_in a {ps..pe} purge s (fst (range_alloc (Some n) a p purge ps pe s))"
proof -
  let ?s = "fst (range_alloc (Some n) a p purge ps pe s)"
  have "distinct (xs @ ys)" using area_inv_distinct [OF inv_area [OF inv A]] l by simp
  with p have "insert_before p n (unpinned_list A) = xs @ n # ys"
    unfolding l by (intro insert_before_split) (auto split: option.splits)
  from ashmem_inv_range_alloc [OF inv A fresh assms(3,4) this l] assms(7,8)
  have "ashmem_inv ?s" by blast
  moreover note pg = range_alloc_pages [OF inv A fresh, where p = p and pu = purge and st = ps and fn = pe]
  moreover have "areas ?s b = areas s b" if "b \<noteq> a" for b using that by (simp add: range_alloc_fields)
  ultimately show ?thesis by (auto simp: puts_in_def)
qed

lemma unpin_merge:
  assumes inv: "ashmem_inv s" and A: "areas s a = Some A" and r: "r \<in> set (unpinned_list A)"
    and meets: "range_pages (rng s r) \<inter> {ps..pe} \<noteq> {}"
    and rest: "puts_in a (range_pages (rng s r) \<union> {ps..pe}) (purge \<or> purged (rng s r)) (range_del r s) s'"
  shows "puts_in a {ps..pe} purge s s'"
proof -
  let ?R = "range_pages (rng s r)" and ?s = "range_del r s"
  have t: "upages a ?s = upages a s - ?R" "ppages a ?s = ppages a s - ?R"
    "b \<noteq> a \<Longrightarrow> areas ?s b = areas s b \<and> upages b ?s = upages b s \<and> ppages b ?s = ppages b s" for b
    using takes_out_range_del [OF inv A r] by (simp_all add: takes_out_def)
  note pr = pages_in_range [OF inv A r order_refl]
  have "upages a s' = upages a s \<union> {ps..pe}" using rest pr(1) by (auto simp: puts_in_def t)
  moreover have "ppages a s \<union> (if purge then {ps..pe} else {}) \<subseteq> ppages a s'"
    using rest pr(3) by (cases "purged (rng s r)") (auto simp: puts_in_def t split: if_splits)
  moreover have "ppages a s' = ppages a s" if "\<not> purge" "ppages a s \<inter> {ps..pe} = {}"
  proof -
    have np: "\<not> purged (rng s r)" using pr(2) that(2) meets by blast
    with pr(3) have d: "ppages a s \<inter> ?R = {}" by simp
    with t(2) have "ppages a ?s = ppages a s" by blast
    moreover have "ppages a ?s \<inter> (?R \<union> {ps..pe}) = {}" using d that(2) calculation by blast
    ultimately show ?thesis using rest np that(1) by (simp add: puts_in_def)
  qed
  ultimately show ?thesis using rest t(3) by (simp add: puts_in_def)
qed

lemma unpin_loop_correct:
  assumes "ashmem_inv s" and "areas s a = Some A" and "afile A \<noteq> None" and "ps \<le> pe"
    and "ranges s n = None" and "purge \<Longrightarrow> \<not> {ps..pe} \<subseteq> upages a s"
  shows "puts_in a {ps..pe} purge s (fst (unpin_loop (Some n) a ps pe purge s)) \<and>
         snd (unpin_loop (Some n) a ps pe purge s) = 0"
  using assms
proof (induction "Some n" a ps pe purge s arbitrary: A rule: unpin_loop.induct)
  case (1 a ps pe purge s)
  note inv = "1.prems"(1) and A = "1.prems"(2)
  let ?scan = "unpin_scan s ps pe (unpinned_list A)"
  have area: "area s a = A" by (simp add: A)
  note sc = unpin_scan_cases [OF inv_area [OF inv A] "1.prems"(4), of "[]" "unpinned_list A", simplified]
  show ?case
  proof (cases ?scan)
    case (Insert p)
    with sc obtain xs ys where "unpinned_list A = xs @ ys" "\<forall>x \<in> set xs. pe < pgstart (rng s x)"
      "\<forall>y \<in> set ys. pgend (rng s y) < ps" "case p of None \<Rightarrow> ys = [] | Some q \<Rightarrow> \<exists>zs. ys = q # zs"
      by auto
    from unpin_insert [OF inv A "1.prems"(3,4,5) this] Insert A show ?thesis
      by (simp add: unpin_loop.simps [of "Some n" a] range_alloc_fields)
  next
    case Covered
    with sc have cov: "{ps..pe} \<subseteq> upages a s" by (simp add: upages_def ulist_Some [OF A])
    with "1.prems"(6) have "\<not> purge" by blast
    with Covered A cov inv show ?thesis
      by (auto simp: unpin_loop.simps [of "Some n" a] puts_in_def)
  next
    case (Merge r)
    with sc have r: "r \<in> set (unpinned_list A)" "range_pages (rng s r) \<inter> {ps..pe} \<noteq> {}" by simp_all
    let ?s = "range_del r s"
    note m = merge_interval [OF r(2)]
    have t: "ashmem_inv ?s" "upages a ?s = upages a s - range_pages (rng s r)"
      using takes_out_range_del [OF inv A r(1)] by (simp_all add: takes_out_def)
    have A1: "areas ?s a = Some (A\<lparr>unpinned_list := removeAll r (unpinned_list A)\<rparr>)" by (simp add: areas_range_del A)
    have f: "ranges ?s n = None" using "1.prems"(5) by simp
    have "puts_in a {min (pgstart (rng s r)) ps..max (pgend (rng s r)) pe} (purge \<or> purged (rng s r)) ?s
        (fst (unpin_loop (Some n) a (min (pgstart (rng s r)) ps) (max (pgend (rng s r)) pe) (purge \<or> purged (rng s r)) ?s)) \<and>
        snd (unpin_loop (Some n) a (min (pgstart (rng s r)) ps) (max (pgend (rng s r)) pe) (purge \<or> purged (rng s r)) ?s) = 0"
      by (rule "1.hyps" [OF _ _ refl t(1) A1 _ m(2) f])
        (use A area Merge "1.prems"(3) r(2) t(2) m(1) in auto)
    with unpin_merge [OF inv A r] m(1) Merge A show ?thesis
      by (simp add: unpin_loop.simps [of "Some n" a ps] Let_def)
  qed
qed

end
