(* ===== verification/Ashmem_Props.thy ===== *)
theory Ashmem_Props
  imports Ashmem
begin

text \<open>
  What the operations of \<^verbatim>\<open>mm/ashmem.c\<close> do to the sets of unpinned and of purged pages:
  the shrinker, closing an area, every other handler, and the invariant over sequences of
  them; the interface of pinning as a locale and its interpretation.
\<close>

section \<open>Failed allocations and the pin status\<close>

lemma unpin_loop_None:
  assumes "ashmem_inv s" and "areas s a = Some A" and "ps \<le> pe"
  shows "ashmem_inv (fst (unpin_loop None a ps pe purge s)) \<and>
         (\<exists>l. areas (fst (unpin_loop None a ps pe purge s)) a = Some (A\<lparr>unpinned_list := l\<rparr>))"
  using assms
proof (induction "None :: nat option" a ps pe purge s arbitrary: A rule: unpin_loop.induct)
  case (1 a ps pe purge s)
  note inv = "1.prems"(1) and A = "1.prems"(2)
  have area: "area s a = A" by (simp add: A)
  note sc = unpin_scan_cases [OF inv_area [OF inv A] "1.prems"(3), of "[]" "unpinned_list A", simplified]
  show ?case
  proof (cases "unpin_scan s ps pe (unpinned_list A)")
    case (Merge r)
    with sc have r: "r \<in> set (unpinned_list A)" "range_pages (rng s r) \<inter> {ps..pe} \<noteq> {}" by simp_all
    have A1: "areas (range_del r s) a = Some (A\<lparr>unpinned_list := removeAll r (unpinned_list A)\<rparr>)"
      by (simp add: areas_range_del A)
    from "1.hyps" [OF _ _ refl takes_out_inv [OF takes_out_range_del [OF inv A r(1)]] A1 merge_interval(2) [OF r(2)]]
      A area Merge show ?thesis by (simp add: unpin_loop.simps [of None a ps] Let_def)
  qed (use inv A in \<open>auto simp: unpin_loop.simps [of None a] area intro: exI [of _ "unpinned_list A"]\<close>)
qed

lemma pin_status_correct:
  assumes "ashmem_inv s" and "areas s a = Some A" and "ps \<le> pe" and "unpinned_list A = pre @ rest"
    and "\<forall>x \<in> set pre. range_pages (rng s x) \<inter> {ps..pe} = {}"
  shows "pin_status_loop s ps pe rest = (if upages a s \<inter> {ps..pe} = {} then 1 else 0)"
  using assms(4,5)
proof (induction rest arbitrary: pre)
  case Nil
  with upages_disjoint(1) [OF assms(2), of "{ps..pe}"] show ?case by simp
next
  case (Cons r rest)
  have r: "r \<in> set (unpinned_list A)" using Cons.prems by simp
  then have ok: "pgstart (rng s r) \<le> pgend (rng s r)"
    using inv_area [OF assms(1,2)] by (auto simp: area_inv_def)
  note iff = page_range_in_range_iff [OF ok assms(3)]
  consider "range_before_page (rng s r) ps" | "\<not> range_before_page (rng s r) ps" "range_pages (rng s r) \<inter> {ps..pe} \<noteq> {}"
    | "\<not> range_before_page (rng s r) ps" "range_pages (rng s r) \<inter> {ps..pe} = {}" by blast
  then show ?case
  proof cases
    case 1
    have "range_pages (rng s x) \<inter> {ps..pe} = {}" if "x \<in> set (unpinned_list A)" for x
      using that Cons.prems before_disjoint [OF inv_area [OF assms(1,2)] Cons.prems(1) 1] by auto
    from upages_disjoint(1) [OF assms(2) this] 1 show ?thesis by simp
  next
    case 2
    have "range_pages (rng s r) \<subseteq> upages a s" using r by (auto simp: upages_def ulist_Some [OF assms(2)])
    with 2 show ?thesis by (auto simp: iff)
  next
    case 3
    with Cons.IH [of "pre @ [r]"] Cons.prems show ?thesis by (simp add: iff)
  qed
qed

section \<open>The shrinker\<close>

text \<open>One round: range \<open>r\<close> is truncated, marked purged and taken off the LRU list.\<close>

definition purge_one :: "nat \<Rightarrow> ashmem_state \<Rightarrow> ashmem_state" where
  "purge_one r s =
     (let R = rng s r in
      lru_del r (set_rng r (R\<lparr>purged := True\<rparr>)
        (s\<lparr>truncated := truncated s @ [(asma R, pgstart R * 4096, (pgend R + 1) * 4096 - 1)]\<rparr>)))"

lemma purge_one_fields [simp]:
  "areas (purge_one r s) = areas s"
  "ranges (purge_one r s) = (ranges s)(r \<mapsto> (rng s r)\<lparr>purged := True\<rparr>)"
  "ashmem_lru_list (purge_one r s) = removeAll r (ashmem_lru_list s)"
  "lru_count (purge_one r s) = lru_count s - range_size (rng s r)"
  "truncated (purge_one r s) =
     truncated s @ [(asma (rng s r), pgstart (rng s r) * 4096, (pgend (rng s r) + 1) * 4096 - 1)]"
  by (simp_all add: purge_one_def lru_del_def set_rng_def rng_def range_size_def Let_def)

lemma rng_purge_one: "rng (purge_one r s) x = (if x = r then (rng s r)\<lparr>purged := True\<rparr> else rng s x)"
  by (simp add: rng_def)

lemma purge_one_pages [simp]:
  "pgstart (rng (purge_one r s) x) = pgstart (rng s x)" "pgend (rng (purge_one r s) x) = pgend (rng s x)"
  "asma (rng (purge_one r s) x) = asma (rng s x)"
  by (simp_all add: rng_purge_one)

lemma ashmem_inv_purge_one:
  assumes inv: "ashmem_inv s" and R: "ranges s r = Some R" "\<not> purged R"
  shows "ashmem_inv (purge_one r s)" and "upages a (purge_one r s) = upages a s"
    and "ppages a s \<subseteq> ppages a (purge_one r s)"
proof -
  let ?s = "purge_one r s"
  have ul: "ulist a ?s = ulist a s" for a by (simp add: ulist_def)
  have rp: "range_pages (rng ?s x) = range_pages (rng s x)" for x by (simp add: range_pages_def)
  show "upages a ?s = upages a s" by (simp add: upages_def ul rp)
  have "purged (rng s x) \<Longrightarrow> purged (rng ?s x)" for x by (simp add: rng_purge_one)
  then show "ppages a s \<subseteq> ppages a ?s" unfolding ppages_def ul rp by (intro UN_mono) auto
  have "area_inv ?s a A" if "areas s a = Some A" for a A
    using inv_area [OF inv that] R by (fastforce simp: area_inv_def)
  moreover have "\<forall>x X. ranges ?s x = Some X \<longrightarrow> (\<exists>A. areas ?s (asma X) = Some A \<and> x \<in> set (unpinned_list A))"
    using R by (auto elim: inv_rangeE [OF inv])
  moreover note l = inv_lru [OF inv]
  moreover have "r \<in> set (ashmem_lru_list s)" using l R by simp
  moreover have "(\<Sum>x \<leftarrow> removeAll r (ashmem_lru_list s). range_size (rng ?s x)) =
      (\<Sum>x \<leftarrow> removeAll r (ashmem_lru_list s). range_size (rng s x))"
    by (simp add: range_size_def)
  moreover have "set (ashmem_lru_list ?s) = {x. \<exists>X. ranges ?s x = Some X \<and> \<not> purged X}"
    using l(2) by auto
  ultimately show "ashmem_inv ?s"
    by (simp add: ashmem_inv_def distinct_removeAll sum_list_removeAll)
qed

lemma shrink_loop_Cons:
  "shrink_loop (r # rest) nr s =
     (if afile (area s (asma (rng s r))) = None then None
      else if to_int32 (nr - uint (range_size (rng s r))) \<le> 0 then Some (purge_one r s)
      else shrink_loop rest (to_int32 (nr - uint (range_size (rng s r)))) (purge_one r s))"
  by (simp add: purge_one_def Let_def)

declare shrink_loop.simps(2) [simp del]

text \<open>
  The shrinker moves no page between pinned and unpinned; what it truncates are whole ranges
  of unpinned pages that were not purged before and count as purged afterwards.
\<close>

definition discards :: "ashmem_state \<Rightarrow> ashmem_state \<Rightarrow> nat \<times> u32 \<times> u32 \<Rightarrow> bool" where
  "discards s s' e \<longleftrightarrow> (\<exists>a ps pe. e = (a, ps * 4096, (pe + 1) * 4096 - 1) \<and> ps \<le> pe \<and>
     {ps..pe} \<subseteq> upages a s \<and> {ps..pe} \<inter> ppages a s = {} \<and> {ps..pe} \<subseteq> ppages a s')"

definition shrinks :: "ashmem_state \<Rightarrow> ashmem_state \<Rightarrow> bool" where
  "shrinks s s' \<longleftrightarrow> ashmem_inv s' \<and> areas s' = areas s \<and>
     (\<forall>a. upages a s' = upages a s \<and> ppages a s \<subseteq> ppages a s') \<and>
     (\<exists>new. truncated s' = truncated s @ new \<and> (\<forall>e \<in> set new. discards s s' e))"

lemma shrinks_refl: "ashmem_inv s \<Longrightarrow> shrinks s s"
  by (simp add: shrinks_def)

lemma shrinks_trans:
  assumes "shrinks s s1" and "shrinks s1 s2"
  shows "shrinks s s2"
proof -
  obtain n1 n2 where n: "truncated s1 = truncated s @ n1" "truncated s2 = truncated s1 @ n2"
    "\<forall>e \<in> set n1. discards s s1 e" "\<forall>e \<in> set n2. discards s1 s2 e"
    using assms by (auto simp: shrinks_def)
  have p: "ppages a s \<subseteq> ppages a s1" "ppages a s1 \<subseteq> ppages a s2" "upages a s1 = upages a s" for a
    using assms by (auto simp: shrinks_def)
  have "discards s s2 e" if "discards s s1 e \<or> discards s1 s2 e" for e
    using that
  proof
    assume "discards s s1 e"
    then show ?thesis using p unfolding discards_def by (elim exE conjE) (intro exI conjI, assumption+, blast)
  next
    assume "discards s1 s2 e"
    then obtain a ps pe where e: "e = (a, ps * 4096, (pe + 1) * 4096 - 1)" "ps \<le> pe" "{ps..pe} \<subseteq> upages a s1"
      "{ps..pe} \<inter> ppages a s1 = {}" "{ps..pe} \<subseteq> ppages a s2" unfolding discards_def by blast
    have "{ps..pe} \<inter> ppages a s = {}" using p(1) [of a] e(4) by blast
    with e show ?thesis unfolding discards_def p by blast
  qed
  then have "\<forall>e \<in> set (n1 @ n2). discards s s2 e" using n by auto
  with n(1,2) have "\<exists>new. truncated s2 = truncated s @ new \<and> (\<forall>e \<in> set new. discards s s2 e)"
    by (metis append_assoc)
  with assms p show ?thesis unfolding shrinks_def by (metis order_trans)
qed

lemma shrinks_purge_one:
  assumes inv: "ashmem_inv s" and R: "ranges s r = Some R" "\<not> purged R"
  shows "shrinks s (purge_one r s)"
proof -
  obtain A where A: "areas s (asma R) = Some A" "r \<in> set (unpinned_list A)"
    using R(1) by (elim inv_rangeE [OF inv])
  note p = pages_in_range [OF inv A order_refl, simplified rng_simps [OF R(1)]]
  have ok: "pgstart R \<le> pgend R" using inv_area [OF inv A(1)] A(2) R(1) by (auto simp: area_inv_def)
  have A': "areas (purge_one r s) (asma R) = Some A" by (simp add: A)
  have "range_pages R \<subseteq> ppages (asma R) (purge_one r s)"
    using A(2) R(1) by (auto simp: ppages_def ulist_Some [OF A'] rng_purge_one range_pages_def intro!: exI [of _ r])
  with p R ok have "discards s (purge_one r s) (asma R, pgstart R * 4096, (pgend R + 1) * 4096 - 1)"
    unfolding discards_def by (intro exI [of _ "asma R"] exI [of _ "pgstart R"] exI [of _ "pgend R"])
      (auto simp: range_pages_def)
  with ashmem_inv_purge_one [OF inv R] R(1) show ?thesis by (simp add: shrinks_def)
qed

lemma lru_head:
  assumes inv: "ashmem_inv s" and l: "ashmem_lru_list s = r # rest"
  obtains R where "ranges s r = Some R" "\<not> purged R" "afile (area s (asma R)) \<noteq> None"
    "ashmem_lru_list (purge_one r s) = rest"
proof -
  have "r \<in> {r. \<exists>R. ranges s r = Some R \<and> \<not> purged R}"
    unfolding inv_lru(2) [OF inv, symmetric] l by simp
  then obtain R where R: "ranges s r = Some R" "\<not> purged R" by blast
  obtain A where A: "areas s (asma R) = Some A" "r \<in> set (unpinned_list A)"
    using R(1) by (elim inv_rangeE [OF inv])
  have "afile A \<noteq> None" using inv_area [OF inv A(1)] A(2) by (auto simp: area_inv_def)
  moreover have "r \<notin> set rest" using inv_lru(1) [OF inv] l by simp
  ultimately show thesis using R A l by (intro that [of R]) simp_all
qed

lemma shrink_loop_ok:
  "ashmem_inv s \<Longrightarrow> ids = ashmem_lru_list s \<Longrightarrow> \<exists>s'. shrink_loop ids nr s = Some s' \<and> shrinks s s'"
proof (induction ids arbitrary: nr s)
  case Nil
  then show ?case by (simp add: shrinks_refl)
next
  case (Cons r rest)
  then have l: "ashmem_lru_list s = r # rest" by simp
  obtain R where R: "ranges s r = Some R" "\<not> purged R" "afile (area s (asma R)) \<noteq> None"
    and next_lru: "ashmem_lru_list (purge_one r s) = rest"
    using lru_head [OF Cons.prems(1) l] .
  have one: "shrinks s (purge_one r s)" by (rule shrinks_purge_one [OF Cons.prems(1) R(1,2)])
  then have "ashmem_inv (purge_one r s)" by (simp add: shrinks_def)
  from Cons.IH [OF this next_lru [symmetric], of "to_int32 (nr - uint (range_size R))"] one R
  show ?case by (auto simp: shrink_loop_Cons intro: shrinks_trans)
qed


section \<open>The other operations\<close>

lemma ashmem_inv_del_all:
  assumes "ashmem_inv s" and "areas s a = Some A" and "set l \<subseteq> set (unpinned_list A)" and "distinct l"
  shows "ashmem_inv (fold range_del l s) \<and>
    areas (fold range_del l s) a = Some (A\<lparr>unpinned_list := [r \<leftarrow> unpinned_list A. r \<notin> set l]\<rparr>) \<and>
    (\<forall>b. b \<noteq> a \<longrightarrow> areas (fold range_del l s) b = areas s b \<and> upages b (fold range_del l s) = upages b s
         \<and> ppages b (fold range_del l s) = ppages b s)"
  using assms
proof (induction l arbitrary: s A)
  case (Cons r l)
  have r: "r \<in> set (unpinned_list A)" using Cons.prems by simp
  let ?A = "A\<lparr>unpinned_list := removeAll r (unpinned_list A)\<rparr>"
  note t = takes_out_range_del [OF Cons.prems(1,2) r]
  have A1: "areas (range_del r s) a = Some ?A" by (simp add: areas_range_del Cons.prems(2))
  have sub: "set l \<subseteq> set (unpinned_list ?A)" using Cons.prems(3,4) by auto
  have eq: "[x \<leftarrow> removeAll r (unpinned_list A). x \<notin> set l] = [x \<leftarrow> unpinned_list A. x \<noteq> r \<and> x \<notin> set l]"
    by (simp add: removeAll_filter_not_eq conj_commute eq_commute)
  from Cons.IH [OF takes_out_inv [OF t] A1 sub] t Cons.prems(4) show ?case
    by (simp add: takes_out_def eq)
qed simp

text \<open>Replacing an area by one with the same list and, if the list is not empty, a file.\<close>

lemma ulist_set_area:
  "areas s a = Some A \<Longrightarrow> unpinned_list A' = unpinned_list A \<Longrightarrow> ulist b (set_area a A' s) = ulist b s"
  by (simp add: ulist_def set_area_def)

lemma set_area_fields [simp]:
  "areas (set_area a A s) = (areas s)(a \<mapsto> A)" "ranges (set_area a A s) = ranges s"
  "ashmem_lru_list (set_area a A s) = ashmem_lru_list s" "lru_count (set_area a A s) = lru_count s"
  "truncated (set_area a A s) = truncated s" "rng (set_area a A s) = rng s"
  by (simp_all add: set_area_def rng_def fun_eq_iff)

lemma ashmem_inv_frame:
  assumes "ashmem_inv s" and "areas s' = areas s" "ranges s' = ranges s"
    "ashmem_lru_list s' = ashmem_lru_list s" "lru_count s' = lru_count s"
  shows "ashmem_inv s'"
proof -
  have r: "rng s' = rng s" using assms by (simp add: rng_def fun_eq_iff)
  show ?thesis using assms(1) unfolding ashmem_inv_def area_inv_def assms(2-) r by blast
qed

lemma ashmem_inv_set_area:
  assumes inv: "ashmem_inv s" and "areas s a = Some A" and l: "unpinned_list A' = unpinned_list A"
    and "unpinned_list A \<noteq> [] \<Longrightarrow> afile A' \<noteq> None"
  shows "ashmem_inv (set_area a A' s)"
proof -
  have "area_inv (set_area a A' s) b B" if "areas (set_area a A' s) b = Some B" for b B
    using that inv_area [OF inv, of b] assms(2-) by (auto simp: area_inv_def split: if_splits)
  moreover have "\<exists>B. areas (set_area a A' s) (asma R) = Some B \<and> r \<in> set (unpinned_list B)"
    if "ranges s r = Some R" for r R
    using that assms(2,3) by (auto elim: inv_rangeE [OF inv])
  ultimately show ?thesis using inv_lru [OF inv] by (simp add: ashmem_inv_def)
qed

lemma ashmem_inv_new_area:
  assumes inv: "ashmem_inv s" and "areas s a = None" and "unpinned_list A = []"
  shows "ashmem_inv (set_area a A s)"
proof -
  have "area_inv (set_area a A s) b B" if "areas (set_area a A s) b = Some B" for b B
    using that inv_area [OF inv, of b] assms(2-) by (auto simp: area_inv_def split: if_splits)
  moreover have "\<exists>B. areas (set_area a A s) (asma R) = Some B \<and> r \<in> set (unpinned_list B)"
    if "ranges s r = Some R" for r R
    using that assms(2,3) by (auto elim!: inv_rangeE [OF inv])
  ultimately show ?thesis using inv_lru [OF inv] by (simp add: ashmem_inv_def)
qed

lemma ashmem_inv_release:
  assumes inv: "ashmem_inv s" and A: "areas s a = Some A"
  shows "ashmem_inv (fst (ashmem_release a s))"
    and "b \<noteq> a \<Longrightarrow> upages b (fst (ashmem_release a s)) = upages b s \<and>
      ppages b (fst (ashmem_release a s)) = ppages b s"
proof -
  let ?s = "fold range_del (unpinned_list A) s" and ?t = "fst (ashmem_release a s)"
  have f: "areas ?t = (areas ?s)(a := None)" "ranges ?t = ranges ?s" "rng ?t = rng ?s"
    "ashmem_lru_list ?t = ashmem_lru_list ?s" "lru_count ?t = lru_count ?s"
    by (simp_all add: ashmem_release_def A Let_def rng_def fun_eq_iff)
  have d: "ashmem_inv ?s" "areas ?s a = Some (A\<lparr>unpinned_list := []\<rparr>)"
    "b \<noteq> a \<Longrightarrow> upages b ?s = upages b s \<and> ppages b ?s = ppages b s"
    using ashmem_inv_del_all [OF inv A order_refl area_inv_distinct [OF inv_area [OF inv A]]] by simp_all
  have "area_inv ?t c C" if "areas ?t c = Some C" for c C
    using that inv_area [OF d(1), of c C] by (auto simp: f area_inv_def split: if_splits)
  moreover have "\<exists>C. areas ?t (asma R) = Some C \<and> r \<in> set (unpinned_list C)" if "ranges ?s r = Some R" for r R
    using that d(2) by (auto simp: f elim!: inv_rangeE [OF d(1)])
  ultimately show "ashmem_inv ?t" using inv_lru [OF d(1)] by (simp add: ashmem_inv_def f)
  show "upages b ?t = upages b s \<and> ppages b ?t = ppages b s" if "b \<noteq> a"
    using d(3) [OF that] that by (simp add: upages_def ppages_def ulist_def f)
qed


definition fresh :: "nat option \<Rightarrow> ashmem_state \<Rightarrow> bool" where
  "fresh mem s \<longleftrightarrow> (case mem of None \<Rightarrow> True | Some n \<Rightarrow> ranges s n = None)"

lemma ashmem_pin_correct:
  assumes "ashmem_inv s" and "areas s a = Some A" and "fresh mem s" and "ps \<le> pe"
  shows "takes_out a {ps..pe} (mem \<noteq> None) s (fst (ashmem_pin mem a ps pe s)) \<and>
         snd (ashmem_pin mem a ps pe s) = (if ppages a s \<inter> {ps..pe} = {} then 0 else 1)"
proof -
  have "pin_ready mem a {ps..pe} (unpinned_list A) s"
    unfolding pin_ready_def using assms by (auto simp: fresh_def)
  from pin_loop_correct [OF this assms(4), of False] assms(2) show ?thesis
    by (auto simp: ashmem_pin_def split: prod.splits)
qed

lemma ashmem_unpin_correct:
  assumes "ashmem_inv s" and "areas s a = Some A" and "afile A \<noteq> None" and "ranges s n = None" and "ps \<le> pe"
  shows "puts_in a {ps..pe} False s (fst (ashmem_unpin (Some n) a ps pe s)) \<and>
         snd (ashmem_unpin (Some n) a ps pe s) = 0"
  using unpin_loop_correct [OF assms(1-3,5,4), of False] by (simp add: ashmem_unpin_def)

lemma ashmem_get_pin_status_correct:
  assumes "ashmem_inv s" and "areas s a = Some A" and "ps \<le> pe"
  shows "ashmem_get_pin_status a ps pe s = (if upages a s \<inter> {ps..pe} = {} then 1 else 0)"
  using pin_status_correct [OF assms, of "[]"] assms(2) by (simp add: ashmem_get_pin_status_def)

text \<open>A request that names at least one page, if it is accepted.\<close>

definition nonempty_request :: "nat \<Rightarrow> (u32 \<times> u32) option \<Rightarrow> ashmem_state \<Rightarrow> bool" where
  "nonempty_request a p s \<longleftrightarrow>
     (case Option.bind p (pin_request (asize (area s a))) of None \<Rightarrow> True | Some (ps, pe) \<Rightarrow> ps \<le> pe)"

lemma ashmem_inv_pin_unpin:
  assumes inv: "ashmem_inv s" and A: "areas s a = Some A" and m: "fresh mem s" and ne: "nonempty_request a p s"
  shows "ashmem_inv (fst (ashmem_pin_unpin mem a cmd p s))"
proof (cases "afile A = None \<or> p = None \<or> pin_request (asize A) (the p) = None")
  case True
  then show ?thesis using inv A by (auto simp: ashmem_pin_unpin_def split: option.splits)
next
  case False
  then obtain q ps pe where q: "p = Some q" "pin_request (asize A) q = Some (ps, pe)" and f: "afile A \<noteq> None" by auto
  have le: "ps \<le> pe" using ne q A by (simp add: nonempty_request_def)
  have "ashmem_inv (fst (ashmem_unpin mem a ps pe s))"
  proof (cases mem)
    case None
    then show ?thesis using unpin_loop_None [OF inv A le] by (simp add: ashmem_unpin_def)
  next
    case (Some n)
    then show ?thesis using ashmem_unpin_correct [OF inv A f _ le, of n] m
      by (simp add: fresh_def puts_in_def)
  qed
  moreover have "ashmem_inv (fst (ashmem_pin mem a ps pe s))"
    using ashmem_pin_correct [OF inv A m le] by (auto dest: takes_out_inv)
  ultimately show ?thesis using q f A inv by (cases cmd) (simp_all add: ashmem_pin_unpin_def)
qed

lemma ashmem_shrink_ok:
  assumes "ashmem_inv s"
  shows "\<exists>s' ret. ashmem_shrink nr fs s = Some (s', ret) \<and> shrinks s s'"
proof -
  obtain s' where "shrink_loop (ashmem_lru_list s) nr s = Some s'" "shrinks s s'"
    using shrink_loop_ok [OF assms refl, of nr] by blast
  then show ?thesis using shrinks_refl [OF assms] by (auto simp: ashmem_shrink_def)
qed

lemma shrinks_inv: "shrinks s s' \<Longrightarrow> ashmem_inv s'"
  by (simp add: shrinks_def)

lemma ashmem_purge_ok:
  assumes "ashmem_inv s"
  shows "\<exists>s' t' ret. ashmem_ioctl t rie mem a ASHMEM_PURGE_ALL_CACHES s = Some (s', t', ret) \<and> shrinks s s'"
proof -
  obtain s1 r1 where 1: "ashmem_shrink 0 True s = Some (s1, r1)" "shrinks s s1"
    using ashmem_shrink_ok [OF assms] by blast
  obtain s2 r2 where 2: "ashmem_shrink r1 True s1 = Some (s2, r2)" "shrinks s1 s2"
    using ashmem_shrink_ok [OF shrinks_inv [OF 1(2)]] by blast
  show ?thesis using 1 2 shrinks_refl [OF assms] shrinks_trans [OF 1(2) 2(2)]
    by (auto simp: capable_def cap_valid_def)
qed

lemma ashmem_inv_ioctl:
  assumes inv: "ashmem_inv s" and A: "areas s a = Some A" and m: "fresh mem s"
    and ne: "\<And>c p. cmd = ASHMEM_PIN_OP c p \<Longrightarrow> nonempty_request a p s"
  shows "\<exists>s' t' ret. ashmem_ioctl t rie mem a cmd s = Some (s', t', ret) \<and> ashmem_inv s'"
proof (cases cmd)
  case (ASHMEM_SET_NAME u)
  then show ?thesis using inv A ashmem_inv_set_area [OF inv A]
    by (auto simp: set_name_def Let_def inv_area area_inv_def split: prod.splits dest: inv_area [OF inv])
next
  case (ASHMEM_SET_SIZE z)
  then show ?thesis using inv A inv_area [OF inv A]
    by (auto simp: area_inv_def intro!: ashmem_inv_set_area [OF inv A])
next
  case (ASHMEM_SET_PROT_MASK z)
  then show ?thesis using inv A inv_area [OF inv A]
    by (auto simp: set_prot_mask_def Let_def area_inv_def intro!: ashmem_inv_set_area [OF inv A])
next
  case (ASHMEM_PIN_OP c p)
  then show ?thesis using ashmem_inv_pin_unpin [OF inv A m ne, of c p c] by (auto split: prod.splits)
next
  case ASHMEM_PURGE_ALL_CACHES
  then show ?thesis using ashmem_purge_ok [OF inv] shrinks_inv by blast
qed (use inv in simp_all)

lemma ashmem_inv_mmap:
  assumes inv: "ashmem_inv s" and A: "areas s a = Some A"
  shows "ashmem_inv (fst (ashmem_mmap setup a vma s))"
  using inv A by (auto simp: ashmem_mmap_def Let_def split: sum.splits intro!: ashmem_inv_set_area [OF inv A])

section \<open>Sequences of operations\<close>

text \<open>
  One call into the driver. The allocator returns memory that is not in use; a pin request
  that is accepted names at least one page.
\<close>

inductive ashmem_step :: "ashmem_state \<Rightarrow> ashmem_state \<Rightarrow> bool" where
  step_open: "(\<And>a. mem = Some a \<Longrightarrow> areas s a = None) \<Longrightarrow> ashmem_step s (fst (ashmem_open g mem cur s))"
| step_release: "areas s a \<noteq> None \<Longrightarrow> ashmem_step s (fst (ashmem_release a s))"
| step_read: "areas s a \<noteq> None \<Longrightarrow> ashmem_step s (fst (ashmem_read rd a s))"
| step_llseek: "areas s a \<noteq> None \<Longrightarrow> ashmem_step s (fst (ashmem_llseek sk a fpos s))"
| step_mmap: "areas s a \<noteq> None \<Longrightarrow> ashmem_step s (fst (ashmem_mmap mk a vma s))"
| step_shrink: "ashmem_shrink nr fs s = Some (s', ret) \<Longrightarrow> ashmem_step s s'"
| step_ioctl: "areas s a \<noteq> None \<Longrightarrow> fresh mem s \<Longrightarrow>
     (\<And>c p. cmd = ASHMEM_PIN_OP c p \<Longrightarrow> nonempty_request a p s) \<Longrightarrow>
     ashmem_ioctl t rie mem a cmd s = Some (s', t', ret) \<Longrightarrow> ashmem_step s s'"

definition ashmem_boot :: ashmem_state where
  "ashmem_boot = \<lparr>areas = \<lambda>_. None, ranges = \<lambda>_. None, ashmem_lru_list = [], lru_count = 0,
     ashmem_area_list = [], truncated = [], f_pos = \<lambda>_. 0\<rparr>"

abbreviation ashmem_reachable :: "ashmem_state \<Rightarrow> bool" where
  "ashmem_reachable s \<equiv> ashmem_step\<^sup>*\<^sup>* ashmem_boot s"

lemma ashmem_inv_other_fields [simp]:
  "ashmem_inv (s\<lparr>ashmem_area_list := l\<rparr>) = ashmem_inv s" "ashmem_inv (s\<lparr>f_pos := p\<rparr>) = ashmem_inv s"
  by (auto elim: ashmem_inv_frame)

lemma ashmem_inv_boot: "ashmem_inv ashmem_boot"
  by (simp add: ashmem_inv_def ashmem_boot_def)

lemma ashmem_inv_step: "ashmem_step s s' \<Longrightarrow> ashmem_inv s \<Longrightarrow> ashmem_inv s'"
proof (induction rule: ashmem_step.induct)
  case (step_open mem s g cur)
  show ?case
  proof (cases mem)
    case (Some a)
    have "ashmem_inv (set_area a A s)" if "unpinned_list A = []" for A
      using ashmem_inv_new_area [OF step_open.prems step_open.hyps [OF Some] that] .
    then show ?thesis using Some step_open.prems
      by (auto simp: ashmem_open_def Let_def)
  qed (use step_open.prems in \<open>simp add: ashmem_open_def\<close>)
next
  case (step_release s a)
  then show ?case using ashmem_inv_release(1) by blast
next
  case (step_read s a rd)
  then show ?case
    by (auto simp: ashmem_read_def Let_def split: option.splits prod.splits)
next
  case (step_llseek s a sk fpos)
  then show ?case
    by (auto simp: ashmem_llseek_def Let_def split: option.splits prod.splits)
next
  case (step_mmap s a mk vma)
  then show ?case using ashmem_inv_mmap by blast
next
  case (step_shrink nr fs s s' ret)
  then show ?case using ashmem_shrink_ok [of s nr fs] shrinks_inv by fastforce
next
  case (step_ioctl s a mem cmd t rie s' t' ret)
  then obtain A where A: "areas s a = Some A" by blast
  have "\<exists>s' t' ret. ashmem_ioctl t rie mem a cmd s = Some (s', t', ret) \<and> ashmem_inv s'"
    by (rule ashmem_inv_ioctl [OF step_ioctl.prems A step_ioctl.hyps(2)]) (rule step_ioctl.hyps(3))
  with step_ioctl.hyps(4) show ?case by auto
qed

lemma ashmem_inv_reachable: "ashmem_reachable s \<Longrightarrow> ashmem_inv s"
  by (induction rule: rtranclp_induct) (auto intro: ashmem_inv_boot ashmem_inv_step)

section \<open>The interface of pinning\<close>

text \<open>
  What a client relies on: every request moves exactly its pages between pinned and unpinned,
  \<open>pin\<close> tells whether one of them was purged, and \<open>status\<close> whether one of them is unpinned.
  \<open>reclaim\<close> keeps the unpinned pages and never forgets that a page was purged.
\<close>

locale pinning =
  fixes valid :: "'s \<Rightarrow> bool" and avail :: "'m \<Rightarrow> 's \<Rightarrow> bool" and loose lost :: "'s \<Rightarrow> u32 set"
    and pin unpin :: "'m \<Rightarrow> u32 \<Rightarrow> u32 \<Rightarrow> 's \<Rightarrow> 's \<times> int"
    and status :: "u32 \<Rightarrow> u32 \<Rightarrow> 's \<Rightarrow> int"
    and reclaim :: "'s \<Rightarrow> 's \<Rightarrow> bool"
  assumes lost_loose: "lost s \<subseteq> loose s"
    and pin_valid: "valid s \<Longrightarrow> avail m s \<Longrightarrow> ps \<le> pe \<Longrightarrow> valid (fst (pin m ps pe s))"
    and pin_loose: "valid s \<Longrightarrow> avail m s \<Longrightarrow> ps \<le> pe \<Longrightarrow> loose (fst (pin m ps pe s)) = loose s - {ps..pe}"
    and pin_lost: "valid s \<Longrightarrow> avail m s \<Longrightarrow> ps \<le> pe \<Longrightarrow> lost (fst (pin m ps pe s)) = lost s - {ps..pe}"
    and pin_result: "valid s \<Longrightarrow> avail m s \<Longrightarrow> ps \<le> pe \<Longrightarrow>
      snd (pin m ps pe s) = (if lost s \<inter> {ps..pe} = {} then 0 else 1)"
    and unpin_valid: "valid s \<Longrightarrow> avail m s \<Longrightarrow> ps \<le> pe \<Longrightarrow> valid (fst (unpin m ps pe s))"
    and unpin_loose: "valid s \<Longrightarrow> avail m s \<Longrightarrow> ps \<le> pe \<Longrightarrow> loose (fst (unpin m ps pe s)) = loose s \<union> {ps..pe}"
    and unpin_lost: "valid s \<Longrightarrow> avail m s \<Longrightarrow> ps \<le> pe \<Longrightarrow> lost s \<inter> {ps..pe} = {} \<Longrightarrow>
      lost (fst (unpin m ps pe s)) = lost s"
    and status_iff: "valid s \<Longrightarrow> ps \<le> pe \<Longrightarrow> status ps pe s = (if loose s \<inter> {ps..pe} = {} then 1 else 0)"
    and reclaim_valid: "reclaim s s' \<Longrightarrow> valid s \<Longrightarrow> valid s'"
    and reclaim_loose: "reclaim s s' \<Longrightarrow> valid s \<Longrightarrow> loose s' = loose s"
    and reclaim_lost: "reclaim s s' \<Longrightarrow> valid s \<Longrightarrow> lost s \<subseteq> lost s'"
begin

lemma pin_pins:
  assumes "valid s" "avail m s" "ps \<le> pe"
  shows "status ps pe (fst (pin m ps pe s)) = 1"
  using assms by (auto simp: status_iff pin_valid pin_loose)

lemma unpin_unpins:
  assumes "valid s" "avail m s" "ps \<le> pe"
  shows "status ps pe (fst (unpin m ps pe s)) = 0"
  using assms by (auto simp: status_iff unpin_valid unpin_loose)

lemma pinned_safe:
  assumes "valid s" "reclaim s s'" "ps \<le> pe" "status ps pe s = 1"
  shows "status ps pe s' = 1"
  using assms by (simp add: status_iff reclaim_valid reclaim_loose)

text \<open>Pages that were pinned, unpinned and pinned again: the last call reports exactly what was reclaimed between.\<close>

lemma unpin_reclaim_pin:
  assumes v: "valid s" and a: "avail m s" and le: "ps \<le> pe" and pinned: "status ps pe s = 1"
    and r: "reclaim (fst (unpin m ps pe s)) s'" and a': "avail m' s'"
  shows "loose (fst (pin m' ps pe s')) = loose s \<and>
    snd (pin m' ps pe s') = (if lost s' \<inter> {ps..pe} = {} then 0 else 1) \<and>
    lost s \<subseteq> lost (fst (pin m' ps pe s'))"
proof -
  let ?u = "fst (unpin m ps pe s)"
  have d: "loose s \<inter> {ps..pe} = {}" using status_iff [OF v le] pinned by (simp split: if_splits)
  then have d': "lost s \<inter> {ps..pe} = {}" using lost_loose [of s] by blast
  note u = unpin_valid [OF v a le] unpin_loose [OF v a le] unpin_lost [OF v a le d']
  have v': "valid s'" by (rule reclaim_valid [OF r u(1)])
  have "loose (fst (pin m' ps pe s')) = loose s"
    using d by (simp add: pin_loose [OF v' a' le] reclaim_loose [OF r u(1)] u(2)) blast
  moreover have "lost s \<subseteq> lost (fst (pin m' ps pe s'))"
    using reclaim_lost [OF r u(1)] d' by (simp add: pin_lost [OF v' a' le] u(3)) blast
  ultimately show ?thesis by (simp add: pin_result [OF v' a' le])
qed

end

text \<open>A live area with its backing file.\<close>

definition backed :: "nat \<Rightarrow> ashmem_state \<Rightarrow> bool" where
  "backed a s \<longleftrightarrow> ashmem_inv s \<and> (\<exists>A. areas s a = Some A \<and> afile A \<noteq> None)"

lemma backedE:
  assumes "backed a s"
  obtains A where "ashmem_inv s" "areas s a = Some A" "afile A \<noteq> None"
  using assms unfolding backed_def by blast

lemma unpin_loop_area:
  "\<exists>l. areas (fst (unpin_loop mem a ps pe purge s)) a = map_option (\<lambda>A. A\<lparr>unpinned_list := l\<rparr>) (areas s a)"
proof (induction mem a ps pe purge s rule: unpin_loop.induct)
  case (1 mem a ps pe purge s)
  show ?case
  proof (cases "areas s a")
    case (Some A)
    show ?thesis
    proof (cases "unpin_scan s ps pe (unpinned_list A)")
      case (Merge r)
      with Some "1.IH" [of r "rng s r"] show ?thesis
        by (auto simp: unpin_loop.simps [of mem a ps] Let_def areas_range_del)
    next
      case Covered
      with Some show ?thesis
        by (auto simp: unpin_loop.simps [of mem a ps] intro: exI [of _ "unpinned_list A"])
    next
      case (Insert p)
      with Some show ?thesis
        by (cases mem) (auto simp: unpin_loop.simps [of _ a ps] range_alloc_fields
          intro: exI [of _ "unpinned_list A"])
    qed
  qed (simp add: unpin_loop.simps)
qed

lemma backed_unpin:
  assumes "backed a s" and "ranges s n = None" and "ps \<le> pe"
  shows "backed a (fst (ashmem_unpin (Some n) a ps pe s))"
proof -
  obtain A where A: "ashmem_inv s" "areas s a = Some A" "afile A \<noteq> None" using assms(1) by (elim backedE)
  obtain l where "areas (fst (ashmem_unpin (Some n) a ps pe s)) a = Some (A\<lparr>unpinned_list := l\<rparr>)"
    using unpin_loop_area [of "Some n" a ps pe False s] A(2) by (auto simp: ashmem_unpin_def)
  with ashmem_unpin_correct [OF A assms(2,3)] A(3) show ?thesis by (simp add: backed_def puts_in_def)
qed

interpretation pin: pinning "backed a" "\<lambda>n s. ranges s n = None" "upages a" "ppages a"
    "\<lambda>n. ashmem_pin (Some n) a" "\<lambda>n. ashmem_unpin (Some n) a" "ashmem_get_pin_status a" shrinks for a
proof (unfold_locales, goal_cases)
  case (1 s)
  show ?case by (auto simp: ppages_def upages_def)
next
  case (2 s n ps pe)
  then obtain A where "ashmem_inv s" "areas s a = Some A" "afile A \<noteq> None" by (elim backedE)
  with ashmem_pin_correct [of s a A "Some n" ps pe] 2 show ?case
    by (auto simp: backed_def takes_out_def fresh_def)
next
  case (3 s n ps pe)
  then obtain A where "ashmem_inv s" "areas s a = Some A" "afile A \<noteq> None" by (elim backedE)
  with ashmem_pin_correct [of s a A "Some n" ps pe] 3 show ?case by (simp add: takes_out_def fresh_def)
next
  case (4 s n ps pe)
  then obtain A where "ashmem_inv s" "areas s a = Some A" "afile A \<noteq> None" by (elim backedE)
  with ashmem_pin_correct [of s a A "Some n" ps pe] 4 show ?case by (simp add: takes_out_def fresh_def)
next
  case (5 s n ps pe)
  then obtain A where "ashmem_inv s" "areas s a = Some A" "afile A \<noteq> None" by (elim backedE)
  with ashmem_pin_correct [of s a A "Some n" ps pe] 5 show ?case by (simp add: fresh_def)
next
  case (6 s n ps pe)
  then show ?case by (rule backed_unpin)
next
  case (7 s n ps pe)
  then obtain A where "ashmem_inv s" "areas s a = Some A" "afile A \<noteq> None" by (elim backedE)
  with ashmem_unpin_correct [of s a A n ps pe] 7 show ?case by (simp add: puts_in_def)
next
  case (8 s n ps pe)
  then obtain A where "ashmem_inv s" "areas s a = Some A" "afile A \<noteq> None" by (elim backedE)
  with ashmem_unpin_correct [of s a A n ps pe] 8 show ?case by (simp add: puts_in_def)
next
  case (9 s ps pe)
  then obtain A where "ashmem_inv s" "areas s a = Some A" "afile A \<noteq> None" by (elim backedE)
  with ashmem_get_pin_status_correct [of s a A ps pe] 9 show ?case by simp
qed (auto simp: shrinks_def backed_def)

section \<open>Requests\<close>




section \<open>Purging everything\<close>



section \<open>Protection\<close>

lemma calc_vm_bits: "calc_vm_prot_bits x = x AND 7" "calc_vm_may_flags x = push_bit 4 (x AND 7)"
proof -
  have s: "x AND 1 OR x AND 2 OR x AND 4 = x AND (7 :: u32)"
    unfolding bit.conj_disj_distrib [symmetric] by simp
  show "calc_vm_prot_bits x = x AND 7"
    using s by (simp add: calc_vm_prot_bits_def calc_vm_trans_def)
  show "calc_vm_may_flags x = push_bit 4 (x AND 7)"
    unfolding s [symmetric] push_bit_or by (simp add: calc_vm_may_flags_def calc_vm_trans_def push_bit_eq_mult mult.commute)
qed

lemma bit_consts:
  "bit (7 :: u32) n \<longleftrightarrow> n < 3" "bit (0x70 :: u32) n \<longleftrightarrow> 4 \<le> n \<and> n < 7" "bit (0x08000000 :: u32) n \<longleftrightarrow> n = 27"
proof -
  have "(7 :: u32) = mask 3" "(0x70 :: u32) = push_bit 4 (mask 3)" "(0x08000000 :: u32) = push_bit 27 1"
    by (simp_all add: mask_eq_exp_minus_1)
  then show "bit (7 :: u32) n \<longleftrightarrow> n < 3" "bit (0x70 :: u32) n \<longleftrightarrow> 4 \<le> n \<and> n < 7"
    "bit (0x08000000 :: u32) n \<longleftrightarrow> n = 27"
    by (auto simp only: bit_simps) (auto simp: bit_1_iff)
qed

lemma bits_within:
  fixes f m :: u32
  assumes "(f AND NOT (m AND 7)) AND 7 = 0"
  shows "(f AND NOT (push_bit 4 (NOT m AND 7)) OR 0x08000000) AND 7 AND NOT m = 0"
    and "(f AND NOT (push_bit 4 (NOT m AND 7)) OR 0x08000000) AND 0x70 AND NOT (push_bit 4 m) = 0"
proof -
  have b: "bit ((f AND NOT (m AND 7)) AND 7) n = bit (0 :: u32) n" for n unfolding assms ..
  show "(f AND NOT (push_bit 4 (NOT m AND 7)) OR 0x08000000) AND 7 AND NOT m = 0"
  proof (rule bit_word_eqI, goal_cases)
    case (1 n)
    then show ?case using b [of n] by (auto simp only: bit_simps bit_consts bit_0_eq bot_apply bot_bool_def possible_bit_word)
  qed
  show "(f AND NOT (push_bit 4 (NOT m AND 7)) OR 0x08000000) AND 0x70 AND NOT (push_bit 4 m) = 0"
    by (rule bit_word_eqI) (auto simp only: bit_simps bit_consts bit_0_eq bot_apply bot_bool_def possible_bit_word)
qed

lemma mmap_flags:
  assumes "ashmem_mmap mk a vma s = (s', vma', 0)" and "areas s a = Some A"
    and "\<And>n z f. mk n z f \<noteq> Inl 0"
  shows "vm_flags vma' = (vm_flags vma AND NOT (push_bit 4 (NOT (prot_mask A) AND 7))) OR 0x08000000 \<and>
    (vm_flags vma AND NOT (prot_mask A AND 7)) AND 7 = 0 \<and> asize A \<noteq> 0 \<and>
    (\<exists>f. vm_file vma' = Some f \<and> areas s' a = Some (A\<lparr>afile := Some f\<rparr>) \<and> (\<forall>g. afile A = Some g \<longrightarrow> f = g))"
  using assms(1,2) assms(3)
  by (auto simp: ashmem_mmap_def Let_def calc_vm_bits split: if_splits sum.splits option.splits)

text \<open>Names.\<close>

lemma takeWhile_update_NUL:
  "k < length xs \<Longrightarrow> takeWhile (\<lambda>c. c \<noteq> CHR 0x00) (xs[k := CHR 0x00]) = take k (takeWhile (\<lambda>c. c \<noteq> CHR 0x00) xs)"
proof (induction xs arbitrary: k)
  case (Cons x xs)
  then show ?case by (cases k) auto
qed simp

lemma takeWhile_take_NUL:
  "takeWhile (\<lambda>c. c \<noteq> CHR 0x00) (take n (xs @ replicate n (CHR 0x00))) = take n (takeWhile (\<lambda>c. c \<noteq> CHR 0x00) xs)"
proof (induction xs arbitrary: n)
  case Nil
  show ?case by (cases n) auto
next
  case (Cons x xs)
  have eq: "take n (ys @ replicate (Suc n) z) = take n (ys @ replicate n z)" for n z and ys :: string
    by (simp add: min_def del: replicate_Suc)
  show ?case using Cons.IH [of "n - 1"] by (cases n) (auto simp: eq simp del: replicate_Suc)
qed

lemma takeWhile_copied:
  "takeWhile (\<lambda>c. c \<noteq> CHR 0x00) ((copied u 256)[255 := CHR 0x00]) =
     take 255 (takeWhile (\<lambda>c. c \<noteq> CHR 0x00) (fst u))"
proof -
  have l: "255 < length (copied u 256)" by (simp add: copied_def)
  show ?thesis unfolding takeWhile_update_NUL [OF l] unfolding copied_def takeWhile_take_NUL
    by (simp add: min_def)
qed

lemma pin_hole_skip:
  assumes "\<forall>x \<in> set pre. \<not> range_before_page (rng s x) ps \<and> \<not> page_range_in_range (rng s x) ps pe"
  shows "pin_loop mem a ps pe (pre @ rest) ret s = pin_loop mem a ps pe rest ret s"
  using assms by (induction pre) simp_all


section \<open>Properties\<close>

text \<open>
  An area of eight pages, opened, sized, named and mapped.
\<close>

definition example_open :: ashmem_state where
  "example_open = fst (ashmem_open 0 (Some 0) 100 ashmem_boot)"

definition example_sized :: ashmem_state where
  "example_sized = fst (the (ashmem_ioctl init_task False None 0 (ASHMEM_SET_SIZE 0x8000) example_open))"

definition example_area :: ashmem_state where
  "example_area = fst (ashmem_mmap (\<lambda>_ _ _. Inr 7) 0 \<lparr>vm_flags = 0x7B, vm_file = None, vm_shmem_ops = False\<rparr> example_sized)"

lemma example_area_eq:
  "areas example_area 0 = Some \<lparr>aname = ASHMEM_NAME_PREFIX @ replicate 256 NUL, unpinned_list = [],
     afile = Some 7, asize = 0x8000, prot_mask = 7, owner = 100\<rparr>"
  "ranges example_area = (\<lambda>_. None)" "ashmem_lru_list example_area = []"
  by (simp_all add: example_area_def example_sized_def example_open_def ashmem_mmap_def ashmem_open_def
      ashmem_boot_def calc_vm_bits area_def Let_def)

lemma example_reachable: "ashmem_reachable example_area"
proof -
  have 1: "ashmem_step ashmem_boot example_open"
    unfolding example_open_def by (rule step_open) (simp add: ashmem_boot_def)
  have 2: "ashmem_step example_open example_sized"
    by (rule step_ioctl [of _ 0 None "ASHMEM_SET_SIZE 0x8000" init_task False _ init_task 0])
      (simp_all add: example_sized_def example_open_def ashmem_open_def ashmem_boot_def fresh_def area_def)
  have 3: "ashmem_step example_sized example_area"
    unfolding example_area_def
    by (rule step_mmap) (simp add: example_sized_def example_open_def ashmem_open_def area_def)
  show ?thesis using 1 2 3 by (meson converse_rtranclp_into_rtranclp rtranclp.rtrancl_refl)
qed














text \<open>
  C21: A successful \<open>mmap\<close> of an area never grants an access outside the area's protection mask:
  the mapping's read, write and execute bits and the corresponding \<open>VM_MAY\<close> bits, which
  \<open>mprotect\<close> consults later, lie within the mask; the mapping is backed by the area's file,
  which is created once and never replaced.
\<close>

theorem ashmem_mmap_protection:
  assumes "ashmem_mmap shmem_setup a vma s = (s', vma', 0)" and "areas s a = Some A"
    and "\<forall>n z f. shmem_setup n z f \<noteq> Inl 0"
  shows "vm_flags vma' AND 7 AND NOT (prot_mask A) = 0 \<and>
    vm_flags vma' AND 0x70 AND NOT (push_bit 4 (prot_mask A)) = 0 \<and>
    (\<exists>f. vm_file vma' = Some f \<and> areas s' a = Some (A\<lparr>afile := Some f\<rparr>) \<and> (\<forall>g. afile A = Some g \<longrightarrow> f = g))"
proof -
  have m: "vm_flags vma' = (vm_flags vma AND NOT (push_bit 4 (NOT (prot_mask A) AND 7))) OR 0x08000000 \<and>
    (vm_flags vma AND NOT (prot_mask A AND 7)) AND 7 = 0 \<and> asize A \<noteq> 0 \<and>
    (\<exists>f. vm_file vma' = Some f \<and> areas s' a = Some (A\<lparr>afile := Some f\<rparr>) \<and> (\<forall>g. afile A = Some g \<longrightarrow> f = g))"
    using mmap_flags [OF assms(1,2)] assms(3) by blast
  then have "(vm_flags vma AND NOT (prot_mask A AND 7)) AND 7 = 0" by blast
  from bits_within [OF this] m show ?thesis by simp
qed

theorem ashmem_mmap_protection_witness:
  "\<exists>vma'. ashmem_mmap (\<lambda>_ _ _. Inr 7) 0 \<lparr>vm_flags = 0x7B, vm_file = None, vm_shmem_ops = False\<rparr> example_area
      = (set_area 0 (area example_area 0) example_area, vma', 0) \<and> vm_flags vma' AND 7 AND NOT 7 = 0"
proof -
  let ?r = "ashmem_mmap (\<lambda>_ _ _. Inr 7) 0 \<lparr>vm_flags = 0x7B, vm_file = None, vm_shmem_ops = False\<rparr> example_area"
  have "?r = (set_area 0 (area example_area 0) example_area, fst (snd ?r), 0)"
    by (simp add: ashmem_mmap_def example_area_eq area_def calc_vm_bits Let_def)
  with ashmem_mmap_protection [OF this example_area_eq(1)] show ?thesis
    by (intro exI [of _ "fst (snd ?r)"]) simp
qed





text \<open>
  C25: Names round trip. After a successful \<open>ASHMEM_SET_NAME\<close> the name that \<open>ASHMEM_GET_NAME\<close>
  copies out is the caller's string up to its first NUL, cut after 255 characters; an empty
  name reads back as the default one.
\<close>

theorem ashmem_name_roundtrip:
  assumes "areas s a = Some A" and "afile A = None" and "length (aname A) = 267" and "set_name u a s = (s', 0)"
    and "str = take 255 (takeWhile (\<lambda>c. c \<noteq> NUL) (fst u))"
  shows "get_name True a s' = ((if str = [] then ASHMEM_NAME_DEF else str) @ [NUL], 0)"
proof -
  define N where "N = (copied u 256)[255 := NUL]"
  have len: "length (copied u 256) = 256" by (simp add: copied_def)
  have nm: "area s' a = A\<lparr>aname := take 11 (aname A) @ N\<rparr>"
    using assms(1-4) by (auto simp: set_name_def Let_def area_def list_update_append N_def split: if_splits)
  have d: "drop 11 (aname (area s' a)) = N" "aname (area s' a) ! 11 = N ! 0"
    using assms(3) by (simp_all add: nm nth_append)
  have tw: "takeWhile (\<lambda>c. c \<noteq> NUL) N = str" unfolding N_def assms(5) by (rule takeWhile_copied)
  have "N ! 0 \<noteq> NUL \<longleftrightarrow> str \<noteq> []" using tw len by (cases N) (auto simp: N_def split: if_splits)
  then show ?thesis using tw d by (simp add: get_name_def Let_def)
qed

theorem ashmem_name_roundtrip_witness:
  "get_name True 0 (fst (set_name (''heap'', False) 0 example_sized)) = (''heap'' @ [NUL], 0)"
proof -
  have s: "areas example_sized 0 = Some \<lparr>aname = ASHMEM_NAME_PREFIX @ replicate 256 NUL, unpinned_list = [],
     afile = None, asize = 0x8000, prot_mask = 7, owner = 100\<rparr>"
    by (simp add: example_sized_def example_open_def ashmem_open_def area_def)
  have "set_name (''heap'', False) 0 example_sized = (fst (set_name (''heap'', False) 0 example_sized), 0)"
    by (simp add: set_name_def area_def s Let_def)
  from ashmem_name_roundtrip [OF s _ _ this refl] show ?thesis by simp
qed

text \<open>
  C26: Pinning a hole without memory. When a request lies strictly inside one unpinned range and
  no memory is left for the range above it, the call reports success as usual, but the pages
  above the request drop out of the unpinned set too: the shrinker can no longer reclaim
  them although nobody pinned them.
\<close>

theorem pin_hole_without_memory:
  assumes "ashmem_reachable s" and "areas s a = Some A" and "r \<in> set (unpinned_list A)"
    and "pgstart (rng s r) < ps" and "ps \<le> pe" and "pe < pgend (rng s r)"
  shows "upages a (fst (ashmem_pin None a ps pe s)) = upages a s - {ps..pgend (rng s r)} \<and>
    snd (ashmem_pin None a ps pe s) = (if purged (rng s r) then 1 else 0)"
proof -
  note inv = ashmem_inv_reachable [OF assms(1)]
  note ai = inv_area [OF inv assms(2)]
  obtain pre rest where l: "unpinned_list A = pre @ r # rest" using split_list [OF assms(3)] by blast
  have le: "pgstart (rng s x) \<le> pgend (rng s x)" if "x \<in> set (unpinned_list A)" for x
    using ai that by (auto simp: area_inv_def)
  have "\<not> range_before_page (rng s x) ps \<and> \<not> page_range_in_range (rng s x) ps pe" if x: "x \<in> set pre" for x
  proof -
    have "pgend (rng s r) < pgstart (rng s x)" using ai x l by (auto simp: area_inv_def sorted_wrt_append)
    with le [of x] x l assms(4-6) show ?thesis
      by (auto simp: range_before_page_def page_range_in_range_def page_in_range_def page_range_subsumes_range_def)
  qed
  then have "pin_loop None a ps pe (unpinned_list A) False s = pin_loop None a ps pe (r # rest) False s"
    unfolding l by (intro pin_hole_skip) blast
  also have "\<dots> = (range_shrink r (pgstart (rng s r)) (ps - 1) s, purged (rng s r))"
    using assms(4-6)
    by (auto simp: range_before_page_def page_range_in_range_def page_in_range_def page_range_subsumes_range_def Let_def)
  finally have p: "ashmem_pin None a ps pe s =
      (range_shrink r (pgstart (rng s r)) (ps - 1) s, if purged (rng s r) then 1 else 0)"
    using assms(2) by (simp add: ashmem_pin_def)
  note w = hole_words [OF assms(4-6)]
  have "takes_out a (range_pages (rng s r) - {pgstart (rng s r)..ps - 1}) True s
      (range_shrink r (pgstart (rng s r)) (ps - 1) s)"
    by (rule takes_out_range_shrink [OF inv assms(2,3)]) (simp_all add: w assms)
  moreover have "range_pages (rng s r) - {pgstart (rng s r)..ps - 1} = {ps..pgend (rng s r)}"
    using assms(4) by (auto simp: range_pages_def w(1))
  ultimately show ?thesis by (simp add: p takes_out_def)
qed

theorem pin_hole_without_memory_witness:
  "5 \<in> upages 0 (fst (ashmem_unpin (Some 3) 0 0 7 example_area)) \<and>
   5 \<notin> upages 0 (fst (ashmem_pin None 0 2 3 (fst (ashmem_unpin (Some 3) 0 0 7 example_area))))"
proof -
  let ?i = "ashmem_ioctl init_task False (Some 3) 0 (ASHMEM_PIN_OP ASHMEM_UNPIN (Some (0, 0))) example_area"
  let ?s = "fst (ashmem_unpin (Some 3) 0 0 7 example_area)"
  have req: "pin_request 0x8000 (0, 0) = Some (0, 7)" by code_simp
  have i: "?i = Some (?s, init_task, 0)"
    using ashmem_unpin_correct [OF ashmem_inv_reachable [OF example_reachable] example_area_eq(1), of 3 0 7] req
    by (auto simp: ashmem_pin_unpin_def area_def example_area_eq split: prod.splits)
  have "ashmem_step example_area ?s"
    by (rule step_ioctl [OF _ _ _ i])
      (auto simp: example_area_eq fresh_def nonempty_request_def area_def req)
  with example_reachable have reach: "ashmem_reachable ?s" by (rule rtranclp.rtrancl_into_rtrancl)
  have A: "areas ?s 0 = Some (the (areas ?s 0))" "3 \<in> set (unpinned_list (the (areas ?s 0)))"
    "pgstart (rng ?s 3) = 0" "pgend (rng ?s 3) = 7"
    by (code_simp, code_simp, code_simp, code_simp)
  have u: "{0..7} \<subseteq> upages 0 ?s"
    using pages_in_range(1) [OF ashmem_inv_reachable [OF reach] A(1,2) order_refl] by (simp add: range_pages_def A)
  show ?thesis using pin_hole_without_memory [OF reach A(1,2), of 2 3] u by (auto simp: A)
qed

end
