(* ===== verification/Logger.thy ===== *)
theory Logger
  imports Prelude
begin

text \<open>
  The Android log device: \<^verbatim>\<open>drivers/staging/android/logger.c\<close>. A log is a ring buffer of
  entries of variable length; every open reader has its own offset into it, and a writer that
  runs out of room pulls the offsets it would overwrite forward to a later entry. Offsets
  and sizes are natural numbers (they stay far below \<open>2 ^ 32\<close>); the running byte counts
  \<open>sign\<close>, added for the "logs might have been lost" warning, are 32-bit words because they
  wrap. Every handler holds the log's mutex while it uses the log, so it is one step.
\<close>

section \<open>Data\<close>

type_synonym byte = "8 word"

abbreviation (input) LOGGER_ENTRY_LEN :: nat where "LOGGER_ENTRY_LEN \<equiv> 20"
abbreviation (input) LOGGER_ENTRY_MAX_PAYLOAD :: nat where "LOGGER_ENTRY_MAX_PAYLOAD \<equiv> 4076"

record logger_reader =
  r_off :: nat
  rsign :: u32

text \<open>\<open>readers\<close> lists the readers in the order of their \<open>open\<close> calls, with the file each belongs to.\<close>

record logger_log =
  buffer :: "byte list"
  readers :: "(nat \<times> logger_reader) list"
  w_off :: nat
  lhead :: nat
  lsize :: nat
  lsign :: u32

definition logger_offset :: "logger_log \<Rightarrow> nat \<Rightarrow> nat" where
  "logger_offset log n = n AND (lsize log - 1)"

definition get_entry_len :: "logger_log \<Rightarrow> nat \<Rightarrow> nat" where
  "get_entry_len log off =
     (let (lo, hi) = (if lsize log - off = 1 then (buffer log ! off, buffer log ! 0)
                      else (buffer log ! off, buffer log ! (off + 1)))
      in LOGGER_ENTRY_LEN + (unat lo + 256 * unat hi))"

section \<open>Reading\<close>

text \<open>
  What a read does: it waits, or it returns a value and the bytes it copied out. The user
  buffer may fault in the first, in the second or in the warning's copy.
\<close>

datatype read_result = Blocked | Ret int "byte list"

definition do_read_log_to_user ::
    "logger_log \<Rightarrow> logger_reader \<Rightarrow> bool \<Rightarrow> bool \<Rightarrow> nat \<Rightarrow> logger_reader \<times> read_result" where
  "do_read_log_to_user log rd fault1 fault2 cnt =
     (let len = min cnt (lsize log - r_off rd) in
      if fault1 then (rd, Ret (- EFAULT) [])
      else if cnt \<noteq> len \<and> fault2 then (rd, Ret (- EFAULT) [])
      else
        (let bytes = take len (drop (r_off rd) (buffer log)) @ take (cnt - len) (buffer log)
         in (rd\<lparr>r_off := logger_offset log (r_off rd + cnt), rsign := rsign rd + of_nat cnt\<rparr>,
             Ret (int cnt) bytes)))"

definition is_overflow :: "nat \<Rightarrow> u32 \<Rightarrow> u32 \<Rightarrow> bool" where
  "is_overflow sz cw lw \<longleftrightarrow> sint (cw - lw) \<ge> int sz"

function show_nat :: "nat \<Rightarrow> string" where
  "show_nat n = (if n < 10 then [char_of (48 + n)] else show_nat (n div 10) @ [char_of (48 + n mod 10)])"
  by pat_completeness auto
termination by (relation "measure id") auto

definition show_long :: "int \<Rightarrow> string" where
  "show_long i = (if i < 0 then ''-'' @ show_nat (nat (- i)) else show_nat (nat i))"

definition warn_text :: "u32 \<Rightarrow> string" where
  "warn_text d = ''some logs might have been lost ('' @ show_long (sint d) @ '' bytes estimated)''"

text \<open>The message of the warning: 20 bytes of header, the tag, the text and its terminating NUL.\<close>

definition warn_message :: "u32 \<Rightarrow> byte list" where
  "warn_message d =
     (let txt = warn_text d
      in [of_nat (length txt + 6), 0, 0, 0] @ replicate 16 0 @ [5, 65, 69, 69, 0] @ map of_char txt @ [0])"

text \<open>
  The sign of a reader at offset \<open>off\<close>: the log's own sign moved back to that offset. The
  remainder and the sum are unsigned, the comparison is signed.
\<close>

definition sign_at :: "logger_log \<Rightarrow> nat \<Rightarrow> u32" where
  "sign_at log off =
     (let g = lsign log - lsign log mod of_nat (lsize log) + of_nat off
      in if sint g > sint (lsign log) then g - of_nat (lsize log) else g)"

definition warn_overflow ::
    "logger_log \<Rightarrow> logger_reader \<Rightarrow> bool \<Rightarrow> logger_reader \<times> read_result" where
  "warn_overflow log rd fault =
     (let m = warn_message (lsign log - rsign rd) in
      if fault then (rd, Ret (- EFAULT) [])
      else (rd\<lparr>rsign := sign_at log (r_off rd)\<rparr>, Ret (int (length m)) m))"

text \<open>
  \<open>faults\<close>: whether the warning's copy, the first and the second copy of an entry fault. A
  reader that has nothing to read returns at once, is interrupted, or waits and tries again.
\<close>

definition logger_read ::
    "bool \<Rightarrow> bool \<Rightarrow> nat \<Rightarrow> bool \<times> bool \<times> bool \<Rightarrow> logger_log \<Rightarrow> logger_reader \<Rightarrow> logger_reader \<times> read_result" where
  "logger_read nonblock signal_pending cnt faults log rd =
     (case faults of (faultw, fault1, fault2) \<Rightarrow>
      if w_off log = r_off rd
      then (if nonblock then (rd, Ret (- EAGAIN) [])
            else if signal_pending then (rd, Ret (- EINTR) [])
            else (rd, Blocked))
      else if is_overflow (lsize log) (lsign log) (rsign rd) then warn_overflow log rd faultw
      else
        (let ret = get_entry_len log (r_off rd) in
         if cnt < ret then (rd, Ret (- EINVAL) [])
         else do_read_log_to_user log rd fault1 fault2 ret))"

section \<open>Writing\<close>

text \<open>The \<open>do ... while (count < len)\<close> loop; every entry has a header, so it ends.\<close>

function next_entry_loop :: "logger_log \<Rightarrow> nat \<Rightarrow> nat \<Rightarrow> nat \<Rightarrow> nat" where
  "next_entry_loop log off cnt len =
     (let nr = get_entry_len log off;
          off' = logger_offset log (off + nr);
          cnt' = cnt + nr
      in if cnt' < len then next_entry_loop log off' cnt' len else off')"
  by pat_completeness auto
termination
  by (relation "measure (\<lambda>(log, off, cnt, len). len - cnt)") (auto simp: get_entry_len_def split_beta)

definition get_next_entry :: "logger_log \<Rightarrow> nat \<Rightarrow> nat \<Rightarrow> nat" where
  "get_next_entry log off len = next_entry_loop log off 0 len"

definition clock_interval :: "nat \<Rightarrow> nat \<Rightarrow> nat \<Rightarrow> bool" where
  "clock_interval a b c \<longleftrightarrow> (if b < a then a < c \<or> b \<ge> c else a < c \<and> b \<ge> c)"

definition pull :: "logger_log \<Rightarrow> nat \<Rightarrow> nat \<Rightarrow> nat" where
  "pull log len off =
     (if clock_interval (w_off log) (logger_offset log (w_off log + len)) off
      then get_next_entry log off len else off)"

definition fix_up_readers :: "logger_log \<Rightarrow> nat \<Rightarrow> logger_log" where
  "fix_up_readers log len =
     log\<lparr>lhead := pull log len (lhead log),
         readers := map (\<lambda>(f, rd). (f, rd\<lparr>r_off := pull log len (r_off rd)\<rparr>)) (readers log)\<rparr>"

text \<open>\<open>memcpy\<close> into the buffer.\<close>

definition memcpy_at :: "byte list \<Rightarrow> nat \<Rightarrow> byte list \<Rightarrow> byte list" where
  "memcpy_at buf off bs = take off buf @ bs @ drop (off + length bs) buf"

definition do_write_log :: "logger_log \<Rightarrow> byte list \<Rightarrow> logger_log" where
  "do_write_log log bs =
     (let cnt = length bs;
          len = min cnt (lsize log - w_off log);
          buf = memcpy_at (buffer log) (w_off log) (take len bs);
          buf = (if cnt \<noteq> len then memcpy_at buf 0 (drop len bs) else buf)
      in log\<lparr>buffer := buf, w_off := logger_offset log (w_off log + cnt), lsign := lsign log + of_nat cnt\<rparr>)"

text \<open>
  \<open>copy_from_user\<close> of \<open>n\<close> bytes of which only the bytes \<open>u\<close> are readable: it fails when they
  are too few, and then the rest of the kernel's copy is zero.
\<close>

definition user_copy :: "byte list \<Rightarrow> nat \<Rightarrow> byte list \<times> bool" where
  "user_copy u n = (take n (u @ replicate n 0), length u < n)"

definition do_write_log_from_user :: "logger_log \<Rightarrow> byte list \<Rightarrow> nat \<Rightarrow> logger_log \<times> int" where
  "do_write_log_from_user log u cnt =
     (let len = min cnt (lsize log - w_off log);
          (bs1, fault1) = user_copy u len;
          log1 = log\<lparr>buffer := memcpy_at (buffer log) (w_off log) bs1\<rparr> in
      if fault1 then (log1, - EFAULT)
      else
        (let (bs2, fault2) = user_copy (drop len u) (cnt - len);
             log2 = (if cnt \<noteq> len then log1\<lparr>buffer := memcpy_at (buffer log1) 0 bs2\<rparr> else log1) in
         if cnt \<noteq> len \<and> fault2 then (log2, - EFAULT)
         else (log2\<lparr>w_off := logger_offset log (w_off log + cnt), lsign := lsign log + of_nat cnt\<rparr>, int cnt)))"

text \<open>One segment of the vector: its length and the bytes of it that can be read.\<close>

type_synonym iovec = "nat \<times> byte list"

text \<open>The loop over the segments; \<open>hlen\<close> is the length in the header.\<close>

fun write_segs :: "logger_log \<Rightarrow> nat \<Rightarrow> nat \<Rightarrow> iovec list \<Rightarrow> nat \<Rightarrow> logger_log \<times> int" where
  "write_segs log orig hlen [] ret = (log, int ret)"
| "write_segs log orig hlen ((iov_len, u) # segs) ret =
     (let len = min iov_len (hlen - ret);
          (log', nr) = do_write_log_from_user log u len
      in if nr < 0 then (log'\<lparr>w_off := orig\<rparr>, nr) else write_segs log' orig hlen segs (ret + nat nr))"

definition le16 :: "nat \<Rightarrow> byte list" where
  "le16 n = [of_nat n, of_nat (n div 256)]"

definition le32 :: "u32 \<Rightarrow> byte list" where
  "le32 x = [ucast x, ucast (drop_bit 8 x), ucast (drop_bit 16 x), ucast (drop_bit 24 x)]"

text \<open>
  What a write takes from outside: the caller's ids, the two clocks, and the 20 bytes of stack
  that the header occupies (its padding is never set).
\<close>

record write_env =
  wtgid :: u32
  wpid :: u32
  getnstimeofday :: "u32 \<times> u32"
  cpu_clock_now :: "u32 \<times> u32"
  hdr_stack :: "byte list"

definition header_fields :: "write_env \<Rightarrow> u32 \<times> u32 \<Rightarrow> nat \<Rightarrow> byte list" where
  "header_fields env now len =
     le16 len @ take 2 (drop 2 (hdr_stack env)) @ le32 (wtgid env) @ le32 (wpid env) @
     le32 (fst now) @ le32 (snd now)"

definition entry_header :: "int \<Rightarrow> write_env \<Rightarrow> nat \<Rightarrow> nat \<times> byte list" where
  "entry_header g_ts_switch env ki_left =
     (let len = min ki_left LOGGER_ENTRY_MAX_PAYLOAD in
      if g_ts_switch = 0 then (len, header_fields env (getnstimeofday env) len)
      else if g_ts_switch = 1 then (len, header_fields env (cpu_clock_now env) len)
      else (unat (hdr_stack env ! 0) + 256 * unat (hdr_stack env ! 1), hdr_stack env))"

text \<open>
  The write handler. \<open>orig\<close> is the write offset as it was read before the mutex was taken,
  \<open>ki_left\<close> the length of the request.
\<close>

definition logger_aio_write ::
    "int \<Rightarrow> write_env \<Rightarrow> nat \<Rightarrow> nat \<Rightarrow> iovec list \<Rightarrow> logger_log \<Rightarrow> logger_log \<times> int" where
  "logger_aio_write g_ts_switch env orig ki_left segs log =
     (let (hlen, header) = entry_header g_ts_switch env ki_left in
      if hlen = 0 then (log, 0)
      else
        (let log = fix_up_readers log (LOGGER_ENTRY_LEN + hlen);
             log = do_write_log log header
         in write_segs log orig hlen segs 0))"

section \<open>The device\<close>

datatype log_name = Log_main | Log_events | Log_radio | Log_system

record log_file =
  fmode_read :: bool
  fmode_write :: bool
  o_nonblock :: bool
  flog :: log_name

record logger_state =
  logs :: "log_name \<Rightarrow> logger_log"
  lfiles :: "nat \<Rightarrow> log_file option"
  g_ts_switch :: int

definition define_logger_device :: "nat \<Rightarrow> logger_log" where
  "define_logger_device sz =
     \<lparr>buffer = replicate sz 0, readers = [], w_off = 0, lhead = 0, lsize = sz, lsign = 0\<rparr>"

fun boot_log :: "log_name \<Rightarrow> logger_log" where
  "boot_log Log_main = define_logger_device (64 * 1024)"
| "boot_log Log_events = define_logger_device (256 * 1024)"
| "boot_log Log_radio = define_logger_device (64 * 1024)"
| "boot_log Log_system = define_logger_device (64 * 1024)"

definition logger_boot :: logger_state where
  "logger_boot = \<lparr>logs = boot_log, lfiles = \<lambda>_. None, g_ts_switch = 0\<rparr>"

definition get_log_from_minor :: "(log_name \<Rightarrow> int) \<Rightarrow> int \<Rightarrow> log_name option" where
  "get_log_from_minor minors minor =
     (if minors Log_main = minor then Some Log_main
      else if minors Log_events = minor then Some Log_events
      else if minors Log_radio = minor then Some Log_radio
      else if minors Log_system = minor then Some Log_system
      else None)"

definition set_log :: "log_name \<Rightarrow> logger_log \<Rightarrow> logger_state \<Rightarrow> logger_state" where
  "set_log n log s = s\<lparr>logs := (logs s)(n := log)\<rparr>"

definition set_reader :: "nat \<Rightarrow> logger_reader \<Rightarrow> logger_log \<Rightarrow> logger_log" where
  "set_reader f rd log = log\<lparr>readers := map (\<lambda>(g, x). (g, if g = f then rd else x)) (readers log)\<rparr>"

text \<open>\<open>f\<close> is the new file, \<open>fl\<close> its mode and flags, \<open>mem\<close> whether the reader can be allocated.\<close>

definition logger_open ::
    "int \<Rightarrow> (log_name \<Rightarrow> int) \<Rightarrow> int \<Rightarrow> bool \<Rightarrow> nat \<Rightarrow> log_file \<Rightarrow> logger_state \<Rightarrow> logger_state \<times> int" where
  "logger_open nonseekable minors minor mem f fl s =
     (if nonseekable \<noteq> 0 then (s, nonseekable)
      else (case get_log_from_minor minors minor of
              None \<Rightarrow> (s, - ENODEV)
            | Some n \<Rightarrow>
                if fmode_read fl
                then (if \<not> mem then (s, - ENOMEM)
                      else
                        (let log = logs s n;
                             rd = \<lparr>r_off = lhead log, rsign = sign_at log (lhead log)\<rparr>;
                             s = set_log n (log\<lparr>readers := readers log @ [(f, rd)]\<rparr>) s
                         in (s\<lparr>lfiles := (lfiles s)(f \<mapsto> fl\<lparr>flog := n\<rparr>)\<rparr>, 0)))
                else (s\<lparr>lfiles := (lfiles s)(f \<mapsto> fl\<lparr>flog := n\<rparr>)\<rparr>, 0)))"

definition logger_release :: "nat \<Rightarrow> log_file \<Rightarrow> logger_state \<Rightarrow> logger_state \<times> int" where
  "logger_release f fl s =
     (let s = (if fmode_read fl
               then (let log = logs s (flog fl)
                     in set_log (flog fl) (log\<lparr>readers := [(g, rd) \<leftarrow> readers log. g \<noteq> f]\<rparr>) s)
               else s)
      in (s\<lparr>lfiles := (lfiles s)(f := None)\<rparr>, 0))"

definition file_reader :: "nat \<Rightarrow> logger_log \<Rightarrow> logger_reader" where
  "file_reader f log = the (map_of (readers log) f)"

abbreviation (input) POLLIN :: u32 where "POLLIN \<equiv> 1"
abbreviation (input) POLLOUT :: u32 where "POLLOUT \<equiv> 4"
abbreviation (input) POLLRDNORM :: u32 where "POLLRDNORM \<equiv> 0x40"
abbreviation (input) POLLWRNORM :: u32 where "POLLWRNORM \<equiv> 0x100"

definition logger_poll :: "nat \<Rightarrow> log_file \<Rightarrow> logger_state \<Rightarrow> u32" where
  "logger_poll f fl s =
     (let ret = POLLOUT OR POLLWRNORM in
      if \<not> fmode_read fl then ret
      else
        (let log = logs s (flog fl)
         in if w_off log \<noteq> r_off (file_reader f log) then ret OR (POLLIN OR POLLRDNORM) else ret))"

datatype logger_cmd =
  LOGGER_GET_LOG_BUF_SIZE | LOGGER_GET_LOG_LEN | LOGGER_GET_NEXT_ENTRY_LEN | LOGGER_FLUSH_LOG | LOGGER_OTHER

definition log_len :: "logger_log \<Rightarrow> nat \<Rightarrow> nat" where
  "log_len log off = (if w_off log \<ge> off then w_off log - off else lsize log - off + w_off log)"

definition flush_log :: "logger_log \<Rightarrow> logger_log" where
  "flush_log log =
     log\<lparr>readers := map (\<lambda>(f, rd). (f, rd\<lparr>r_off := w_off log\<rparr>)) (readers log), lhead := w_off log\<rparr>"

definition logger_ioctl :: "nat \<Rightarrow> log_file \<Rightarrow> logger_cmd \<Rightarrow> logger_state \<Rightarrow> logger_state \<times> int" where
  "logger_ioctl f fl cmd s =
     (let log = logs s (flog fl); rd = file_reader f log in
      case cmd of
        LOGGER_GET_LOG_BUF_SIZE \<Rightarrow> (s, int (lsize log))
      | LOGGER_GET_LOG_LEN \<Rightarrow>
          if \<not> fmode_read fl then (s, - EBADF) else (s, int (log_len log (r_off rd)))
      | LOGGER_GET_NEXT_ENTRY_LEN \<Rightarrow>
          if \<not> fmode_read fl then (s, - EBADF)
          else if w_off log \<noteq> r_off rd then (s, int (get_entry_len log (r_off rd)))
          else (s, 0)
      | LOGGER_FLUSH_LOG \<Rightarrow>
          if \<not> fmode_write fl then (s, - EBADF) else (set_log (flog fl) (flush_log log) s, 0)
      | LOGGER_OTHER \<Rightarrow> (s, - ENOTTY))"

text \<open>The switch in \<^verbatim>\<open>/proc\<close> that selects the clock.\<close>

definition ts_switch_read :: "nat \<Rightarrow> nat \<Rightarrow> logger_state \<Rightarrow> string \<times> nat" where
  "ts_switch_read off cnt s =
     (let txt = show_long (g_ts_switch s) @ [CHR 0x0A];
          len = (if length txt > off then length txt - off else 0)
      in (drop off txt, min len cnt))"

definition ts_switch_write :: "char option \<Rightarrow> nat \<Rightarrow> logger_state \<Rightarrow> logger_state \<times> int" where
  "ts_switch_write buf cnt s =
     (case buf of
        None \<Rightarrow> (s, 0)
      | Some c \<Rightarrow>
          (if c = CHR ''0'' then s\<lparr>g_ts_switch := 0\<rparr>
           else if c = CHR ''1'' then s\<lparr>g_ts_switch := 1\<rparr>
           else s, int cnt))"

text \<open>The system calls on an open file.\<close>

definition logger_read_file ::
    "nat \<Rightarrow> log_file \<Rightarrow> bool \<Rightarrow> nat \<Rightarrow> bool \<times> bool \<times> bool \<Rightarrow> logger_state \<Rightarrow> logger_state \<times> read_result" where
  "logger_read_file f fl signal_pending cnt faults s =
     (let log = logs s (flog fl);
          (rd, res) = logger_read (o_nonblock fl) signal_pending cnt faults log (file_reader f log)
      in (set_log (flog fl) (set_reader f rd log) s, res))"

definition logger_write_file ::
    "log_file \<Rightarrow> write_env \<Rightarrow> nat \<Rightarrow> nat \<Rightarrow> iovec list \<Rightarrow> logger_state \<Rightarrow> logger_state \<times> int" where
  "logger_write_file fl env orig ki_left segs s =
     (let (log, ret) = logger_aio_write (g_ts_switch s) env orig ki_left segs (logs s (flog fl))
      in (set_log (flog fl) log s, ret))"

end
