(* ===== verification/Logger_Props.thy ===== *)
theory Logger_Props
  imports Logger
begin

text \<open>
  The log device of \<^verbatim>\<open>drivers/staging/android/logger.c\<close> refines one queue of entries per
  reader: the ring as a list, the entries from an offset up to the write offset, what every
  operation does to them, and when a reader is told that it lost entries.
\<close>

section \<open>The ring\<close>

definition wf_log :: "logger_log \<Rightarrow> bool" where
  "wf_log log \<longleftrightarrow> (\<exists>k. 13 \<le> k \<and> k \<le> 30 \<and> lsize log = 2 ^ k) \<and> length (buffer log) = lsize log \<and>
     w_off log < lsize log"

lemma wf_log_size:
  assumes "wf_log log"
  shows "8192 \<le> lsize log" "0 < lsize log" "length (buffer log) = lsize log" "w_off log < lsize log"
    "lsize log \<le> 2 ^ 30"
proof -
  obtain k where k: "13 \<le> k" "k \<le> 30" "lsize log = 2 ^ k" using assms by (auto simp: wf_log_def)
  have "(2::nat) ^ 13 \<le> 2 ^ k" "(2::nat) ^ k \<le> 2 ^ 30" using k by (simp_all only: power_increasing_iff) 
  then show "8192 \<le> lsize log" "0 < lsize log" "lsize log \<le> 2 ^ 30" using k by auto
  show "length (buffer log) = lsize log" "w_off log < lsize log" using assms by (simp_all add: wf_log_def)
qed

lemma logger_offset_mod:
  assumes "wf_log log"
  shows "logger_offset log n = n mod lsize log"
proof -
  obtain k where "lsize log = 2 ^ k" using assms by (auto simp: wf_log_def)
  then show ?thesis unfolding logger_offset_def by (metis take_bit_eq_mod take_bit_eq_mask mask_eq_exp_minus_1)
qed

text \<open>The position of index \<open>j\<close> behind \<open>off\<close> on a ring of \<open>n\<close> places.\<close>

definition dist :: "nat \<Rightarrow> nat \<Rightarrow> nat \<Rightarrow> nat" where
  "dist n off j = (if off \<le> j then j - off else n + j - off)"

lemma mod_once: "x < (2::nat) * n \<Longrightarrow> x mod n = (if x < n then x else x - n)"
  by (simp add: le_mod_geq)

lemma dist_mod: "off < n \<Longrightarrow> i < n \<Longrightarrow> dist n off ((off + i) mod n) = i"
  by (auto simp: mod_once dist_def)

lemma mod_dist: "off < n \<Longrightarrow> j < n \<Longrightarrow> (off + dist n off j) mod n = j"
  by (auto simp: mod_once dist_def)

lemma dist_less: "off < n \<Longrightarrow> j < n \<Longrightarrow> dist n off j < n"
  by (auto simp: dist_def)

definition ring :: "byte list \<Rightarrow> nat \<Rightarrow> nat \<Rightarrow> byte list" where
  "ring buf off n = map (\<lambda>i. buf ! ((off + i) mod length buf)) [0..<n]"

lemma length_ring [simp]: "length (ring buf off n) = n"
  by (simp add: ring_def)

lemma ring_nth: "i < n \<Longrightarrow> ring buf off n ! i = buf ! ((off + i) mod length buf)"
  by (simp add: ring_def)

lemma ring_append: "ring buf off (m + n) = ring buf off m @ ring buf ((off + m) mod length buf) n"
proof (rule nth_equalityI)
  fix i assume "i < length (ring buf off (m + n))"
  moreover have "((off + m) mod length buf + (i - m)) mod length buf = (off + i) mod length buf" if "\<not> i < m"
  proof -
    from that have "m \<le> i" by simp
    then obtain k where "i = m + k" by (rule less_eqE)
    then show ?thesis by (simp add: mod_add_left_eq add.assoc)
  qed
  ultimately show "ring buf off (m + n) ! i = (ring buf off m @ ring buf ((off + m) mod length buf) n) ! i"
    by (simp add: ring_nth nth_append)
qed simp

definition rput :: "byte list \<Rightarrow> nat \<Rightarrow> byte list \<Rightarrow> byte list" where
  "rput buf off bs =
     (let len = min (length bs) (length buf - off);
          b = memcpy_at buf off (take len bs)
      in if length bs \<noteq> len then memcpy_at b 0 (drop len bs) else b)"

lemma length_memcpy_at: "off + length bs \<le> length buf \<Longrightarrow> length (memcpy_at buf off bs) = length buf"
  by (simp add: memcpy_at_def)

lemma nth_memcpy_at:
  "off + length bs \<le> length buf \<Longrightarrow> j < length buf \<Longrightarrow>
     memcpy_at buf off bs ! j = (if off \<le> j \<and> j < off + length bs then bs ! (j - off) else buf ! j)"
  by (auto simp: memcpy_at_def nth_append min_def)

lemma length_rput: "off < length buf \<Longrightarrow> length bs \<le> length buf \<Longrightarrow> length (rput buf off bs) = length buf"
  by (simp add: rput_def Let_def length_memcpy_at)

lemma nth_rput:
  assumes "off < length buf" "length bs \<le> length buf" "j < length buf"
  shows "rput buf off bs ! j =
    (if dist (length buf) off j < length bs then bs ! dist (length buf) off j else buf ! j)"
proof (cases "length bs \<le> length buf - off")
  case True
  then have "rput buf off bs = memcpy_at buf off bs" by (simp add: rput_def Let_def min_def)
  then show ?thesis using assms True by (auto simp: nth_memcpy_at dist_def)
next
  case False
  then have r: "rput buf off bs = memcpy_at (memcpy_at buf off (take (length buf - off) bs)) 0 (drop (length buf - off) bs)"
    by (simp add: rput_def Let_def min_def)
  have l: "length (memcpy_at buf off (take (length buf - off) bs)) = length buf"
    using assms False by (intro length_memcpy_at) simp
  show ?thesis
  proof (cases "j < length bs - (length buf - off)")
    case True
    then have "j < off" using assms by linarith
    then show ?thesis using True assms False l
      by (auto simp: r nth_memcpy_at dist_def add.commute)
  next
    case out: False
    have "rput buf off bs ! j = memcpy_at buf off (take (length buf - off) bs) ! j"
      using out assms False l by (simp add: r nth_memcpy_at)
    also have "\<dots> = (if off \<le> j then bs ! (j - off) else buf ! j)"
      using assms False by (simp add: nth_memcpy_at)
    finally show ?thesis using out assms False by (auto simp: dist_def)
  qed
qed

lemma rput_rput:
  assumes "off < length buf" "length bs + length cs \<le> length buf"
  shows "rput (rput buf off bs) ((off + length bs) mod length buf) cs = rput buf off (bs @ cs)"
proof (rule nth_equalityI)
  have b: "0 < length buf" using assms by linarith
  have l: "length (rput buf off bs) = length buf" using assms by (simp add: length_rput)
  have m: "(off + length bs) mod length buf < length buf" using b by simp
  show "length (rput (rput buf off bs) ((off + length bs) mod length buf) cs) = length (rput buf off (bs @ cs))"
    using assms m by (simp add: length_rput l)
  fix j assume "j < length (rput (rput buf off bs) ((off + length bs) mod length buf) cs)"
  then have j: "j < length buf" using assms m by (simp add: length_rput l)
  let ?d = "dist (length buf) off j" and ?e = "dist (length buf) ((off + length bs) mod length buf) j"
  have d: "?e < length cs \<longleftrightarrow> length bs \<le> ?d \<and> ?d < length bs + length cs"
    "?e < length cs \<Longrightarrow> ?e = ?d - length bs"
    using assms j by (auto simp: dist_def mod_once split: if_splits)
  show "rput (rput buf off bs) ((off + length bs) mod length buf) cs ! j = rput buf off (bs @ cs) ! j"
    using assms j m d by (auto simp: nth_rput l nth_append)
qed

lemma ring_rput:
  assumes "off < length buf" "length bs \<le> length buf"
  shows "ring (rput buf off bs) off (length bs) = bs"
proof (rule nth_equalityI)
  fix i assume "i < length (ring (rput buf off bs) off (length bs))"
  then have i: "i < length bs" by simp
  have "(off + i) mod length buf < length buf" using assms by (intro mod_less_divisor) linarith
  with i assms show "ring (rput buf off bs) off (length bs) ! i = bs ! i"
    by (simp add: ring_nth length_rput nth_rput dist_mod)
qed simp

lemma ring_rput_other:
  assumes "w < length buf" "length bs \<le> length buf" "off < length buf" "w = (off + u) mod length buf"
    and "u + length bs \<le> length buf"
  shows "ring (rput buf w bs) off u = ring buf off u"
proof (rule nth_equalityI)
  fix i assume "i < length (ring (rput buf w bs) off u)"
  then have i: "i < u" by simp
  have "(off + i) mod length buf < length buf" using assms by (intro mod_less_divisor) linarith
  moreover have "length bs \<le> dist (length buf) w ((off + i) mod length buf)"
    using i assms by (auto simp: dist_def mod_once split: if_splits)
  ultimately show "ring (rput buf w bs) off u ! i = ring buf off u ! i"
    using i assms by (simp add: ring_nth length_rput nth_rput)
qed simp

section \<open>Entries\<close>

text \<open>A well-formed entry: the length in its first two bytes, little endian, is that of its payload.\<close>

definition wf_entry :: "byte list \<Rightarrow> bool" where
  "wf_entry e \<longleftrightarrow> 20 \<le> length e \<and> length e \<le> 4096 \<and> length e = 20 + (unat (e ! 0) + 256 * unat (e ! 1))"

text \<open>\<open>es\<close> are the entries from offset \<open>off\<close> up to the write offset.\<close>

definition chain :: "logger_log \<Rightarrow> nat \<Rightarrow> byte list list \<Rightarrow> bool" where
  "chain log off es \<longleftrightarrow>
     off < lsize log \<and> (\<forall>e \<in> set es. wf_entry e) \<and> length (concat es) < lsize log \<and>
     ring (buffer log) off (length (concat es)) = concat es \<and>
     (off + length (concat es)) mod lsize log = w_off log"

lemma chain_Nil: "chain log off [] \<longleftrightarrow> off < lsize log \<and> off = w_off log"
  by (auto simp: chain_def ring_def)

lemma chain_Cons:
  assumes wf: "wf_log log" and c: "chain log off (e # es)"
  shows "get_entry_len log off = length e" and "ring (buffer log) off (length e) = e"
    and "chain log (logger_offset log (off + length e)) es" and "off \<noteq> w_off log"
    and "20 \<le> length e" "length e \<le> 4096"
proof -
  note sz = wf_log_size [OF wf]
  have e: "wf_entry e" and len: "length e + length (concat es) < lsize log" and off: "off < lsize log"
    and w: "(off + (length e + length (concat es))) mod lsize log = w_off log"
    and r: "ring (buffer log) off (length e + length (concat es)) = e @ concat es"
    using c by (simp_all add: chain_def)
  show l: "20 \<le> length e" "length e \<le> 4096" using e by (simp_all add: wf_entry_def)
  from r have r1: "ring (buffer log) off (length e) = e"
    and r2: "ring (buffer log) ((off + length e) mod lsize log) (length (concat es)) = concat es"
    by (simp_all add: ring_append sz)
  show "ring (buffer log) off (length e) = e" by (rule r1)
  have "(off + length e) mod lsize log < lsize log" using sz(2) by simp
  then show "chain log (logger_offset log (off + length e)) es"
    using c len w r2 by (simp add: chain_def logger_offset_mod [OF wf] mod_add_left_eq add.assoc)
  have b: "e ! i = buffer log ! ((off + i) mod lsize log)" if "i < length e" for i
    using arg_cong [OF r1, of "\<lambda>l. l ! i"] that by (simp add: ring_nth sz)
  have "get_entry_len log off = 20 + (unat (e ! 0) + 256 * unat (e ! 1))"
  proof -
    have "e ! 0 = buffer log ! off" using b [of 0] l off by (subst b) auto
    moreover have "e ! 1 = buffer log ! (if lsize log - off = 1 then 0 else off + 1)"
      using l off by (subst b) (auto simp: mod_once sz)
    ultimately show ?thesis by (auto simp: get_entry_len_def Let_def)
  qed
  then show "get_entry_len log off = length e" using e by (simp add: wf_entry_def)
  show "off \<noteq> w_off log" using w len l off by (auto simp: mod_once split: if_splits)
qed

lemma chain_unique: "wf_log log \<Longrightarrow> chain log off es \<Longrightarrow> chain log off fs \<Longrightarrow> es = fs"
proof (induction es arbitrary: off fs)
  case Nil
  then show ?case by (cases fs) (auto simp: chain_Nil dest: chain_Cons(4))
next
  case (Cons e es)
  show ?case
  proof (cases fs)
    case Nil
    then show ?thesis using Cons.prems chain_Cons(4) [OF Cons.prems(1,2)] by (simp add: chain_Nil)
  next
    case (Cons f fs')
    note c = chain_Cons [OF Cons.prems(1,2)]
    note d = chain_Cons [OF Cons.prems(1) Cons.prems(3) [unfolded Cons]]
    have "length e = length f" using c(1) d(1) by simp
    then show ?thesis using c(2,3) d(2,3) Cons.IH [OF Cons.prems(1)] Cons by metis
  qed
qed

section \<open>Pulling a position forward\<close>

lemma clock_interval_iff:
  assumes "off < n" "u < n" "l < n" "w = (off + u) mod n"
  shows "clock_interval w ((w + l) mod n) off \<longleftrightarrow> n \<le> u + l"
  using assms by (auto simp: clock_interval_def mod_once split: if_splits)

lemma next_entry_loop_chain:
  assumes "wf_log log" and "chain log off es" and "cnt < len" and "len \<le> cnt + length (concat es)"
  shows "\<exists>k \<le> length es. chain log (next_entry_loop log off cnt len) (drop k es) \<and>
    len \<le> cnt + length (concat (take k es))"
  using assms(2-)
proof (induction es arbitrary: off cnt)
  case (Cons e es)
  note c = chain_Cons [OF assms(1) Cons.prems(1)]
  show ?case
  proof (cases "cnt + length e < len")
    case True
    obtain k where "k \<le> length es" "len \<le> cnt + length e + length (concat (take k es))"
      "chain log (next_entry_loop log (logger_offset log (off + length e)) (cnt + length e) len) (drop k es)"
      using Cons.IH [OF c(3) True] Cons.prems(3) by auto
    then show ?thesis using True c(1)
      by (intro exI [of _ "Suc k"]) (simp add: next_entry_loop.simps [of log off] Let_def)
  next
    case False
    then show ?thesis using c(1,3)
      by (intro exI [of _ 1]) (simp add: next_entry_loop.simps [of log off] Let_def)
  qed
qed simp

lemma pull_chain:
  assumes wf: "wf_log log" and c: "chain log off es" and l: "0 < len" "len \<le> 4096"
  shows "\<exists>k \<le> length es. chain log (pull log len off) (drop k es) \<and>
    length (concat (drop k es)) + len < lsize log \<and>
    (length (concat es) + len < lsize log \<longrightarrow> k = 0 \<and> pull log len off = off)"
proof -
  note sz = wf_log_size [OF wf]
  have iff: "clock_interval (w_off log) (logger_offset log (w_off log + len)) off \<longleftrightarrow>
      lsize log \<le> length (concat es) + len"
    unfolding logger_offset_mod [OF wf]
    using c l sz by (intro clock_interval_iff) (auto simp: chain_def)
  show ?thesis
  proof (cases "lsize log \<le> length (concat es) + len")
    case True
    have "len \<le> 0 + length (concat es)" using True l sz by linarith
    then obtain k where k: "k \<le> length es" "chain log (get_next_entry log off len) (drop k es)"
      "len \<le> length (concat (take k es))"
      using next_entry_loop_chain [OF wf c, of 0 len] l by (auto simp: get_next_entry_def)
    have "length (concat es) = length (concat (take k es)) + length (concat (drop k es))"
      by (metis append_take_drop_id concat_append length_append)
    with k(3) c have "length (concat (drop k es)) + len < lsize log" by (simp add: chain_def)
    with k True iff show ?thesis by (auto simp: pull_def)
  next
    case False
    then show ?thesis using c iff by (intro exI [of _ 0]) (simp add: pull_def)
  qed
qed

section \<open>Writing bytes\<close>

definition ring_write :: "logger_log \<Rightarrow> byte list \<Rightarrow> logger_log" where
  "ring_write log bs =
     log\<lparr>buffer := rput (buffer log) (w_off log) bs, w_off := (w_off log + length bs) mod lsize log,
         lsign := lsign log + of_nat (length bs)\<rparr>"

lemma ring_write_fields [simp]:
  "lsize (ring_write log bs) = lsize log" "lhead (ring_write log bs) = lhead log"
  "readers (ring_write log bs) = readers log"
  "w_off (ring_write log bs) = (w_off log + length bs) mod lsize log"
  "lsign (ring_write log bs) = lsign log + of_nat (length bs)"
  "buffer (ring_write log bs) = rput (buffer log) (w_off log) bs"
  by (simp_all add: ring_write_def)

lemma wf_ring_write: "wf_log log \<Longrightarrow> length bs \<le> lsize log \<Longrightarrow> wf_log (ring_write log bs)"
  by (auto simp: wf_log_def length_rput)

lemma ring_write_append:
  assumes "wf_log log" "length bs + length cs \<le> lsize log"
  shows "ring_write (ring_write log bs) cs = ring_write log (bs @ cs)"
proof -
  note sz = wf_log_size [OF assms(1)]
  have "rput (rput (buffer log) (w_off log) bs) ((w_off log + length bs) mod lsize log) cs =
      rput (buffer log) (w_off log) (bs @ cs)"
    using rput_rput [of "w_off log" "buffer log" bs cs] assms(2) sz by simp
  then show ?thesis by (simp add: ring_write_def mod_add_left_eq add.assoc)
qed

lemma do_write_log_eq:
  assumes "wf_log log"
  shows "do_write_log log bs = ring_write log bs"
  by (simp add: do_write_log_def ring_write_def rput_def Let_def logger_offset_mod [OF assms] wf_log_size(3) [OF assms])

lemma length_user_copy: "length (fst (user_copy u n)) = n"
  by (simp add: user_copy_def)

lemma user_copy_ok: "n \<le> length u \<Longrightarrow> fst (user_copy u n) = take n u"
  by (simp add: user_copy_def)

text \<open>A copy from user space writes the bytes, or it faults and leaves only the buffer changed.\<close>

lemma do_write_log_from_user_cases:
  assumes wf: "wf_log log"
  shows "if cnt \<le> length u then do_write_log_from_user log u cnt = (ring_write log (take cnt u), int cnt)
    else \<exists>bs. length bs \<le> cnt \<and>
      do_write_log_from_user log u cnt = (log\<lparr>buffer := rput (buffer log) (w_off log) bs\<rparr>, - EFAULT)"
proof -
  note sz = wf_log_size [OF wf]
  define len where "len = min cnt (lsize log - w_off log)"
  define b1 where "b1 = fst (user_copy u len)"
  define b2 where "b2 = fst (user_copy (drop len u) (cnt - len))"
  have l: "length b1 = len" "length b2 = cnt - len" "len \<le> cnt" "len \<le> lsize log - w_off log"
    by (simp_all add: b1_def b2_def length_user_copy len_def)
  have p1: "memcpy_at (buffer log) (w_off log) b1 = rput (buffer log) (w_off log) b1"
    using l sz by (simp add: rput_def Let_def min_def)
  have p2: "memcpy_at (memcpy_at (buffer log) (w_off log) b1) 0 b2 = rput (buffer log) (w_off log) (b1 @ b2)" if "cnt \<noteq> len"
    using that l sz by (simp add: rput_def Let_def len_def min_def split: if_splits)
  have eq: "do_write_log_from_user log u cnt =
     (if length u < len then (log\<lparr>buffer := rput (buffer log) (w_off log) b1\<rparr>, - EFAULT)
      else if cnt \<noteq> len \<and> length u - len < cnt - len
      then (log\<lparr>buffer := rput (buffer log) (w_off log) (b1 @ b2)\<rparr>, - EFAULT)
      else (log\<lparr>buffer := (if cnt \<noteq> len then rput (buffer log) (w_off log) (b1 @ b2) else rput (buffer log) (w_off log) b1),
              w_off := (w_off log + cnt) mod lsize log, lsign := lsign log + of_nat cnt\<rparr>, int cnt))"
  proof -
    have "user_copy u len = (b1, length u < len)" "user_copy (drop len u) (cnt - len) = (b2, length u - len < cnt - len)"
      by (simp_all add: b1_def b2_def user_copy_def)
    then show ?thesis using p1 p2
      by (simp add: do_write_log_from_user_def len_def [symmetric] Let_def logger_offset_mod [OF wf])
  qed
  show ?thesis
  proof (cases "cnt \<le> length u")
    case True
    then have "b1 = take len u" "b2 = take (cnt - len) (drop len u)"
      using l(3) by (simp_all add: b1_def b2_def user_copy_ok)
    then have "b1 @ b2 = take cnt u" using l(3) by (simp add: take_add [symmetric])
    moreover have "cnt = len \<Longrightarrow> b1 = take cnt u" by (simp add: \<open>b1 = take len u\<close>)
    ultimately show ?thesis using True l(3) by (auto simp: eq ring_write_def min_def)
  next
    case False
    show ?thesis
    proof (cases "length u < len")
      case True
      then show ?thesis using False l by (auto simp: eq intro!: exI [of _ b1])
    next
      case notl: False
      then have "cnt \<noteq> len" "length u - len < cnt - len" using False l(3) by linarith+
      then show ?thesis using False notl l by (auto simp: eq intro!: exI [of _ "b1 @ b2"])
    qed
  qed
qed

definition payload :: "nat \<Rightarrow> iovec list \<Rightarrow> byte list" where
  "payload n segs = take n (concat (map (\<lambda>(l, u). take l u) segs))"

lemma payload_Cons:
  "min l n \<le> length u \<Longrightarrow> payload n ((l, u) # segs) = take (min l n) u @ payload (n - min l n) segs"
proof -
  assume a: "min l n \<le> length u"
  have "take n (take l u) = take (min l n) u" by (simp add: min.commute)
  moreover have "n - length (take l u) = n - min l n" using a by (auto simp: min_def)
  ultimately show ?thesis by (simp add: payload_def)
qed

lemma length_payload_Cons: "length (payload n segs) \<le> n"
  by (simp add: payload_def)

lemma min_split: "min l n + min (n - min l n) m = min n (l + m)" for l :: nat
  by (auto simp: min_def)

lemma write_segs_cases:
  assumes "wf_log log" and "hlen - ret \<le> lsize log" and "ret \<le> hlen"
  shows "(\<exists>bs. length bs \<le> hlen - ret \<and> (\<exists>sg. write_segs log orig hlen segs ret =
            (log\<lparr>buffer := rput (buffer log) (w_off log) bs, w_off := orig, lsign := sg\<rparr>, - EFAULT))) \<or>
         write_segs log orig hlen segs ret =
            (ring_write log (payload (hlen - ret) segs), int (ret + length (payload (hlen - ret) segs))) \<and>
         length (payload (hlen - ret) segs) = min (hlen - ret) (sum_list (map fst segs))"
  using assms
proof (induction segs arbitrary: log ret)
  case Nil
  have "rput (buffer log) (w_off log) [] = buffer log"
    using wf_log_size [OF Nil(1)] by (simp add: rput_def memcpy_at_def)
  then show ?case using wf_log_size [OF Nil(1)] by (simp add: payload_def ring_write_def)
next
  case (Cons seg segs)
  obtain l u where seg: "seg = (l, u)" by fastforce
  let ?len = "min l (hlen - ret)"
  note c = do_write_log_from_user_cases [OF Cons.prems(1), of ?len u]
  show ?case
  proof (cases "?len \<le> length u")
    case True
    let ?bs = "take ?len u" and ?log = "ring_write log (take ?len u)" and ?ret = "ret + ?len"
    have bs: "length ?bs = ?len" using True by simp
    have wf: "wf_log ?log" using Cons.prems by (intro wf_ring_write) auto
    have step: "write_segs log orig hlen (seg # segs) ret = write_segs ?log orig hlen segs ?ret"
      using c True by (simp add: seg)
    have rest: "hlen - ?ret = hlen - ret - ?len" by simp
    have app: "ring_write ?log cs = ring_write log (?bs @ cs)" if "length cs \<le> hlen - ?ret" for cs
    proof -
      have "?len \<le> hlen - ret" by simp
      then have "?len + length cs \<le> lsize log" using that Cons.prems(2) by linarith
      then show ?thesis using Cons.prems(1) bs by (intro ring_write_append) simp_all
    qed
    have pay: "payload (hlen - ret) (seg # segs) = ?bs @ payload (hlen - ?ret) segs"
      unfolding seg rest by (rule payload_Cons [OF True])
    have rp: "rput (buffer ?log) (w_off ?log) cs = rput (buffer log) (w_off log) (?bs @ cs)"
      if "length cs \<le> hlen - ?ret" for cs
      using app [OF that] by (metis ring_write_fields(6))
    have "hlen - ?ret \<le> lsize ?log" "?ret \<le> hlen" using Cons.prems by auto
    from Cons.IH [OF wf this] show ?thesis
    proof (elim disjE exE conjE, goal_cases)
      case (1 cs sg)
      have "?len \<le> hlen - ret" by simp
      then have "?len + length cs \<le> hlen - ret" using 1(1) by linarith
      then have l: "length (?bs @ cs) \<le> hlen - ret" using bs by (simp only: length_append)
      have "write_segs log orig hlen (seg # segs) ret =
          (log\<lparr>buffer := rput (buffer log) (w_off log) (?bs @ cs), w_off := orig, lsign := sg\<rparr>, - EFAULT)"
        unfolding step 1(2) rp [OF 1(1)] by (simp add: ring_write_def)
      with l show ?case by (intro disjI1) blast
    next
      case 2
      have le: "length (payload (hlen - ?ret) segs) \<le> hlen - ?ret" by (simp add: payload_def)
      show ?case
      proof (rule disjI2, rule conjI)
        show "write_segs log orig hlen (seg # segs) ret = (ring_write log (payload (hlen - ret) (seg # segs)),
            int (ret + length (payload (hlen - ret) (seg # segs))))"
          using 2(1) step app [OF le] bs unfolding pay by simp
        show "length (payload (hlen - ret) (seg # segs)) = min (hlen - ret) (sum_list (map fst (seg # segs)))"
          unfolding pay length_append bs 2(2) unfolding rest seg by (simp add: min_split)
      qed
    qed
  next
    case False
    then obtain bs where bs: "length bs \<le> ?len"
      "do_write_log_from_user log u ?len = (log\<lparr>buffer := rput (buffer log) (w_off log) bs\<rparr>, - EFAULT)"
      using c by auto
    then show ?thesis by (intro disjI1 exI [of _ bs] conjI exI [of _ "lsign log"]) (simp_all add: seg)
  qed
qed

section \<open>The write handler\<close>

lemma chain_write:
  assumes wf: "wf_log log" and c: "chain log off es" and e: "wf_entry e"
    and fits: "length (concat es) + length e < lsize log"
  shows "chain (ring_write log e) off (es @ [e])"
proof -
  note sz = wf_log_size [OF wf]
  let ?u = "length (concat es)"
  have off: "off < lsize log" and w: "(off + ?u) mod lsize log = w_off log"
    and r: "ring (buffer log) off ?u = concat es" and es: "\<forall>e \<in> set es. wf_entry e"
    using c by (simp_all add: chain_def)
  have "ring (rput (buffer log) (w_off log) e) off ?u = concat es"
    by (rule trans [OF ring_rput_other r]) (use sz off fits in \<open>simp_all add: w\<close>)
  moreover have "ring (rput (buffer log) (w_off log) e) (w_off log) (length e) = e"
    using sz fits by (intro ring_rput) simp_all
  ultimately have "ring (buffer (ring_write log e)) off (?u + length e) = concat es @ e"
    using sz fits w by (simp add: ring_append length_rput)
  moreover have "(off + (?u + length e)) mod lsize log = (w_off log + length e) mod lsize log"
    unfolding w [symmetric] by (simp add: mod_add_left_eq add.assoc)
  ultimately show ?thesis using off es e fits by (simp add: chain_def)
qed

text \<open>A failed copy: bytes behind the write offset changed, the write offset did not.\<close>

definition scribble :: "logger_log \<Rightarrow> byte list \<Rightarrow> u32 \<Rightarrow> logger_log" where
  "scribble log bs sg = log\<lparr>buffer := rput (buffer log) (w_off log) bs, lsign := sg\<rparr>"

lemma chain_scribble:
  assumes wf: "wf_log log" and c: "chain log off es" and fits: "length (concat es) + length bs < lsize log"
  shows "chain (scribble log bs sg) off es"
proof -
  have "ring (rput (buffer log) (w_off log) bs) off (length (concat es)) = concat es"
  proof (rule trans [OF ring_rput_other])
    show "ring (buffer log) off (length (concat es)) = concat es" using c by (simp only: chain_def)
  qed (use wf_log_size [OF wf] fits c in \<open>simp_all add: chain_def\<close>)
  then show ?thesis using c by (simp add: chain_def scribble_def)
qed

lemma wf_scribble: "wf_log log \<Longrightarrow> length bs \<le> lsize log \<Longrightarrow> wf_log (scribble log bs sg)"
  by (auto simp: wf_log_def scribble_def length_rput)

definition log_inv :: "logger_log \<Rightarrow> bool" where
  "log_inv log \<longleftrightarrow> wf_log log \<and> (\<exists>es. chain log (lhead log) es) \<and>
     (\<forall>(f, rd) \<in> set (readers log). \<exists>es. chain log (r_off rd) es)"

lemma fix_up_fields [simp]:
  "buffer (fix_up_readers log len) = buffer log" "w_off (fix_up_readers log len) = w_off log"
  "lsize (fix_up_readers log len) = lsize log" "lsign (fix_up_readers log len) = lsign log"
  "lhead (fix_up_readers log len) = pull log len (lhead log)"
  by (simp_all add: fix_up_readers_def)

lemma wf_fix_up [simp]: "wf_log (fix_up_readers log len) = wf_log log"
  by (simp add: wf_log_def)

lemma chain_fix_up [simp]: "chain (fix_up_readers log len) = chain log"
  by (simp add: chain_def fun_eq_iff)

lemma set_readers_fix_up:
  "set (readers (fix_up_readers log len)) = (\<lambda>(f, rd). (f, rd\<lparr>r_off := pull log len (r_off rd)\<rparr>)) ` set (readers log)"
  by (simp add: fix_up_readers_def)

text \<open>The entry a write adds.\<close>

definition new_entry :: "int \<Rightarrow> write_env \<Rightarrow> nat \<Rightarrow> iovec list \<Rightarrow> byte list" where
  "new_entry ts env ki_left segs =
     snd (entry_header ts env ki_left) @ payload (fst (entry_header ts env ki_left)) segs"

definition good_write :: "int \<Rightarrow> write_env \<Rightarrow> nat \<Rightarrow> iovec list \<Rightarrow> bool" where
  "good_write ts env ki_left segs \<longleftrightarrow>
     (ts = 0 \<or> ts = 1) \<and> length (hdr_stack env) = 20 \<and> 0 < ki_left \<and> ki_left = sum_list (map fst segs)"

lemma entry_header_good:
  assumes "good_write ts env n segs"
  shows "fst (entry_header ts env n) = min n 4076" and "length (snd (entry_header ts env n)) = 20"
    and "snd (entry_header ts env n) ! 0 = of_nat (min n 4076)"
    and "snd (entry_header ts env n) ! 1 = of_nat (min n 4076 div 256)"
  using assms by (auto simp: good_write_def entry_header_def header_fields_def le16_def le32_def Let_def)

lemma le16_value: "n < 65536 \<Longrightarrow> unat (of_nat n :: byte) + 256 * unat (of_nat (n div 256) :: byte) = n"
  by (simp add: unat_of_nat take_bit_eq_mod)

lemma new_entry_wf:
  assumes g: "good_write ts env n segs" and p: "length (payload (min n 4076) segs) = min n 4076"
  shows "wf_entry (new_entry ts env n segs)" and "length (new_entry ts env n segs) = 20 + min n 4076"
proof -
  note h = entry_header_good [OF g]
  show l: "length (new_entry ts env n segs) = 20 + min n 4076" using h p by (simp add: new_entry_def)
  have "new_entry ts env n segs ! 0 = of_nat (min n 4076)" "new_entry ts env n segs ! 1 = of_nat (min n 4076 div 256)"
    using h by (simp_all add: new_entry_def nth_append)
  then show "wf_entry (new_entry ts env n segs)"
    using l le16_value [of "min n 4076"] by (simp add: wf_entry_def)
qed

text \<open>The handler as one step: the positions are pulled, then the entry is written or the copy faults.\<close>

lemma logger_aio_write_cases:
  assumes wf: "wf_log log" and g: "good_write ts env n segs"
  shows "(\<exists>bs sg. length bs \<le> 20 + min n 4076 \<and> logger_aio_write ts env (w_off log) n segs log =
            (scribble (fix_up_readers log (20 + min n 4076)) bs sg, - EFAULT)) \<or>
         logger_aio_write ts env (w_off log) n segs log =
            (ring_write (fix_up_readers log (20 + min n 4076)) (new_entry ts env n segs), int (min n 4076)) \<and>
         wf_entry (new_entry ts env n segs) \<and> length (new_entry ts env n segs) = 20 + min n 4076"
proof -
  let ?h = "min n 4076" and ?hd = "snd (entry_header ts env n)"
  let ?fx = "fix_up_readers log (20 + min n 4076)"
  note sz = wf_log_size [OF wf] and h = entry_header_good [OF g]
  have pos: "?h \<noteq> 0" using g by (simp add: good_write_def)
  have wfx: "wf_log ?fx" using wf by simp
  have wfh: "wf_log (ring_write ?fx ?hd)" using sz h by (intro wf_ring_write wfx) simp
  have eq: "logger_aio_write ts env (w_off log) n segs log =
      write_segs (ring_write ?fx ?hd) (w_off log) ?h segs 0"
  proof -
    obtain b where hd: "entry_header ts env n = (?h, b)" using h(1) by (cases "entry_header ts env n") simp
    show ?thesis
      unfolding logger_aio_write_def hd Let_def prod.case snd_conv if_not_P [OF pos] do_write_log_eq [OF wfx] ..
  qed
  have app: "ring_write (ring_write ?fx ?hd) bs = ring_write ?fx (?hd @ bs)" if "length bs \<le> ?h" for bs
    using that sz h by (intro ring_write_append wfx) simp
  have ph: "?h - 0 \<le> lsize (ring_write ?fx ?hd)" using sz by simp
  from write_segs_cases [OF wfh ph le0, of "w_off log" segs] show ?thesis
  proof (elim disjE exE conjE, goal_cases)
    case (1 bs sg)
    have b: "length bs \<le> ?h" using 1(1) by simp
    have "rput (buffer (ring_write ?fx ?hd)) (w_off (ring_write ?fx ?hd)) bs = rput (buffer log) (w_off log) (?hd @ bs)"
      using arg_cong [OF app [OF b], of buffer] by simp
    then have "logger_aio_write ts env (w_off log) n segs log = (scribble ?fx (?hd @ bs) sg, - EFAULT)"
      unfolding eq 1(2) by (simp add: scribble_def ring_write_def)
    then show ?case using b h by (intro disjI1 exI [of _ "?hd @ bs"] exI [of _ sg]) simp
  next
    case 2
    have "length (payload ?h segs) = ?h" using 2(2) g by (simp add: good_write_def)
    then show ?case using 2(1) app [of "payload ?h segs"] new_entry_wf [OF g] h
      unfolding eq by (intro disjI2) (simp add: new_entry_def)
  qed
qed

lemma write_position:
  assumes wf: "wf_log log" and c: "chain log off es" and e: "wf_entry e" "length e = 20 + h" "h \<le> 4076"
  shows "\<exists>k \<le> length es. chain (ring_write (fix_up_readers log (20 + h)) e) (pull log (20 + h) off) (drop k es @ [e]) \<and>
    (length (concat es) + 20 + h < lsize log \<longrightarrow> k = 0)"
proof -
  obtain k where k: "k \<le> length es" "chain log (pull log (20 + h) off) (drop k es)"
    "length (concat (drop k es)) + (20 + h) < lsize log" "length (concat es) + (20 + h) < lsize log \<longrightarrow> k = 0"
    using pull_chain [OF wf c, of "20 + h"] e by auto
  have "chain (ring_write (fix_up_readers log (20 + h)) e) (pull log (20 + h) off) (drop k es @ [e])"
    using wf k e by (intro chain_write) simp_all
  with k show ?thesis by auto
qed

lemma fault_position:
  assumes wf: "wf_log log" and c: "chain log off es" and "length bs \<le> 20 + h" "h \<le> 4076"
  shows "\<exists>k \<le> length es. chain (scribble (fix_up_readers log (20 + h)) bs sg) (pull log (20 + h) off) (drop k es) \<and>
    (length (concat es) + 20 + h < lsize log \<longrightarrow> k = 0)"
proof -
  obtain k where k: "k \<le> length es" "chain log (pull log (20 + h) off) (drop k es)"
    "length (concat (drop k es)) + (20 + h) < lsize log" "length (concat es) + (20 + h) < lsize log \<longrightarrow> k = 0"
    using pull_chain [OF wf c, of "20 + h"] assms(4) by auto
  have "chain (scribble (fix_up_readers log (20 + h)) bs sg) (pull log (20 + h) off) (drop k es)"
    using wf k assms(3) by (intro chain_scribble) simp_all
  with k show ?thesis by auto
qed

lemma log_inv_write:
  assumes inv: "log_inv log" and g: "good_write ts env n segs"
  shows "log_inv (fst (logger_aio_write ts env (w_off log) n segs log))"
proof -
  have wf: "wf_log log" using inv by (simp add: log_inv_def)
  note sz = wf_log_size [OF wf]
  let ?fx = "fix_up_readers log (20 + min n 4076)"
  have all: "log_inv log'" if w: "wf_log log'" "lhead log' = lhead ?fx" "readers log' = readers ?fx"
    and p: "\<And>off es. chain log off es \<Longrightarrow> \<exists>fs. chain log' (pull log (20 + min n 4076) off) fs" for log'
  proof -
    obtain es where "chain log (lhead log) es" using inv by (auto simp: log_inv_def)
    from p [OF this] have "\<exists>fs. chain log' (lhead log') fs" by (simp add: w)
    moreover have "\<exists>fs. chain log' (r_off rd) fs" if m: "(f, rd) \<in> set (readers log')" for f rd
    proof -
      obtain rd0 where r: "(f, rd0) \<in> set (readers log)" "r_off rd = pull log (20 + min n 4076) (r_off rd0)"
        using m by (auto simp: w set_readers_fix_up)
      then obtain es where "chain log (r_off rd0) es" using inv by (auto simp: log_inv_def)
      from p [OF this] show ?thesis by (simp add: r)
    qed
    ultimately show ?thesis using w(1) by (auto simp: log_inv_def)
  qed
  show ?thesis using logger_aio_write_cases [OF wf g]
  proof (elim disjE exE conjE, goal_cases)
    case (1 bs sg)
    have "log_inv (scribble ?fx bs sg)"
    proof (rule all)
      show "wf_log (scribble ?fx bs sg)" using 1(1) wf sz by (intro wf_scribble) simp_all
      fix off es assume "chain log off es"
      from fault_position [OF wf this 1(1)] show "\<exists>fs. chain (scribble ?fx bs sg) (pull log (20 + min n 4076) off) fs"
        by (meson min.cobounded2)
    qed (simp_all add: scribble_def)
    then show ?case by (simp only: 1(2) fst_conv)
  next
    case 2
    let ?e = "new_entry ts env n segs"
    have "log_inv (ring_write ?fx ?e)"
    proof (rule all)
      show "wf_log (ring_write ?fx ?e)" using 2(3) wf sz by (intro wf_ring_write) simp_all
      fix off es assume "chain log off es"
      from write_position [OF wf this 2(2,3)] show "\<exists>fs. chain (ring_write ?fx ?e) (pull log (20 + min n 4076) off) fs"
        by (meson min.cobounded2)
    qed simp_all
    then show ?case by (simp only: 2(1) fst_conv)
  qed
qed

section \<open>Reading\<close>

lemma ring_bytes:
  assumes "length buf = n" "off < n" "m \<le> n"
  shows "take (min m (n - off)) (drop off buf) @ take (m - min m (n - off)) buf = ring buf off m"
proof (rule nth_equalityI)
  show "length (take (min m (n - off)) (drop off buf) @ take (m - min m (n - off)) buf) = length (ring buf off m)"
    using assms by (auto simp: min_def)
  fix i assume "i < length (take (min m (n - off)) (drop off buf) @ take (m - min m (n - off)) buf)"
  then have "i < m" using assms by (simp add: min_def split: if_splits)
  with assms show "(take (min m (n - off)) (drop off buf) @ take (m - min m (n - off)) buf) ! i = ring buf off m ! i"
    by (auto simp: nth_append ring_nth mod_once min_def add.commute)
qed

lemma do_read_chain:
  assumes wf: "wf_log log" and c: "chain log (r_off rd) (e # es)"
  shows "do_read_log_to_user log rd False False (length e) =
     (rd\<lparr>r_off := logger_offset log (r_off rd + length e), rsign := rsign rd + of_nat (length e)\<rparr>,
      Ret (int (length e)) e)"
proof -
  note sz = wf_log_size [OF wf] and cc = chain_Cons [OF wf c]
  have "take (min (length e) (lsize log - r_off rd)) (drop (r_off rd) (buffer log)) @
      take (length e - min (length e) (lsize log - r_off rd)) (buffer log) = e"
    using ring_bytes [of "buffer log" "lsize log" "r_off rd" "length e"] c cc(2,6) sz by (simp add: chain_def)
  then show ?thesis by (simp add: do_read_log_to_user_def Let_def)
qed

lemma sint_of_nat_small: "n < 2147483648 \<Longrightarrow> sint (of_nat n :: u32) = int n"
  by (simp add: signed_of_nat signed_take_bit_int_eq_self_iff)

text \<open>The reader's own byte count agrees with the log's: it is behind by what it has not read.\<close>

definition sync :: "logger_log \<Rightarrow> logger_reader \<Rightarrow> byte list list \<Rightarrow> bool" where
  "sync log rd es \<longleftrightarrow> lsign log - rsign rd = of_nat (length (concat es))"

lemma sync_no_overflow:
  assumes "wf_log log" and "chain log off es" and "sync log rd es"
  shows "\<not> is_overflow (lsize log) (lsign log) (rsign rd)"
proof -
  have "length (concat es) < lsize log" "lsize log \<le> 2 ^ 30"
    using assms(2) wf_log_size(5) [OF assms(1)] by (simp_all add: chain_def)
  then show ?thesis using assms(3) by (simp add: is_overflow_def sync_def sint_of_nat_small)
qed

lemma chain_empty_iff: "wf_log log \<Longrightarrow> chain log off es \<Longrightarrow> w_off log = off \<longleftrightarrow> es = []"
  by (cases es) (auto simp: chain_Nil dest: chain_Cons(4))

lemma do_read_fault: "do_read_log_to_user log rd f1 f2 n = do_read_log_to_user log rd False False n \<or>
    do_read_log_to_user log rd f1 f2 n = (rd, Ret (- EFAULT) [])"
  by (auto simp: do_read_log_to_user_def Let_def)

lemma logger_read_chain:
  assumes wf: "wf_log log" and c: "chain log (r_off rd) es"
  shows "\<exists>fs. chain log (r_off (fst (logger_read nb sg n faults log rd))) fs"
proof (cases es)
  case Nil
  with c chain_empty_iff [OF wf c] show ?thesis by (auto simp: logger_read_def split: prod.splits)
next
  case (Cons e fs)
  note c = c [unfolded Cons]
  note cc = chain_Cons [OF wf c]
  obtain fw f1 f2 where f: "faults = (fw, f1, f2)" using prod_cases3 by blast
  have "chain log (r_off (fst (do_read_log_to_user log rd f1 f2 (length e)))) fs \<or>
      r_off (fst (do_read_log_to_user log rd f1 f2 (length e))) = r_off rd"
    using do_read_fault [of log rd f1 f2 "length e"] do_read_chain [OF wf c] cc(3) by auto
  then show ?thesis using cc(1,4) c
    by (auto simp: logger_read_def f warn_overflow_def Let_def)
qed

section \<open>Sequences of calls\<close>

lemma wf_same: "buffer log' = buffer log \<Longrightarrow> w_off log' = w_off log \<Longrightarrow> lsize log' = lsize log \<Longrightarrow> wf_log log' = wf_log log"
  by (simp add: wf_log_def)

lemma chain_same: "buffer log' = buffer log \<Longrightarrow> w_off log' = w_off log \<Longrightarrow> lsize log' = lsize log \<Longrightarrow> chain log' = chain log"
  by (simp add: chain_def fun_eq_iff)

lemma log_inv_positions:
  assumes "log_inv log" and same: "buffer log' = buffer log" "w_off log' = w_off log" "lsize log' = lsize log"
    and "lhead log' = lhead log \<or> lhead log' = w_off log"
    and "\<And>f rd. (f, rd) \<in> set (readers log') \<Longrightarrow> \<exists>es. chain log (r_off rd) es"
  shows "log_inv log'"
proof -
  have wf: "wf_log log" using assms(1) by (simp add: log_inv_def)
  have "chain log (w_off log) []" using wf_log_size(4) [OF wf] by (simp add: chain_Nil)
  with assms(1,5) have "\<exists>es. chain log (lhead log') es" by (auto simp: log_inv_def)
  with assms(6) wf show ?thesis by (auto simp: log_inv_def wf_same [OF same] chain_same [OF same])
qed

lemma chain_write_offset: "wf_log log \<Longrightarrow> chain log (w_off log) []"
  using wf_log_size(4) by (simp add: chain_Nil)

abbreviation keys :: "logger_log \<Rightarrow> nat list" where
  "keys log \<equiv> map fst (readers log)"

text \<open>The readers of a log are the files that are open for reading on it, once each.\<close>

definition logger_inv :: "logger_state \<Rightarrow> bool" where
  "logger_inv s \<longleftrightarrow> (\<forall>n. log_inv (logs s n)) \<and> (g_ts_switch s = 0 \<or> g_ts_switch s = 1) \<and>
     (\<forall>n f. f \<in> set (keys (logs s n)) \<longleftrightarrow> (\<exists>fl. lfiles s f = Some fl \<and> fmode_read fl \<and> flog fl = n)) \<and>
     (\<forall>n. distinct (keys (logs s n)))"

inductive logger_step :: "logger_state \<Rightarrow> logger_state \<Rightarrow> bool" where
  log_open: "lfiles s f = None \<Longrightarrow> logger_step s (fst (logger_open ns minors minor mem f fl s))"
| log_release: "lfiles s f = Some fl \<Longrightarrow> logger_step s (fst (logger_release f fl s))"
| log_read: "lfiles s f = Some fl \<Longrightarrow> fmode_read fl \<Longrightarrow>
     logger_step s (fst (logger_read_file f fl sg cnt faults s))"
| log_write: "lfiles s f = Some fl \<Longrightarrow> good_write (g_ts_switch s) env n segs \<Longrightarrow>
     logger_step s (fst (logger_write_file fl env (w_off (logs s (flog fl))) n segs s))"
| log_ioctl: "lfiles s f = Some fl \<Longrightarrow> logger_step s (fst (logger_ioctl f fl cmd s))"
| log_switch: "logger_step s (fst (ts_switch_write buf cnt s))"

lemma boot_log_size: "lsize (boot_log n) = 2 ^ (if n = Log_events then 18 else 16)"
  "buffer (boot_log n) = replicate (lsize (boot_log n)) 0" "w_off (boot_log n) = 0" "lhead (boot_log n) = 0"
  "readers (boot_log n) = []" "lsign (boot_log n) = 0"
  by (cases n; simp add: define_logger_device_def)+

lemma log_inv_boot: "log_inv (boot_log n)"
proof -
  have "wf_log (boot_log n)" unfolding wf_log_def boot_log_size
    by (auto intro: exI [of _ "if n = Log_events then 18 else 16 :: nat"])
  then show ?thesis using chain_write_offset [of "boot_log n"] by (auto simp: log_inv_def boot_log_size)
qed

lemma logger_inv_boot: "logger_inv logger_boot"
  by (simp add: logger_inv_def logger_boot_def log_inv_boot boot_log_size)

text \<open>Replacing one log by another one with the same readers.\<close>

lemma logger_inv_set_log:
  assumes "logger_inv s" and "log_inv log" and "map fst (readers log) = map fst (readers (logs s n))"
  shows "logger_inv (set_log n log s)"
proof -
  have f: "set (keys log) = set (keys (logs s n))" by (simp only: assms(3))
  have "distinct (keys log)" using assms(1) unfolding assms(3) by (simp add: logger_inv_def)
  then show ?thesis using assms(1,2) f unfolding logger_inv_def by (simp add: set_log_def)
qed

lemma readers_write: "good_write ts env n segs \<Longrightarrow> wf_log log \<Longrightarrow>
    map fst (readers (fst (logger_aio_write ts env (w_off log) n segs log))) = map fst (readers log)"
proof -
  assume g: "good_write ts env n segs" and wf: "wf_log log"
  have "map fst (readers (fix_up_readers log m)) = map fst (readers log)" for m
    by (simp add: fix_up_readers_def split_beta comp_def)
  with logger_aio_write_cases [OF wf g] show ?thesis by (auto simp: scribble_def)
qed

lemma set_reader_map: "map fst (readers (set_reader f rd log)) = map fst (readers log)"
  by (simp add: set_reader_def split_beta comp_def)

lemma log_inv_read:
  assumes inv: "log_inv log" and "f \<in> set (keys log)" "distinct (keys log)"
  shows "log_inv (set_reader f (fst (logger_read nb sg n faults log (file_reader f log))) log)"
proof -
  have wf: "wf_log log" using inv by (simp add: log_inv_def)
  obtain rd where rd: "(f, rd) \<in> set (readers log)" using assms(2) by force
  then have fr: "file_reader f log = rd" using assms(3) by (simp add: file_reader_def map_of_is_SomeI)
  obtain es where "chain log (r_off rd) es" using inv rd by (auto simp: log_inv_def)
  from logger_read_chain [OF wf this, of nb sg n faults]
  have "\<exists>fs. chain log (r_off (fst (logger_read nb sg n faults log (file_reader f log)))) fs" by (simp add: fr)
  with inv show ?thesis
    by (intro log_inv_positions [OF inv]) (auto simp: set_reader_def log_inv_def split: if_splits)
qed

lemma log_inv_flush: "log_inv log \<Longrightarrow> log_inv (flush_log log)"
proof -
  assume inv: "log_inv log"
  then have "chain log (w_off log) []" by (intro chain_write_offset) (simp add: log_inv_def)
  then show ?thesis by (intro log_inv_positions [OF inv]) (auto simp: flush_log_def)
qed

lemma log_inv_readers:
  assumes "log_inv log" and "\<And>f rd. (f, rd) \<in> set rs \<Longrightarrow> (f, rd) \<in> set (readers log) \<or> r_off rd = lhead log"
  shows "log_inv (log\<lparr>readers := rs\<rparr>)"
proof (rule log_inv_positions [OF assms(1)])
  fix f rd assume "(f, rd) \<in> set (readers (log\<lparr>readers := rs\<rparr>))"
  then have "(f, rd) \<in> set (readers log) \<or> r_off rd = lhead log" using assms(2) by simp
  then show "\<exists>es. chain log (r_off rd) es" using assms(1) by (auto simp: log_inv_def)
qed simp_all

lemma logger_inv_open:
  assumes inv: "logger_inv s" and f: "lfiles s f = None"
  shows "logger_inv (fst (logger_open ns minors minor mem f fl s))"
proof -
  have notin: "f \<notin> set (keys (logs s n))" for n
  proof -
    have "f \<in> set (keys (logs s n)) \<longleftrightarrow> (\<exists>fl. lfiles s f = Some fl \<and> fmode_read fl \<and> flog fl = n)"
      using inv by (simp add: logger_inv_def)
    with f show ?thesis by simp
  qed
  have rd: "logger_inv ((set_log n ((logs s n)\<lparr>readers := readers (logs s n) @ [(f, rd)]\<rparr>) s)
      \<lparr>lfiles := (lfiles s)(f \<mapsto> fl\<lparr>flog := n\<rparr>)\<rparr>)" if "r_off rd = lhead (logs s n)" "fmode_read fl" for n rd
  proof -
    have "log_inv ((logs s n)\<lparr>readers := readers (logs s n) @ [(f, rd)]\<rparr>)"
      using inv that(1) by (intro log_inv_readers) (auto simp: logger_inv_def)
    then show ?thesis using inv that(2) f notin
      unfolding logger_inv_def set_log_def by (auto split: if_splits)
  qed
  have wr: "logger_inv (s\<lparr>lfiles := (lfiles s)(f \<mapsto> fl\<lparr>flog := n\<rparr>)\<rparr>)" if "\<not> fmode_read fl" for n
    using inv that f notin unfolding logger_inv_def by auto
  have "set_log n l s\<lparr>lfiles := (lfiles (set_log n l s))(f \<mapsto> x)\<rparr> = set_log n l s\<lparr>lfiles := (lfiles s)(f \<mapsto> x)\<rparr>" for n l x
    by (simp add: set_log_def)
  then show ?thesis using inv rd wr by (simp add: logger_open_def Let_def split: option.splits)
qed

lemma logger_inv_release:
  assumes inv: "logger_inv s" and f: "lfiles s f = Some fl"
  shows "logger_inv (fst (logger_release f fl s))"
proof (cases "fmode_read fl")
  case True
  let ?n = "flog fl" and ?rs = "[(g, rd) \<leftarrow> readers (logs s (flog fl)). g \<noteq> f]"
  let ?log = "(logs s ?n)\<lparr>readers := ?rs\<rparr>"
  have li: "log_inv ?log" using inv by (intro log_inv_readers) (auto simp: logger_inv_def)
  have k: "set (keys ?log) = set (keys (logs s ?n)) - {f}" by force
  have d: "distinct (keys ?log)"
    using inv by (simp add: logger_inv_def distinct_map_filter)
  have other: "f \<notin> set (keys (logs s n))" if "n \<noteq> ?n" for n
  proof -
    have "f \<in> set (keys (logs s n)) \<longleftrightarrow> (\<exists>fl. lfiles s f = Some fl \<and> fmode_read fl \<and> flog fl = n)"
      using inv by (simp add: logger_inv_def)
    with f that show ?thesis by auto
  qed
  have "set (keys (logs (set_log ?n ?log s) n)) = set (keys (logs s n)) - {f}" for n
    using k other by (auto simp: set_log_def)
  moreover have "distinct (keys (logs (set_log ?n ?log s) n))" "log_inv (logs (set_log ?n ?log s) n)" for n
    using d li inv by (simp_all add: set_log_def logger_inv_def)
  ultimately have "logger_inv ((set_log ?n ?log s)\<lparr>lfiles := (lfiles s)(f := None)\<rparr>)"
    using inv unfolding logger_inv_def by (auto simp: set_log_def)
  then show ?thesis using True by (simp add: logger_release_def Let_def set_log_def)
next
  case False
  then show ?thesis using inv f unfolding logger_inv_def by (auto simp: logger_release_def)
qed

lemma logger_inv_step: "logger_step s s' \<Longrightarrow> logger_inv s \<Longrightarrow> logger_inv s'"
proof (induction rule: logger_step.induct)
  case (log_open s f ns minors minor mem fl)
  then show ?case by (intro logger_inv_open)
next
  case (log_release s f fl)
  then show ?case by (intro logger_inv_release)
next
  case (log_read s f fl sg cnt faults)
  let ?log = "logs s (flog fl)"
  have "f \<in> set (keys ?log) \<longleftrightarrow> (\<exists>x. lfiles s f = Some x \<and> fmode_read x \<and> flog x = flog fl)"
    "distinct (keys ?log)" "log_inv ?log"
    using log_read.prems by (simp_all add: logger_inv_def)
  with log_read.hyps have "log_inv (set_reader f (fst (logger_read (o_nonblock fl) sg cnt faults ?log (file_reader f ?log))) ?log)"
    by (intro log_inv_read) auto
  then show ?case using log_read.prems
    by (auto simp: logger_read_file_def Let_def split_beta set_reader_map intro: logger_inv_set_log)
next
  case (log_write s f fl env n segs)
  have "log_inv (logs s (flog fl))" "wf_log (logs s (flog fl))" using log_write.prems by (simp_all add: logger_inv_def log_inv_def)
  with log_write show ?case
    by (auto simp: logger_write_file_def split_beta readers_write intro!: logger_inv_set_log log_inv_write)
next
  case (log_ioctl s f fl cmd)
  have "log_inv (flush_log (logs s (flog fl)))" using log_ioctl.prems by (simp add: log_inv_flush logger_inv_def)
  moreover have "keys (flush_log (logs s (flog fl))) = keys (logs s (flog fl))"
    by (simp add: flush_log_def split_beta comp_def)
  ultimately show ?case using log_ioctl.prems
    by (cases cmd) (auto simp: logger_ioctl_def Let_def intro: logger_inv_set_log)
next
  case (log_switch s buf cnt)
  then show ?case by (auto simp: ts_switch_write_def logger_inv_def split: option.splits)
qed

lemma logger_inv_reachable: "logger_step\<^sup>*\<^sup>* logger_boot s \<Longrightarrow> logger_inv s"
  by (induction rule: rtranclp_induct) (auto intro: logger_inv_boot logger_inv_step)

section \<open>One reader: a queue\<close>

lemma write_segs_readable:
  assumes "wf_log log" and "hlen \<le> lsize log" and "\<forall>(l, u) \<in> set segs. l \<le> length u"
  shows "0 \<le> snd (write_segs log orig hlen segs ret)"
  using assms
proof (induction segs arbitrary: log ret)
  case (Cons seg segs)
  obtain l u where seg: "seg = (l, u)" by fastforce
  have le: "min l (hlen - ret) \<le> length u" using Cons.prems(3) seg by auto
  then have "do_write_log_from_user log u (min l (hlen - ret)) =
      (ring_write log (take (min l (hlen - ret)) u), int (min l (hlen - ret)))"
    using do_write_log_from_user_cases [OF Cons.prems(1), of "min l (hlen - ret)" u] by simp
  moreover have "wf_log (ring_write log (take (min l (hlen - ret)) u))"
    using Cons.prems(1,2) by (intro wf_ring_write) auto
  ultimately show ?case using Cons.IH Cons.prems by (simp add: seg)
qed simp

type_synonym write_req = "int \<times> write_env \<times> nat \<times> iovec list"

definition req_ok :: "write_req \<Rightarrow> bool" where
  "req_ok w = (case w of (ts, env, n, segs) \<Rightarrow> good_write ts env n segs \<and> (\<forall>(l, u) \<in> set segs. l \<le> length u))"

definition req_entry :: "write_req \<Rightarrow> byte list" where
  "req_entry w = (case w of (ts, env, n, segs) \<Rightarrow> new_entry ts env n segs)"

definition do_req :: "write_req \<Rightarrow> logger_log \<Rightarrow> logger_log" where
  "do_req w log = (case w of (ts, env, n, segs) \<Rightarrow> fst (logger_aio_write ts env (w_off log) n segs log))"

lemma do_req_eq:
  assumes wf: "wf_log log" and ok: "req_ok w"
  obtains h where "do_req w log = ring_write (fix_up_readers log (20 + h)) (req_entry w)"
    "wf_entry (req_entry w)" "length (req_entry w) = 20 + h" "0 < h" "h \<le> 4076"
proof -
  obtain ts env n segs where w: "w = (ts, env, n, segs)" using prod_cases4 by blast
  have g: "good_write ts env n segs" and r: "\<forall>(l, u) \<in> set segs. l \<le> length u"
    using ok by (auto simp: req_ok_def w)
  obtain b where hd: "entry_header ts env n = (min n 4076, b)" and lb: "length b = 20"
    using entry_header_good(1,2) [OF g] by (cases "entry_header ts env n") simp
  let ?fx = "fix_up_readers log (20 + min n 4076)"
  have wfx: "wf_log (do_write_log ?fx b)" using wf wf_log_size(1) [OF wf] lb by (simp add: do_write_log_eq wf_ring_write)
  have sz: "min n 4076 \<le> lsize (do_write_log ?fx b)" using wf wf_log_size(1) [OF wf] by (simp add: do_write_log_eq)
  have "0 \<le> snd (logger_aio_write ts env (w_off log) n segs log)"
    using write_segs_readable [OF wfx sz r, of "w_off log" 0] by (simp add: logger_aio_write_def hd Let_def)
  with logger_aio_write_cases [OF wf g] show thesis
    using that [of "min n 4076"] g by (auto simp: do_req_def req_entry_def w good_write_def)
qed

lemma file_reader_fix_up:
  "f \<in> set (keys log) \<Longrightarrow>
     file_reader f (fix_up_readers log len) = (file_reader f log)\<lparr>r_off := pull log len (r_off (file_reader f log))\<rparr>"
proof -
  assume "f \<in> set (keys log)"
  then obtain rd where "map_of (readers log) f = Some rd" by (metis (no_types, lifting) list.set_map map_of_eq_None_iff not_None_eq)
  then show ?thesis by (simp add: file_reader_def fix_up_readers_def map_of_map)
qed

lemma file_reader_set: "f \<in> set (keys log) \<Longrightarrow> file_reader f (set_reader f rd log) = rd"
proof -
  assume "f \<in> set (keys log)"
  then obtain x where "map_of (readers log) f = Some x" by (metis (no_types, lifting) list.set_map map_of_eq_None_iff not_None_eq)
  moreover have "map_of (map (\<lambda>(g, y). (g, if g = f then rd else y)) xs) f = map_option (\<lambda>_. rd) (map_of xs f)" for xs :: "(nat \<times> logger_reader) list"
    by (induction xs) auto
  ultimately show ?thesis by (simp add: file_reader_def set_reader_def)
qed

text \<open>The interface: what is put in comes out once, in order, as long as it fits.\<close>

fun drain :: "('s \<Rightarrow> 's \<times> 'e option) \<Rightarrow> nat \<Rightarrow> 's \<Rightarrow> 'e list" where
  "drain get 0 s = []"
| "drain get (Suc n) s = (case get s of (s', Some e) \<Rightarrow> e # drain get n s' | (s', None) \<Rightarrow> [])"

locale fifo =
  fixes valid :: "'s \<Rightarrow> bool" and holds :: "'s \<Rightarrow> 'e list \<Rightarrow> bool" and fits :: "'s \<Rightarrow> 'e list \<Rightarrow> bool"
    and put :: "'w \<Rightarrow> 's \<Rightarrow> 's" and item :: "'w \<Rightarrow> 'e" and accept :: "'w \<Rightarrow> bool"
    and get :: "'s \<Rightarrow> 's \<times> 'e option"
  assumes put_valid: "valid s \<Longrightarrow> accept w \<Longrightarrow> holds s es \<Longrightarrow> fits s (es @ [item w]) \<Longrightarrow> valid (put w s)"
    and put_holds: "valid s \<Longrightarrow> accept w \<Longrightarrow> holds s es \<Longrightarrow> fits s (es @ [item w]) \<Longrightarrow> holds (put w s) (es @ [item w])"
    and put_fits: "valid s \<Longrightarrow> accept w \<Longrightarrow> fits (put w s) fs = fits s fs"
    and fits_prefix: "fits s (es @ fs) \<Longrightarrow> fits s es"
    and get_item: "valid s \<Longrightarrow> holds s (e # es) \<Longrightarrow> snd (get s) = Some e"
    and get_holds: "valid s \<Longrightarrow> holds s (e # es) \<Longrightarrow> holds (fst (get s)) es"
    and get_valid: "valid s \<Longrightarrow> holds s (e # es) \<Longrightarrow> valid (fst (get s))"
    and get_empty: "valid s \<Longrightarrow> holds s [] \<Longrightarrow> snd (get s) = None"
begin

lemma puts:
  assumes "valid s" "holds s es" "\<forall>w \<in> set ws. accept w" "fits s (es @ map item ws)"
  shows "valid (fold put ws s) \<and> holds (fold put ws s) (es @ map item ws)"
  using assms
proof (induction ws arbitrary: s es)
  case (Cons w ws)
  have w: "accept w" using Cons.prems by simp
  have f: "fits s ((es @ [item w]) @ map item ws)" using Cons.prems(4) by simp
  note p = fits_prefix [OF f]
  have "fits (put w s) ((es @ [item w]) @ map item ws)" using f by (simp only: put_fits [OF Cons.prems(1) w])
  with Cons.IH [OF put_valid [OF Cons.prems(1) w Cons.prems(2) p] put_holds [OF Cons.prems(1) w Cons.prems(2) p]] Cons.prems(3)
  show ?case by simp
qed simp

lemma gets: "valid s \<Longrightarrow> holds s (es @ fs) \<Longrightarrow> drain get (length es) s = es"
proof (induction es arbitrary: s)
  case (Cons e es)
  have h: "holds s (e # es @ fs)" using Cons.prems(2) by simp
  have "drain get (length es) (fst (get s)) = es"
    using Cons.IH get_valid [OF Cons.prems(1) h] get_holds [OF Cons.prems(1) h] by blast
  moreover have "drain get (length (e # es)) s = e # drain get (length es) (fst (get s))"
    using get_item [OF Cons.prems(1) h] by (simp add: split_beta)
  ultimately show ?case by simp
qed simp

lemma in_order:
  assumes "valid s" "holds s es" "\<forall>w \<in> set ws. accept w" "fits s (es @ map item ws)"
  shows "drain get (length es + length ws) (fold put ws s) = es @ map item ws"
proof -
  have "drain get (length (es @ map item ws)) (fold put ws s) = es @ map item ws"
    using puts [OF assms] by (intro gets [where fs = "[]"]) simp_all
  then show ?thesis by simp
qed

end

text \<open>A read with a large enough buffer by file \<open>f\<close>: the entry it returns, if there is one.\<close>

definition read_entry :: "nat \<Rightarrow> logger_log \<Rightarrow> logger_log \<times> byte list option" where
  "read_entry f log =
     (case logger_read True False 4096 (False, False, False) log (file_reader f log) of
        (rd, Ret n bs) \<Rightarrow> (set_reader f rd log, if n < 0 then None else Some bs)
      | (rd, Blocked) \<Rightarrow> (set_reader f rd log, None))"

definition in_sync :: "nat \<Rightarrow> logger_log \<Rightarrow> bool" where
  "in_sync f log \<longleftrightarrow> wf_log log \<and> f \<in> set (keys log) \<and>
     (\<exists>es. chain log (r_off (file_reader f log)) es \<and> sync log (file_reader f log) es)"

lemma chain_set_reader [simp]: "chain (set_reader f rd log) = chain log" "wf_log (set_reader f rd log) = wf_log log"
  "lsign (set_reader f rd log) = lsign log" "keys (set_reader f rd log) = keys log"
  by (simp_all add: set_reader_def chain_def wf_log_def fun_eq_iff split_beta comp_def)

lemma in_sync_chain:
  assumes "in_sync f log" and "chain log (r_off (file_reader f log)) es"
  shows "wf_log log" "f \<in> set (keys log)" "sync log (file_reader f log) es"
  using assms chain_unique by (auto simp: in_sync_def)

lemma read_entry_some:
  assumes v: "in_sync f log" and c: "chain log (r_off (file_reader f log)) (e # es)"
  shows "snd (read_entry f log) = Some e" and "chain (fst (read_entry f log)) (r_off (file_reader f (fst (read_entry f log)))) es"
    and "in_sync f (fst (read_entry f log))"
proof -
  note i = in_sync_chain [OF v c] and cc = chain_Cons [OF in_sync_chain(1) [OF v c] c]
  let ?rd = "(file_reader f log)\<lparr>r_off := logger_offset log (r_off (file_reader f log) + length e),
      rsign := rsign (file_reader f log) + of_nat (length e)\<rparr>"
  have no: "\<not> is_overflow (lsize log) (lsign log) (rsign (file_reader f log))" by (rule sync_no_overflow [OF i(1) c i(3)])
  have r: "read_entry f log = (set_reader f ?rd log, Some e)"
    using no cc(1,4,6) do_read_chain [OF i(1) c] by (simp add: read_entry_def logger_read_def)
  show "snd (read_entry f log) = Some e" by (simp add: r)
  show c': "chain (fst (read_entry f log)) (r_off (file_reader f (fst (read_entry f log)))) es"
    using cc(3) by (simp add: r file_reader_set [OF i(2)])
  have "sync (set_reader f ?rd log) ?rd es" using i(3) by (simp add: sync_def algebra_simps)
  with c' i(1,2) show "in_sync f (fst (read_entry f log))" by (auto simp: in_sync_def r file_reader_set [OF i(2)])
qed

lemma do_req_fits:
  assumes v: "in_sync f log" and ok: "req_ok w" and c: "chain log (r_off (file_reader f log)) es"
    and fits: "length (concat (es @ [req_entry w])) < lsize log"
  shows "chain (do_req w log) (r_off (file_reader f (do_req w log))) (es @ [req_entry w])" and "in_sync f (do_req w log)"
proof -
  note i = in_sync_chain [OF v c]
  obtain h where d: "do_req w log = ring_write (fix_up_readers log (20 + h)) (req_entry w)"
    "wf_entry (req_entry w)" "length (req_entry w) = 20 + h" "0 < h" "h \<le> 4076"
    using do_req_eq [OF i(1) ok] .
  have np: "pull log (20 + h) (r_off (file_reader f log)) = r_off (file_reader f log)"
    using pull_chain [OF i(1) c, of "20 + h"] d fits by auto
  have fr: "file_reader f (do_req w log) = file_reader f log"
    using file_reader_fix_up [OF i(2), of "20 + h"] np by (simp add: file_reader_def d(1))
  show c': "chain (do_req w log) (r_off (file_reader f (do_req w log))) (es @ [req_entry w])"
    unfolding fr unfolding d(1) using c i(1) d fits by (intro chain_write) simp_all
  have "sync (do_req w log) (file_reader f log) (es @ [req_entry w])"
    using i(3) by (simp add: sync_def d(1) algebra_simps)
  moreover have "wf_log (do_req w log)" unfolding d(1) using i(1) d fits by (intro wf_ring_write) simp_all
  moreover have "f \<in> set (keys (do_req w log))" using i(2) by (simp add: d(1) fix_up_readers_def split_beta image_image)
  ultimately show "in_sync f (do_req w log)" using c' fr by (auto simp: in_sync_def)
qed

lemma do_req_size: "wf_log log \<Longrightarrow> req_ok w \<Longrightarrow> lsize (do_req w log) = lsize log"
  by (erule (1) do_req_eq) simp

interpretation lq: fifo "in_sync f" "\<lambda>log. chain log (r_off (file_reader f log))"
    "\<lambda>log es. length (concat es) < lsize log" do_req req_entry req_ok "read_entry f" for f
proof (unfold_locales, goal_cases)
  case (3 log w fs)
  then show ?case by (simp add: do_req_size in_sync_def)
next
  case (8 log)
  then have "w_off log = r_off (file_reader f log)" by (simp add: chain_Nil)
  then show ?case by (simp add: read_entry_def logger_read_def)
qed (use do_req_fits read_entry_some in \<open>auto\<close>)

section \<open>The signs of a new reader\<close>

lemma sint_half: "sint (x :: u32) = (if uint x < 2147483648 then uint x else uint x - 4294967296)"
proof -
  have b: "uint x < 4294967296" "0 \<le> uint x" using uint_bounded [of x] by simp_all
  have "(uint x + 2147483648) mod 4294967296 = uint x - 2147483648" if "\<not> uint x < 2147483648"
    using that b minus_mod_self2 [of "uint x + 2147483648" 4294967296] by simp
  with b show ?thesis
    by (simp add: sint_uint signed_take_bit_eq_take_bit_shift take_bit_eq_mod push_bit_eq_mult)
qed

lemma block_less:
  fixes q N M r :: int
  assumes "0 \<le> r" "r < N"
  shows "q * N + r < M * N \<longleftrightarrow> q < M"
proof (cases "q < M")
  case True
  then have "(q + 1) * N \<le> M * N" using assms by (intro mult_right_mono) simp_all
  with True assms show ?thesis by (simp add: distrib_right)
next
  case False
  then have "M * N \<le> q * N" using assms by (intro mult_right_mono) simp_all
  with False assms show ?thesis by linarith
qed

lemma same_block:
  fixes x y :: u32
  assumes k: "k \<le> 30" and x: "uint x = q * 2 ^ k + r" and y: "uint y = q * 2 ^ k + t"
    and rt: "0 \<le> r" "r < 2 ^ k" "0 \<le> t" "t < 2 ^ k"
  shows "sint x < sint y \<longleftrightarrow> r < t"
proof -
  have "(2147483648 :: int) = 2 ^ (31 - k + k)" using k by simp
  then have M: "(2147483648 :: int) = 2 ^ (31 - k) * 2 ^ k" by (simp only: power_add)
  have "uint x < 2147483648 \<longleftrightarrow> uint y < 2147483648"
    unfolding x y M using block_less [OF rt(1,2)] block_less [OF rt(3,4)] by simp
  then show ?thesis unfolding sint_half using x y by auto
qed

lemma sign_at_sync:
  assumes wf: "wf_log log" and s: "lsign log mod of_nat (lsize log) = of_nat (w_off log)"
    and c: "chain log off es"
  shows "lsign log - sign_at log off = of_nat (length (concat es))"
proof -
  obtain k where k: "k \<le> 30" "lsize log = 2 ^ k" using wf by (auto simp: wf_log_def)
  note sz = wf_log_size [OF wf]
  let ?u = "length (concat es)"
  have off: "off < lsize log" "?u < lsize log" "(off + ?u) mod lsize log = w_off log" using c by (simp_all add: chain_def)
  have small: "uint (of_nat n :: u32) = int n" if "n \<le> lsize log" for n
    using that sz(5) by (simp add: unsigned_of_nat take_bit_nat_eq_self_iff nat_less_le)
  have "uint (lsign log) mod int (lsize log) = int (w_off log)"
    using arg_cong [OF s, of uint] sz(4) unfolding uint_mod by (simp only: small order_refl less_imp_le)
  then have m: "uint (lsign log) mod 2 ^ k = int (w_off log)" by (simp add: k(2))
  define q where "q = uint (lsign log) div 2 ^ k"
  have q: "uint (lsign log) = q * 2 ^ k + int (w_off log)"
    unfolding q_def m [symmetric] by (rule div_mult_mod_eq [symmetric])
  define base where "base = lsign log - of_nat (w_off log)"
  have w: "0 \<le> int (w_off log)" "int (w_off log) < 2 ^ k" "0 \<le> int off" "int off < 2 ^ k"
    using of_nat_less_iff [where 'a = int, THEN iffD2, OF sz(4)] of_nat_less_iff [where 'a = int, THEN iffD2, OF off(1)]
    by (simp_all add: k(2))
  have "(4294967296 :: int) = 2 ^ (32 - k + k)" using k by simp
  then have M: "(4294967296 :: int) = 2 ^ (32 - k) * 2 ^ k" by (simp only: power_add)
  have "uint (lsign log) < 4294967296" using uint_bounded [of "lsign log"] by simp
  then have top: "q * 2 ^ k + int off < 4294967296"
    unfolding q M block_less [OF w(1,2)] block_less [OF w(3,4)] .
  have "\<not> q * 2 ^ k + int (w_off log) < 0 * 2 ^ k" using uint_ge_0 [of "lsign log"] q by simp
  then have q0: "0 \<le> q * 2 ^ k" unfolding block_less [OF w(1,2)] by simp
  have base: "uint base = q * 2 ^ k"
    using uint_sub_lem [of "of_nat (w_off log) :: u32" "lsign log"] small [of "w_off log"] sz(4) q q0
    by (simp add: base_def)
  have g: "uint (base + of_nat off) = q * 2 ^ k + int off"
    using top q0 base small [of off] off(1) by (simp add: uint_word_ariths)
  have cmp: "sint (lsign log) < sint (base + of_nat off) \<longleftrightarrow> w_off log < off"
    using same_block [OF k(1) q g w] by simp
  have sa: "sign_at log off = (if w_off log < off then base + of_nat off - of_nat (lsize log) else base + of_nat off)"
    by (simp only: sign_at_def Let_def s base_def [symmetric] cmp)
  show ?thesis
  proof (cases "w_off log < off")
    case True
    then have "off + ?u = w_off log + lsize log" using off by (auto simp: mod_once split: if_splits)
    from arg_cong [OF this, of "of_nat :: nat \<Rightarrow> u32"] show ?thesis
      using True by (simp add: sa base_def algebra_simps)
  next
    case False
    then have "off + ?u = w_off log" using off sz by (auto simp: mod_once split: if_splits)
    from arg_cong [OF this, of "of_nat :: nat \<Rightarrow> u32"] show ?thesis
      using False by (simp add: sa base_def algebra_simps)
  qed
qed


section \<open>Properties\<close>

text \<open>
  C30: In every state reachable by calls into the driver, every open reader and the head of every
  log stand at the start of an entry: the bytes from there up to the write offset are a
  sequence of well-formed entries shorter than the buffer, and the readers of a log are
  exactly the files open for reading on it.
\<close>

theorem logger_reachable_inv:
  assumes "logger_step\<^sup>*\<^sup>* logger_boot s"
  shows "(\<exists>es. chain (logs s n) (lhead (logs s n)) es) \<and>
    (\<forall>f fl. lfiles s f = Some fl \<and> fmode_read fl \<and> flog fl = n \<longrightarrow>
       (\<exists>es. chain (logs s n) (r_off (file_reader f (logs s n))) es)) \<and>
    (\<forall>f. f \<in> set (keys (logs s n)) \<longleftrightarrow> (\<exists>fl. lfiles s f = Some fl \<and> fmode_read fl \<and> flog fl = n))"
proof -
  note inv = logger_inv_reachable [OF assms]
  have k: "f \<in> set (keys (logs s n)) \<longleftrightarrow> (\<exists>fl. lfiles s f = Some fl \<and> fmode_read fl \<and> flog fl = n)" for f
    using inv by (simp add: logger_inv_def)
  have "\<exists>es. chain (logs s n) (r_off (file_reader f (logs s n))) es" if f: "f \<in> set (keys (logs s n))" for f
  proof -
    obtain rd where "(f, rd) \<in> set (readers (logs s n))" using f by force
    moreover from this have "file_reader f (logs s n) = rd"
      using inv by (simp add: file_reader_def logger_inv_def map_of_is_SomeI)
    ultimately show ?thesis using inv by (auto simp: logger_inv_def log_inv_def)
  qed
  then show ?thesis using k inv by (auto simp: logger_inv_def log_inv_def)
qed

text \<open>A reader on the main log, and a writer's entry of three bytes.\<close>

definition example_log_file :: log_file where
  "example_log_file = \<lparr>fmode_read = True, fmode_write = True, o_nonblock = True, flog = Log_main\<rparr>"

definition example_logs :: logger_state where
  "example_logs = fst (logger_open 0 (\<lambda>n. if n = Log_main then 60 else 0) 60 True 7 example_log_file logger_boot)"

definition example_write :: write_req where
  "example_write = (0, \<lparr>wtgid = 100, wpid = 101, getnstimeofday = (5, 6), cpu_clock_now = (0, 0),
     hdr_stack = replicate 20 0\<rparr>, 3, [(1, [4]), (2, [65, 0])])"

lemma example_logs_eq:
  "logs example_logs Log_main = (boot_log Log_main)\<lparr>readers := [(7, \<lparr>r_off = 0, rsign = 0\<rparr>)]\<rparr>"
  "lfiles example_logs 7 = Some example_log_file"
  by (simp_all add: example_logs_def logger_open_def get_log_from_minor_def Let_def set_log_def logger_boot_def
      example_log_file_def define_logger_device_def sign_at_def)

lemma example_logs_reachable: "logger_step\<^sup>*\<^sup>* logger_boot example_logs"
proof -
  have "logger_step logger_boot example_logs"
    unfolding example_logs_def by (rule log_open) (simp add: logger_boot_def)
  then show ?thesis by blast
qed

lemma example_log_facts:
  "chain (logs example_logs Log_main) 0 []" "file_reader 7 (logs example_logs Log_main) = \<lparr>r_off = 0, rsign = 0\<rparr>"
  "in_sync 7 (logs example_logs Log_main)" "lsize (logs example_logs Log_main) = 65536"
proof -
  have wf: "wf_log (logs example_logs Log_main)"
    using logger_inv_reachable [OF example_logs_reachable] by (simp add: logger_inv_def log_inv_def)
  show c: "chain (logs example_logs Log_main) 0 []"
    by (simp add: chain_Nil example_logs_eq define_logger_device_def)
  show fr: "file_reader 7 (logs example_logs Log_main) = \<lparr>r_off = 0, rsign = 0\<rparr>"
    by (simp add: file_reader_def example_logs_eq)
  show "in_sync 7 (logs example_logs Log_main)"
  proof -
    have "sync (logs example_logs Log_main) \<lparr>r_off = 0, rsign = 0\<rparr> []" "7 \<in> set (keys (logs example_logs Log_main))"
      by (simp_all add: sync_def example_logs_eq define_logger_device_def)
    then show ?thesis unfolding in_sync_def fr using wf c by (auto intro!: exI [of _ "[]"])
  qed
  show "lsize (logs example_logs Log_main) = 65536" by (simp add: example_logs_eq define_logger_device_def)
qed

lemma example_write_ok: "req_ok example_write" "length (req_entry example_write) = 23"
  by (simp_all add: req_ok_def example_write_def good_write_def req_entry_def new_entry_def entry_header_def
      header_fields_def le16_def le32_def payload_def Let_def)

theorem logger_reachable_inv_witness:
  "\<exists>es. chain (logs example_logs Log_main) (r_off (file_reader 7 (logs example_logs Log_main))) es"
proof -
  have "lfiles example_logs 7 = Some example_log_file \<and> fmode_read example_log_file \<and> flog example_log_file = Log_main"
    by (simp add: example_logs_eq example_log_file_def)
  with logger_reachable_inv [OF example_logs_reachable, of Log_main] show ?thesis by blast
qed

text \<open>
  C28: A log is a queue for a reader that has missed nothing. If the pending entries together with
  those of the accepted writes stay below the size of the buffer, then reading after the writes
  returns the pending entries and then every written entry, whole, once and in order.
\<close>

theorem logger_fifo:
  assumes "in_sync f log" and "chain log (r_off (file_reader f log)) es"
    and "\<forall>w \<in> set ws. req_ok w" and "length (concat (es @ map req_entry ws)) < lsize log"
  shows "drain (read_entry f) (length es + length ws) (fold do_req ws log) = es @ map req_entry ws"
  by (rule lq.in_order [OF assms])

theorem logger_fifo_witness:
  "drain (read_entry 7) 2 (fold do_req [example_write, example_write] (logs example_logs Log_main)) =
     [req_entry example_write, req_entry example_write]"
  using logger_fifo [OF example_log_facts(3), of "[]" "[example_write, example_write]"]
  by (simp add: example_log_facts example_write_ok numeral_2_eq_2)

text \<open>
  C29: What a write does to every reader, faulting or not. A write of \<open>n > 0\<close> bytes to a log of a
  reachable state returns the stored length (at most 4076) or \<open>-EFAULT\<close>. The pending entries of
  every reader lose at most a prefix, and nothing at all if the new entry fits behind them; a
  successful write appends exactly its entry, a failed one appends nothing and leaves the
  write offset where it was.
\<close>

theorem logger_write_readers:
  assumes "logger_step\<^sup>*\<^sup>* logger_boot s" and "good_write (g_ts_switch s) env n segs"
    and "lfiles s f = Some fl" "fmode_read fl" and "chain (logs s (flog fl)) (r_off (file_reader f (logs s (flog fl)))) es"
    and "logger_aio_write (g_ts_switch s) env (w_off (logs s (flog fl))) n segs (logs s (flog fl)) = (log', ret)"
  shows "(ret = int (min n 4076) \<or> ret = - EFAULT \<and> w_off log' = w_off (logs s (flog fl))) \<and>
    (\<exists>k \<le> length es. chain log' (r_off (file_reader f log'))
       (drop k es @ (if ret < 0 then [] else [new_entry (g_ts_switch s) env n segs])) \<and>
       (length (concat es) + 20 + min n 4076 < lsize (logs s (flog fl)) \<longrightarrow> k = 0))"
proof -
  let ?log = "logs s (flog fl)"
  note inv = logger_inv_reachable [OF assms(1)]
  have wf: "wf_log ?log" using inv by (simp add: logger_inv_def log_inv_def)
  have "f \<in> set (keys ?log) \<longleftrightarrow> (\<exists>x. lfiles s f = Some x \<and> fmode_read x \<and> flog x = flog fl)"
    using inv by (simp add: logger_inv_def)
  then have f: "f \<in> set (keys ?log)" using assms(3,4) by auto
  note fr = file_reader_fix_up [OF f, of "20 + min n 4076"]
  from logger_aio_write_cases [OF wf assms(2)] show ?thesis
  proof (elim disjE exE conjE, goal_cases)
    case (1 bs sg)
    have l: "log' = scribble (fix_up_readers ?log (20 + min n 4076)) bs sg" "ret = - EFAULT" using 1(2) assms(6) by auto
    have "r_off (file_reader f log') = pull ?log (20 + min n 4076) (r_off (file_reader f ?log))"
      using fr by (simp add: l file_reader_def scribble_def)
    with fault_position [OF wf assms(5) 1(1), of sg] show ?case by (simp add: l scribble_def)
  next
    case 2
    have l: "log' = ring_write (fix_up_readers ?log (20 + min n 4076)) (new_entry (g_ts_switch s) env n segs)"
      "ret = int (min n 4076)" using 2(1) assms(6) by auto
    have "r_off (file_reader f log') = pull ?log (20 + min n 4076) (r_off (file_reader f ?log))"
      using fr by (simp add: l file_reader_def)
    with write_position [OF wf assms(5) 2(2,3)] show ?case by (simp add: l)
  qed
qed

theorem logger_write_readers_witness:
  "\<exists>log' ret k. logger_aio_write 0 (fst (snd example_write)) 0 3 [(1, [4]), (2, [65, 0])] (logs example_logs Log_main) = (log', ret) \<and>
     chain log' (r_off (file_reader 7 log')) (drop k [] @ (if ret < 0 then [] else [req_entry example_write]))"
proof -
  have g: "good_write (g_ts_switch example_logs) (fst (snd example_write)) 3 [(1, [4]), (2, [65, 0])]"
    by (simp add: example_logs_def logger_open_def get_log_from_minor_def Let_def set_log_def logger_boot_def
        example_write_def good_write_def example_log_file_def)
  have ts: "g_ts_switch example_logs = 0"
    by (simp add: example_logs_def logger_open_def get_log_from_minor_def Let_def set_log_def logger_boot_def example_log_file_def)
  have fl: "lfiles example_logs 7 = Some example_log_file" "fmode_read example_log_file" "flog example_log_file = Log_main"
    using example_logs_eq(2) by (simp_all add: example_log_file_def)
  have c: "chain (logs example_logs (flog example_log_file)) (r_off (file_reader 7 (logs example_logs (flog example_log_file)))) []"
    using example_log_facts(1,2) by (simp add: fl(3))
  have w: "w_off (logs example_logs Log_main) = 0" by (simp add: example_logs_eq define_logger_device_def)
  have e: "req_entry example_write = new_entry 0 (fst (snd example_write)) 3 [(1, [4]), (2, [65, 0])]"
    by (simp add: req_entry_def example_write_def)
  show ?thesis
    using logger_write_readers [OF example_logs_reachable g fl(1,2) c prod.collapse [symmetric]]
    unfolding fl(3) w ts e by (metis prod.collapse)
qed

text \<open>
  C32: What a read returns, on every branch. A reader with nothing pending gets \<open>-EAGAIN\<close>,
  \<open>-EINTR\<close> or waits. Otherwise, unless it is warned about lost entries, it gets exactly its
  first pending entry and moves to the next one; if its buffer is too small it gets
  \<open>-EINVAL\<close>, and exactly if the first copy faults, or the entry wraps around the end of the
  ring and the second copy faults, it gets \<open>-EFAULT\<close>; on an error it does not move.
\<close>

theorem logger_read_branches:
  assumes "wf_log log" and "chain log (r_off rd) es" and "\<not> is_overflow (lsize log) (lsign log) (rsign rd)"
  shows "case es of
      [] \<Rightarrow> logger_read nb sg cnt (fw, f1, f2) log rd =
              (rd, if nb then Ret (- EAGAIN) [] else if sg then Ret (- EINTR) [] else Blocked)
    | e # fs \<Rightarrow>
        if cnt < length e then logger_read nb sg cnt (fw, f1, f2) log rd = (rd, Ret (- EINVAL) [])
        else if f1 \<or> lsize log < r_off rd + length e \<and> f2
        then logger_read nb sg cnt (fw, f1, f2) log rd = (rd, Ret (- EFAULT) [])
        else \<exists>rd'. logger_read nb sg cnt (fw, f1, f2) log rd = (rd', Ret (int (length e)) e) \<and>
               chain log (r_off rd') fs"
proof (cases es)
  case Nil
  then show ?thesis using chain_empty_iff [OF assms(1,2)] by (simp add: logger_read_def)
next
  case (Cons e fs)
  note c = assms(2) [unfolded Cons]
  note cc = chain_Cons [OF assms(1) c] and d = do_read_chain [OF assms(1) c]
  have r: "logger_read nb sg cnt (fw, f1, f2) log rd =
      (if cnt < length e then (rd, Ret (- EINVAL) []) else do_read_log_to_user log rd f1 f2 (length e))"
    using cc(1,4) assms(3) by (auto simp: logger_read_def Let_def)
  have "do_read_log_to_user log rd f1 f2 (length e) =
      (if f1 \<or> lsize log < r_off rd + length e \<and> f2 then (rd, Ret (- EFAULT) [])
       else do_read_log_to_user log rd False False (length e))"
    using c by (auto simp: do_read_log_to_user_def Let_def chain_def)
  then show ?thesis using r d cc(3) by (auto simp: Cons)
qed

theorem logger_read_branches_witness:
  "logger_read True False 4096 (False, False, False) (logs example_logs Log_main) \<lparr>r_off = 0, rsign = 0\<rparr> =
     (\<lparr>r_off = 0, rsign = 0\<rparr>, Ret (- EAGAIN) [])"
proof -
  have wf: "wf_log (logs example_logs Log_main)" using example_log_facts(3) by (simp add: in_sync_def)
  have c: "chain (logs example_logs Log_main) (r_off \<lparr>r_off = 0, rsign = 0\<rparr>) []" using example_log_facts(1) by simp
  have "\<not> is_overflow (lsize (logs example_logs Log_main)) (lsign (logs example_logs Log_main)) (rsign \<lparr>r_off = 0, rsign = 0\<rparr>)"
    by (simp add: is_overflow_def example_logs_eq define_logger_device_def)
  from logger_read_branches [OF wf c this, of True False 4096 False False False] show ?thesis by simp
qed



declare show_nat.simps [simp del]

lemma length_show_nat: "n < 10 ^ Suc k \<Longrightarrow> length (show_nat n) \<le> Suc k"
proof (induction k arbitrary: n)
  case 0
  then show ?case by (simp add: show_nat.simps)
next
  case (Suc k)
  have "n div 10 < 10 ^ Suc k" using Suc.prems by (simp add: less_mult_imp_div_less mult.commute)
  from Suc.IH [OF this] show ?case by (subst show_nat.simps) simp
qed

lemma length_warn_text: "length (warn_text d) \<le> 60"
proof -
  have "sint d < 2147483648" "- 2147483648 \<le> sint d" using sint_lt [of d] sint_ge [of d] by simp_all
  then have "nat (sint d) < 10 ^ Suc 9" "nat (- sint d) < 10 ^ Suc 9" by auto
  from this [THEN length_show_nat] have "length (show_long (sint d)) \<le> 11" by (auto simp: show_long_def)
  then show ?thesis by (simp add: warn_text_def)
qed

text \<open>
  C35: The warning that replaces an entry is itself a well-formed entry, but it is copied out
  whatever the size of the caller's buffer: a reader that lost entries and asks for \<open>cnt\<close>
  bytes receives the whole message, at least 75 bytes long, without the \<open>-EINVAL\<close>
  that protects a short buffer from an ordinary entry.
\<close>

theorem warning_ignores_buffer_size:
  assumes "is_overflow (lsize log) (lsign log) (rsign rd)" and "w_off log \<noteq> r_off rd"
  shows "wf_entry (warn_message (lsign log - rsign rd)) \<and>
    snd (logger_read nb sg cnt (False, f1, f2) log rd) =
      Ret (int (length (warn_message (lsign log - rsign rd)))) (warn_message (lsign log - rsign rd)) \<and>
    75 \<le> length (warn_message (lsign log - rsign rd)) \<and>
    r_off (fst (logger_read nb sg cnt (False, f1, f2) log rd)) = r_off rd"
proof -
  let ?d = "lsign log - rsign rd"
  have l: "length (warn_message ?d) = length (warn_text ?d) + 26" by (simp add: warn_message_def Let_def)
  have "warn_message ?d ! 0 = of_nat (length (warn_text ?d) + 6)" "warn_message ?d ! 1 = 0"
    by (simp_all add: warn_message_def Let_def)
  then have "wf_entry (warn_message ?d)" using l length_warn_text [of ?d] le16_value [of "length (warn_text ?d) + 6"]
    by (simp add: wf_entry_def del: of_nat_add)
  moreover have "49 \<le> length (warn_text ?d)" by (simp add: warn_text_def show_long_def show_nat.simps)
  ultimately show ?thesis using assms l by (simp add: logger_read_def warn_overflow_def Let_def)
qed

theorem warning_ignores_buffer_size_witness:
  "snd (logger_read True False 0 (False, False, False) ((logs example_logs Log_main)\<lparr>w_off := 5, lsign := 0x20000\<rparr>) \<lparr>r_off = 0, rsign = 0\<rparr>) =
     Ret (int (length (warn_message 0x20000))) (warn_message 0x20000)"
proof -
  let ?log = "(logs example_logs Log_main)\<lparr>w_off := 5, lsign := 0x20000\<rparr>"
  have "is_overflow (lsize ?log) (lsign ?log) (rsign \<lparr>r_off = 0, rsign = 0\<rparr>)"
    by (simp add: is_overflow_def example_log_facts(4))
  from warning_ignores_buffer_size [OF this, of True False 0 False False] show ?thesis by simp
qed



text \<open>
  C33: A reader opened on a log of a reachable state starts at the head, with the entries from
  there pending, and its byte count agrees with the log's if the log's own count agrees with
  its write offset modulo the size (no write to it has faulted).
\<close>

theorem logger_open_in_sync:
  assumes "logger_step\<^sup>*\<^sup>* logger_boot s" and "lfiles s f = None" and "fmode_read fl"
    and "get_log_from_minor minors minor = Some n" and "chain (logs s n) (lhead (logs s n)) es"
    and "lsign (logs s n) mod of_nat (lsize (logs s n)) = of_nat (w_off (logs s n))"
  shows "\<exists>s'. logger_open 0 minors minor True f fl s = (s', 0) \<and> in_sync f (logs s' n) \<and>
    chain (logs s' n) (r_off (file_reader f (logs s' n))) es"
proof -
  let ?log = "logs s n"
  note inv = logger_inv_reachable [OF assms(1)]
  have wf: "wf_log ?log" using inv by (simp add: logger_inv_def log_inv_def)
  have "f \<in> set (keys ?log) \<longleftrightarrow> (\<exists>x. lfiles s f = Some x \<and> fmode_read x \<and> flog x = n)"
    using inv by (simp add: logger_inv_def)
  then have "f \<notin> set (keys ?log)" using assms(2) by simp
  then have none: "map_of (readers ?log) f = None" by (simp add: map_of_eq_None_iff)
  let ?rd = "\<lparr>r_off = lhead ?log, rsign = sign_at ?log (lhead ?log)\<rparr>"
  let ?new = "?log\<lparr>readers := readers ?log @ [(f, ?rd)]\<rparr>"
  have fr: "file_reader f ?new = ?rd" using none by (simp add: file_reader_def map_add_def)
  have same: "chain ?new = chain ?log" "wf_log ?new = wf_log ?log" by (simp_all add: chain_def wf_log_def fun_eq_iff)
  have "sync ?new ?rd es" using sign_at_sync [OF wf assms(6,5)] by (simp add: sync_def)
  then have "in_sync f ?new" unfolding in_sync_def fr same using wf assms(5) by auto
  then show ?thesis using assms(3,4,5) fr same
    by (auto simp: logger_open_def Let_def set_log_def)
qed

theorem logger_open_in_sync_witness:
  "\<exists>s'. logger_open 0 (\<lambda>n. if n = Log_main then 60 else 0) 60 True 7 example_log_file logger_boot = (s', 0) \<and>
     in_sync 7 (logs s' Log_main)"
proof -
  have c: "chain (logs logger_boot Log_main) (lhead (logs logger_boot Log_main)) []"
    by (simp add: chain_Nil logger_boot_def define_logger_device_def)
  have m: "get_log_from_minor (\<lambda>n. if n = Log_main then 60 else 0) 60 = Some Log_main"
    by (simp add: get_log_from_minor_def)
  have r: "fmode_read example_log_file" by (simp add: example_log_file_def)
  have f: "lfiles logger_boot 7 = None" by (simp add: logger_boot_def)
  have s: "lsign (logs logger_boot Log_main) mod of_nat (lsize (logs logger_boot Log_main)) = of_nat (w_off (logs logger_boot Log_main))"
    by (simp add: logger_boot_def define_logger_device_def)
  show ?thesis using logger_open_in_sync [OF rtranclp.rtrancl_refl f r m c s] by blast
qed

end
