(* ===== verification/Rbtree.thy ===== *)
theory Rbtree
  imports Prelude "HOL-Library.Tree"
begin

text \<open>
  The red-black trees of \<^verbatim>\<open>lib/rbtree.c\<close> and \<^verbatim>\<open>include/linux/rbtree.h\<close>, on an explicit store
  of nodes. A node packs the address of its parent and its colour into one word. The functions
  dereference pointers as the code does: \<^term>\<open>None\<close> is the dereference of a null pointer.
\<close>

section \<open>Nodes\<close>

type_synonym ptr = u32

abbreviation (input) NULL :: ptr where "NULL \<equiv> 0"
abbreviation (input) RB_RED :: u32 where "RB_RED \<equiv> 0"
abbreviation (input) RB_BLACK :: u32 where "RB_BLACK \<equiv> 1"

record rb_node =
  rb_parent_color :: u32
  rb_right :: ptr
  rb_left :: ptr

text \<open>The store: the nodes by address, and the pointer in the \<open>struct rb_root\<close> worked on.\<close>

record rb_store =
  rb_nodes :: "ptr \<Rightarrow> rb_node"
  rb_root :: ptr

definition rb_upd :: "ptr \<Rightarrow> (rb_node \<Rightarrow> rb_node) \<Rightarrow> rb_store \<Rightarrow> rb_store" where
  "rb_upd r f h = h\<lparr>rb_nodes := (rb_nodes h)(r := f (rb_nodes h r))\<rparr>"

abbreviation lft :: "rb_store \<Rightarrow> ptr \<Rightarrow> ptr" where "lft h r \<equiv> rb_left (rb_nodes h r)"
abbreviation rgt :: "rb_store \<Rightarrow> ptr \<Rightarrow> ptr" where "rgt h r \<equiv> rb_right (rb_nodes h r)"

definition set_lft :: "ptr \<Rightarrow> ptr \<Rightarrow> rb_store \<Rightarrow> rb_store" where
  "set_lft r p = rb_upd r (\<lambda>n. n\<lparr>rb_left := p\<rparr>)"

definition set_rgt :: "ptr \<Rightarrow> ptr \<Rightarrow> rb_store \<Rightarrow> rb_store" where
  "set_rgt r p = rb_upd r (\<lambda>n. n\<lparr>rb_right := p\<rparr>)"

definition rb_parent :: "rb_store \<Rightarrow> ptr \<Rightarrow> ptr" where
  "rb_parent h r = rb_parent_color (rb_nodes h r) AND NOT 3"

definition rb_color :: "rb_store \<Rightarrow> ptr \<Rightarrow> u32" where
  "rb_color h r = rb_parent_color (rb_nodes h r) AND 1"

definition rb_is_red :: "rb_store \<Rightarrow> ptr \<Rightarrow> bool" where
  "rb_is_red h r \<longleftrightarrow> rb_color h r = 0"

definition rb_is_black :: "rb_store \<Rightarrow> ptr \<Rightarrow> bool" where
  "rb_is_black h r \<longleftrightarrow> rb_color h r \<noteq> 0"

definition rb_set_red :: "ptr \<Rightarrow> rb_store \<Rightarrow> rb_store" where
  "rb_set_red r = rb_upd r (\<lambda>n. n\<lparr>rb_parent_color := rb_parent_color n AND NOT 1\<rparr>)"

definition rb_set_black :: "ptr \<Rightarrow> rb_store \<Rightarrow> rb_store" where
  "rb_set_black r = rb_upd r (\<lambda>n. n\<lparr>rb_parent_color := rb_parent_color n OR 1\<rparr>)"

definition rb_set_parent :: "ptr \<Rightarrow> ptr \<Rightarrow> rb_store \<Rightarrow> rb_store" where
  "rb_set_parent r p = rb_upd r (\<lambda>n. n\<lparr>rb_parent_color := (rb_parent_color n AND 3) OR p\<rparr>)"

definition rb_set_color :: "ptr \<Rightarrow> u32 \<Rightarrow> rb_store \<Rightarrow> rb_store" where
  "rb_set_color r c = rb_upd r (\<lambda>n. n\<lparr>rb_parent_color := (rb_parent_color n AND NOT 1) OR c\<rparr>)"

text \<open>Where a node is linked: \<open>struct rb_node **rb_link\<close> is the root pointer or a child pointer.\<close>

datatype rb_link = Root_link | Left_link | Right_link

definition rb_link_node :: "ptr \<Rightarrow> ptr \<Rightarrow> rb_link \<Rightarrow> rb_store \<Rightarrow> rb_store" where
  "rb_link_node node parent link h =
     (let h = rb_upd node (\<lambda>n. n\<lparr>rb_parent_color := parent, rb_right := NULL, rb_left := NULL\<rparr>) h in
      case link of
        Root_link \<Rightarrow> h\<lparr>rb_root := node\<rparr>
      | Left_link \<Rightarrow> set_lft parent node h
      | Right_link \<Rightarrow> set_rgt parent node h)"

section \<open>Rotations\<close>

definition rb_rotate_left :: "ptr \<Rightarrow> rb_store \<Rightarrow> rb_store option" where
  "rb_rotate_left node h =
     (let right = rgt h node; parent = rb_parent h node in
      if right = NULL then None
      else
        (let h = set_rgt node (lft h right) h;
             h = (if rgt h node \<noteq> NULL then rb_set_parent (lft h right) node h else h);
             h = set_lft right node h;
             h = rb_set_parent right parent h;
             h = (if parent \<noteq> NULL
                  then (if node = lft h parent then set_lft parent right h else set_rgt parent right h)
                  else h\<lparr>rb_root := right\<rparr>)
         in Some (rb_set_parent node right h)))"

definition rb_rotate_right :: "ptr \<Rightarrow> rb_store \<Rightarrow> rb_store option" where
  "rb_rotate_right node h =
     (let left = lft h node; parent = rb_parent h node in
      if left = NULL then None
      else
        (let h = set_lft node (rgt h left) h;
             h = (if lft h node \<noteq> NULL then rb_set_parent (rgt h left) node h else h);
             h = set_rgt left node h;
             h = rb_set_parent left parent h;
             h = (if parent \<noteq> NULL
                  then (if node = rgt h parent then set_rgt parent left h else set_lft parent left h)
                  else h\<lparr>rb_root := left\<rparr>)
         in Some (rb_set_parent node left h)))"

section \<open>Insertion\<close>

text \<open>
  One pass through the loop of \<open>rb_insert_color\<close>: the node to go on with, or \<^term>\<open>None\<close> when
  its condition fails.
\<close>

definition insert_step :: "ptr \<Rightarrow> rb_store \<Rightarrow> (ptr option \<times> rb_store) option" where
  "insert_step node h =
     (let parent = rb_parent h node in
      if parent = NULL \<or> \<not> rb_is_red h parent then Some (None, h)
      else
        (let gparent = rb_parent h parent in
         if gparent = NULL then None
         else if parent = lft h gparent
         then
           (let uncle = rgt h gparent in
            if uncle \<noteq> NULL \<and> rb_is_red h uncle
            then Some (Some gparent, rb_set_red gparent (rb_set_black parent (rb_set_black uncle h)))
            else do {
              (node, parent, h) \<leftarrow>
                (if rgt h parent = node
                 then do { h \<leftarrow> rb_rotate_left parent h; Some (parent, node, h) }
                 else Some (node, parent, h));
              h \<leftarrow> rb_rotate_right gparent (rb_set_red gparent (rb_set_black parent h));
              Some (Some node, h) })
         else
           (let uncle = lft h gparent in
            if uncle \<noteq> NULL \<and> rb_is_red h uncle
            then Some (Some gparent, rb_set_red gparent (rb_set_black parent (rb_set_black uncle h)))
            else do {
              (node, parent, h) \<leftarrow>
                (if lft h parent = node
                 then do { h \<leftarrow> rb_rotate_right parent h; Some (parent, node, h) }
                 else Some (node, parent, h));
              h \<leftarrow> rb_rotate_left gparent (rb_set_red gparent (rb_set_black parent h));
              Some (Some node, h) })))"

partial_function (option) insert_loop :: "ptr \<Rightarrow> rb_store \<Rightarrow> rb_store option" where
  "insert_loop node h =
     do { (next, h) \<leftarrow> insert_step node h;
          (case next of None \<Rightarrow> Some h | Some node \<Rightarrow> insert_loop node h) }"

definition rb_insert_color :: "ptr \<Rightarrow> rb_store \<Rightarrow> rb_store option" where
  "rb_insert_color node h =
     (if node = NULL then None
      else do {
        h \<leftarrow> insert_loop node h;
        if rb_root h = NULL then None else Some (rb_set_black (rb_root h) h) })"

section \<open>Removal\<close>

text \<open>
  One pass of the loop of \<open>__rb_erase_color\<close>, for a left and for a right child: the node and
  the parent to go on with, or \<^term>\<open>None\<close> after a \<open>break\<close>.
\<close>

definition black_or_null :: "rb_store \<Rightarrow> ptr \<Rightarrow> bool" where
  "black_or_null h r \<longleftrightarrow> r = NULL \<or> rb_is_black h r"

definition erase_left :: "ptr \<Rightarrow> ptr \<Rightarrow> rb_store \<Rightarrow> ((ptr \<times> ptr) option \<times> rb_store) option" where
  "erase_left node parent h =
     do {
       let other = rgt h parent;
       if other = NULL then None
       else do {
         (other, h) \<leftarrow>
           (if rb_is_red h other
            then do {
              h \<leftarrow> rb_rotate_left parent (rb_set_red parent (rb_set_black other h));
              Some (rgt h parent, h) }
            else Some (other, h));
         if other = NULL then None
         else if black_or_null h (lft h other) \<and> black_or_null h (rgt h other)
         then (let h = rb_set_red other h in Some (Some (parent, rb_parent h parent), h))
         else do {
           (other, h) \<leftarrow>
             (if black_or_null h (rgt h other)
              then do {
                h \<leftarrow> rb_rotate_right other (rb_set_red other (rb_set_black (lft h other) h));
                Some (rgt h parent, h) }
              else Some (other, h));
           let h = rb_set_color other (rb_color h parent) h;
           let h = rb_set_black parent h;
           let h = rb_set_black (rgt h other) h;
           h \<leftarrow> rb_rotate_left parent h;
           Some (None, h) } } }"

definition erase_right :: "ptr \<Rightarrow> ptr \<Rightarrow> rb_store \<Rightarrow> ((ptr \<times> ptr) option \<times> rb_store) option" where
  "erase_right node parent h =
     do {
       let other = lft h parent;
       if other = NULL then None
       else do {
         (other, h) \<leftarrow>
           (if rb_is_red h other
            then do {
              h \<leftarrow> rb_rotate_right parent (rb_set_red parent (rb_set_black other h));
              Some (lft h parent, h) }
            else Some (other, h));
         if other = NULL then None
         else if black_or_null h (lft h other) \<and> black_or_null h (rgt h other)
         then (let h = rb_set_red other h in Some (Some (parent, rb_parent h parent), h))
         else do {
           (other, h) \<leftarrow>
             (if black_or_null h (lft h other)
              then do {
                h \<leftarrow> rb_rotate_left other (rb_set_red other (rb_set_black (rgt h other) h));
                Some (lft h parent, h) }
              else Some (other, h));
           let h = rb_set_color other (rb_color h parent) h;
           let h = rb_set_black parent h;
           let h = rb_set_black (lft h other) h;
           h \<leftarrow> rb_rotate_right parent h;
           Some (None, h) } } }"

text \<open>The loop: its result is the node it ends with; a \<open>break\<close> ends with the root.\<close>

partial_function (option) erase_loop :: "ptr \<Rightarrow> ptr \<Rightarrow> rb_store \<Rightarrow> (ptr \<times> rb_store) option" where
  "erase_loop node parent h =
     (if \<not> (black_or_null h node \<and> node \<noteq> rb_root h) then Some (node, h)
      else if parent = NULL then None
      else do {
        (next, h) \<leftarrow> (if lft h parent = node then erase_left node parent h else erase_right node parent h);
        (case next of
           None \<Rightarrow> Some (rb_root h, h)
         | Some (node, parent) \<Rightarrow> erase_loop node parent h) })"

definition rb_erase_color :: "ptr \<Rightarrow> ptr \<Rightarrow> rb_store \<Rightarrow> rb_store option" where
  "rb_erase_color node parent h =
     do { (node, h) \<leftarrow> erase_loop node parent h;
          Some (if node \<noteq> NULL then rb_set_black node h else h) }"

text \<open>The descent to the leftmost node below, and its mirror image.\<close>

partial_function (option) leftmost :: "rb_store \<Rightarrow> ptr \<Rightarrow> ptr option" where
  "leftmost h n = (if lft h n \<noteq> NULL then leftmost h (lft h n) else Some n)"

partial_function (option) rightmost :: "rb_store \<Rightarrow> ptr \<Rightarrow> ptr option" where
  "rightmost h n = (if rgt h n \<noteq> NULL then rightmost h (rgt h n) else Some n)"

text \<open>The pointer to \<open>old\<close>, in its parent or in the root, becomes a pointer to \<open>new\<close>.\<close>

definition change_child :: "ptr \<Rightarrow> ptr \<Rightarrow> ptr \<Rightarrow> rb_store \<Rightarrow> rb_store" where
  "change_child old new parent h =
     (if parent \<noteq> NULL
      then (if lft h parent = old then set_lft parent new h else set_rgt parent new h)
      else h\<lparr>rb_root := new\<rparr>)"

text \<open>
  The branch of \<open>rb_erase\<close> for a node with two children: its successor takes its place. When
  the successor is not its child, the child of the successor moves up first. The result is the
  child that moved up, its parent and the colour that is gone.
\<close>

definition detach :: "ptr \<Rightarrow> ptr \<Rightarrow> ptr \<Rightarrow> ptr \<Rightarrow> rb_store \<Rightarrow> rb_store" where
  "detach node child parent old h =
     (let h = (if child \<noteq> NULL then rb_set_parent child parent h else h);
          h = set_lft parent child h;
          h = set_rgt node (rgt h old) h
      in rb_set_parent (rgt h old) node h)"

definition adopt :: "ptr \<Rightarrow> ptr \<Rightarrow> rb_store \<Rightarrow> rb_store" where
  "adopt node old h =
     (let h = rb_upd node (\<lambda>n. n\<lparr>rb_parent_color := rb_parent_color (rb_nodes h old)\<rparr>) h;
          h = set_lft node (lft h old) h
      in rb_set_parent (lft h old) node h)"

definition erase_two :: "ptr \<Rightarrow> rb_store \<Rightarrow> (ptr \<times> ptr \<times> u32 \<times> rb_store) option" where
  "erase_two old h =
     do {
       node \<leftarrow> leftmost h (rgt h old);
       let h = change_child old node (rb_parent h old) h;
       let child = rgt h node;
       let parent = rb_parent h node;
       let color = rb_color h node;
       let (parent, h) = (if parent = old then (node, h) else (parent, detach node child parent old h));
       Some (child, parent, color, adopt node old h) }"

text \<open>The branch for a node with at most one child.\<close>

definition erase_one :: "ptr \<Rightarrow> ptr \<Rightarrow> rb_store \<Rightarrow> ptr \<times> ptr \<times> u32 \<times> rb_store" where
  "erase_one node child h =
     (let parent = rb_parent h node;
          color = rb_color h node;
          h = (if child \<noteq> NULL then rb_set_parent child parent h else h)
      in (child, parent, color, change_child node child parent h))"

definition rb_erase :: "ptr \<Rightarrow> rb_store \<Rightarrow> rb_store option" where
  "rb_erase node h =
     (if node = NULL then None
      else do {
        (child, parent, color, h) \<leftarrow>
          (if lft h node = NULL then Some (erase_one node (rgt h node) h)
           else if rgt h node = NULL then Some (erase_one node (lft h node) h)
           else erase_two node h);
        if color = RB_BLACK then rb_erase_color child parent h else Some h })"

section \<open>Walking\<close>

definition rb_first :: "rb_store \<Rightarrow> ptr option" where
  "rb_first h = (if rb_root h = NULL then Some NULL else leftmost h (rb_root h))"

definition rb_last :: "rb_store \<Rightarrow> ptr option" where
  "rb_last h = (if rb_root h = NULL then Some NULL else rightmost h (rb_root h))"

text \<open>The climb while the node is a right child, and its mirror image.\<close>

partial_function (option) climb_right :: "rb_store \<Rightarrow> ptr \<Rightarrow> ptr option" where
  "climb_right h n =
     (let parent = rb_parent h n in
      if parent \<noteq> NULL \<and> n = rgt h parent then climb_right h parent else Some parent)"

partial_function (option) climb_left :: "rb_store \<Rightarrow> ptr \<Rightarrow> ptr option" where
  "climb_left h n =
     (let parent = rb_parent h n in
      if parent \<noteq> NULL \<and> n = lft h parent then climb_left h parent else Some parent)"

definition rb_next :: "rb_store \<Rightarrow> ptr \<Rightarrow> ptr option" where
  "rb_next h n =
     (if n = NULL then None
      else if rb_parent h n = n then Some NULL
      else if rgt h n \<noteq> NULL then leftmost h (rgt h n)
      else climb_right h n)"

definition rb_prev :: "rb_store \<Rightarrow> ptr \<Rightarrow> ptr option" where
  "rb_prev h n =
     (if n = NULL then None
      else if rb_parent h n = n then Some NULL
      else if lft h n \<noteq> NULL then rightmost h (lft h n)
      else climb_left h n)"

definition rb_replace_node :: "ptr \<Rightarrow> ptr \<Rightarrow> rb_store \<Rightarrow> rb_store option" where
  "rb_replace_node victim new h =
     (if victim = NULL \<or> new = NULL then None
      else
        (let parent = rb_parent h victim;
             h = (if parent \<noteq> NULL
                  then (if victim = lft h parent then set_lft parent new h else set_rgt parent new h)
                  else h\<lparr>rb_root := new\<rparr>);
             h = (if lft h victim \<noteq> NULL then rb_set_parent (lft h victim) new h else h);
             h = (if rgt h victim \<noteq> NULL then rb_set_parent (rgt h victim) new h else h)
         in Some (rb_upd new (\<lambda>_. rb_nodes h victim) h)))"

end
