(* ===== verification/Rb_Trees.thy ===== *)
theory Rb_Trees
  imports Prelude "HOL-Library.Tree"
begin

text \<open>
  Red-black trees as values: what the pointer code of \<^verbatim>\<open>lib/rbtree.c\<close> does to the shape and
  colours of a tree. A position in a tree is a subtree and the path from it up to the root,
  so that following a parent pointer is taking the first step off the path. The operations
  keep the order of the nodes and the balance of the tree.
\<close>

section \<open>Trees and paths\<close>

datatype color = Red | Black

lemma color_neq [simp]: "c \<noteq> Red \<longleftrightarrow> c = Black" "c \<noteq> Black \<longleftrightarrow> c = Red"
  by (cases c; simp)+

type_synonym 'a rbt = "('a \<times> color) tree"

text \<open>A step up: the subtree is the left or the right child of a node.\<close>

datatype 'a step = LStep 'a color "'a rbt" | RStep "'a rbt" 'a color

fun plug :: "'a rbt \<Rightarrow> 'a step list \<Rightarrow> 'a rbt" where
  "plug t [] = t"
| "plug t (LStep a c r # path) = plug (Node t (a, c) r) path"
| "plug t (RStep l a c # path) = plug (Node l (a, c) t) path"

fun paint :: "color \<Rightarrow> 'a rbt \<Rightarrow> 'a rbt" where
  "paint c Leaf = Leaf"
| "paint c (Node l (a, _) r) = Node l (a, c) r"

fun col :: "'a rbt \<Rightarrow> color" where
  "col Leaf = Black"
| "col (Node _ (_, c) _) = c"

text \<open>The position of the node with address \<open>a\<close>.\<close>

fun locate :: "'a \<Rightarrow> 'a rbt \<Rightarrow> 'a step list \<Rightarrow> ('a rbt \<times> 'a step list) option" where
  "locate a Leaf path = None"
| "locate a (Node l (b, c) r) path =
     (if a = b then Some (Node l (b, c) r, path)
      else case locate a l (LStep b c r # path) of
             Some z \<Rightarrow> Some z
           | None \<Rightarrow> locate a r (RStep l b c # path))"

lemma rbt_induct [case_names Leaf Node]:
  assumes "P Leaf" "\<And>l a c r. P l \<Longrightarrow> P r \<Longrightarrow> P (Node l (a, c) r)"
  shows "P t"
  using assms by (induction t) auto

section \<open>Insertion and removal\<close>

fun ins_fix :: "'a rbt \<Rightarrow> 'a step list \<Rightarrow> 'a rbt" where
  "ins_fix t (LStep p Red s # LStep g gc u # path) =
     (if col u = Red then ins_fix (Node (Node t (p, Black) s) (g, Red) (paint Black u)) path
      else plug (Node t (p, Black) (Node s (g, Red) u)) path)"
| "ins_fix (Node a (x, xc) b) (RStep s p Red # LStep g gc u # path) =
     (if col u = Red then ins_fix (Node (Node s (p, Black) (Node a (x, xc) b)) (g, Red) (paint Black u)) path
      else plug (Node (Node s (p, Red) a) (x, Black) (Node b (g, Red) u)) path)"
| "ins_fix t (RStep s p Red # RStep u g gc # path) =
     (if col u = Red then ins_fix (Node (paint Black u) (g, Red) (Node s (p, Black) t)) path
      else plug (Node (Node u (g, Red) s) (p, Black) t) path)"
| "ins_fix (Node a (x, xc) b) (LStep p Red s # RStep u g gc # path) =
     (if col u = Red then ins_fix (Node (paint Black u) (g, Red) (Node (Node a (x, xc) b) (p, Black) s)) path
      else plug (Node (Node u (g, Red) a) (x, Black) (Node b (p, Red) s)) path)"
| "ins_fix t path = plug t path"

definition tree_insert_color :: "'a \<Rightarrow> 'a rbt \<Rightarrow> 'a rbt" where
  "tree_insert_color a t =
     (case locate a t [] of None \<Rightarrow> t | Some (f, path) \<Rightarrow> paint Black (ins_fix f path))"

text \<open>
  Removal: \<open>t\<close> lacks one black node on its way to the leaves, and \<open>s\<close> is its sibling below the
  node \<open>p\<close>. A red sibling is rotated up first.
\<close>

definition rot_sib_L :: "'a \<Rightarrow> color \<Rightarrow> 'a rbt \<Rightarrow> 'a step list \<Rightarrow> color \<times> 'a rbt \<times> 'a step list" where
  "rot_sib_L p pc s path =
     (case s of Node sl (x, Red) sr \<Rightarrow> (Red, sl, LStep x Black sr # path) | _ \<Rightarrow> (pc, s, path))"

definition rot_sib_R :: "'a \<Rightarrow> color \<Rightarrow> 'a rbt \<Rightarrow> 'a step list \<Rightarrow> color \<times> 'a rbt \<times> 'a step list" where
  "rot_sib_R p pc s path =
     (case s of Node sl (x, Red) sr \<Rightarrow> (Red, sr, RStep sl x Black # path) | _ \<Rightarrow> (pc, s, path))"

text \<open>The two rotations that end the loop, for a black sibling with a red child.\<close>

definition borrow_L :: "'a rbt \<Rightarrow> 'a \<Rightarrow> color \<Rightarrow> 'a rbt \<Rightarrow> 'a rbt" where
  "borrow_L t p pc s =
     (case s of
        Node sl (y, _) sr \<Rightarrow>
          if col sr = Black
          then (case sl of
                  Node a (x, _) b \<Rightarrow> Node (Node t (p, Black) a) (x, pc) (Node b (y, Black) sr)
                | Leaf \<Rightarrow> Node t (p, pc) s)
          else Node (Node t (p, Black) sl) (y, pc) (paint Black sr)
      | Leaf \<Rightarrow> Node t (p, pc) s)"

definition borrow_R :: "'a rbt \<Rightarrow> 'a \<Rightarrow> color \<Rightarrow> 'a rbt \<Rightarrow> 'a rbt" where
  "borrow_R t p pc s =
     (case s of
        Node sl (y, _) sr \<Rightarrow>
          if col sl = Black
          then (case sr of
                  Node a (x, _) b \<Rightarrow> Node (Node sl (y, Black) a) (x, pc) (Node b (p, Black) t)
                | Leaf \<Rightarrow> Node s (p, pc) t)
          else Node (paint Black sl) (y, pc) (Node sr (p, Black) t)
      | Leaf \<Rightarrow> Node s (p, pc) t)"

fun kids_black :: "'a rbt \<Rightarrow> bool" where
  "kids_black Leaf = True"
| "kids_black (Node l _ r) \<longleftrightarrow> col l = Black \<and> col r = Black"

function erase_fix :: "'a rbt \<Rightarrow> 'a step list \<Rightarrow> 'a rbt" where
  "erase_fix t path =
     (if col t = Red then plug (paint Black t) path
      else case path of
        [] \<Rightarrow> t
      | LStep p pc s # path \<Rightarrow>
          (case rot_sib_L p pc s path of (pc, s, path) \<Rightarrow>
             if kids_black s then erase_fix (Node t (p, pc) (paint Red s)) path
             else paint Black (plug (borrow_L t p pc s) path))
      | RStep s p pc # path \<Rightarrow>
          (case rot_sib_R p pc s path of (pc, s, path) \<Rightarrow>
             if kids_black s then erase_fix (Node (paint Red s) (p, pc) t) path
             else paint Black (plug (borrow_R t p pc s) path)))"
  by pat_completeness auto
termination
proof (relation "measure (\<lambda>(t, path). 2 * length path + (if col t = Black then 1 else 0))", goal_cases)
  case (2 t path st rest p pc s pc' z s' rest')
  then show ?case by (auto simp: rot_sib_L_def split: tree.splits color.splits prod.splits)
next
  case (3 t path st rest s p pc pc' z s' rest')
  then show ?case by (auto simp: rot_sib_R_def split: tree.splits color.splits prod.splits)
qed simp

declare erase_fix.simps [simp del]

text \<open>The position of the leftmost node, as its label, its right subtree and the path.\<close>

fun min_zip :: "'a rbt \<Rightarrow> 'a step list \<Rightarrow> ('a \<times> color) \<times> 'a rbt \<times> 'a step list" where
  "min_zip (Node l (a, c) r) path = (if l = Leaf then ((a, c), r, path) else min_zip l (LStep a c r # path))"

definition tree_erase :: "'a \<Rightarrow> 'a rbt \<Rightarrow> 'a rbt" where
  "tree_erase a t =
     (case locate a t [] of
        Some (Node l (b, c) r, path) \<Rightarrow>
          (let (gone, child, path) =
             (if l = Leaf then (c, r, path)
              else if r = Leaf then (c, l, path)
              else (case min_zip r [] of ((m, mc), child, mp) \<Rightarrow> (mc, child, mp @ RStep l m c # path)))
           in if gone = Black then erase_fix child path else plug child path)
      | _ \<Rightarrow> t)"

section \<open>The order of the nodes\<close>

definition keys :: "'a rbt \<Rightarrow> 'a list" where
  "keys t = map fst (inorder t)"

lemma keys_simps [simp]: "keys Leaf = []" "keys (Node l (a, c) r) = keys l @ a # keys r"
  by (simp_all add: keys_def)

lemma keys_paint [simp]: "keys (paint c t) = keys t"
  by (cases "(c, t)" rule: paint.cases) auto

fun before :: "'a step list \<Rightarrow> 'a list" where
  "before [] = []"
| "before (LStep a c r # path) = before path"
| "before (RStep l a c # path) = before path @ keys l @ [a]"

fun after :: "'a step list \<Rightarrow> 'a list" where
  "after [] = []"
| "after (LStep a c r # path) = a # keys r @ after path"
| "after (RStep l a c # path) = after path"

lemma keys_plug [simp]: "keys (plug t path) = before path @ keys t @ after path"
  by (induction t path rule: plug.induct) auto

lemma plug_append: "plug t (p @ q) = plug (plug t p) q"
  by (induction t p rule: plug.induct) auto

lemma before_append [simp]: "before (p @ q) = before q @ before p"
  by (induction p rule: before.induct) auto

lemma after_append [simp]: "after (p @ q) = after p @ after q"
  by (induction p rule: after.induct) auto

lemma keys_ins_fix: "keys (ins_fix t path) = keys (plug t path)"
  by (induction t path rule: ins_fix.induct) simp_all

lemma rot_sib_L_keys: "rot_sib_L p pc s path = (pc', s', path') \<Longrightarrow>
    before path' @ keys t @ p # keys s' @ after path' = before path @ keys t @ p # keys s @ after path"
  by (auto simp: rot_sib_L_def split: tree.splits color.splits prod.splits)

lemma rot_sib_R_keys: "rot_sib_R p pc s path = (pc', s', path') \<Longrightarrow>
    before path' @ keys s' @ p # keys t @ after path' = before path @ keys s @ p # keys t @ after path"
  by (auto simp: rot_sib_R_def split: tree.splits color.splits prod.splits)

lemma keys_borrow [simp]:
  "keys (borrow_L t p pc s) = keys t @ p # keys s" "keys (borrow_R t p pc s) = keys s @ p # keys t"
  by (auto simp: borrow_L_def borrow_R_def split: tree.splits prod.splits)

text \<open>The three ways through the removal loop, as equations and as an induction rule.\<close>

lemma erase_fix_done: "col t = Red \<or> path = [] \<Longrightarrow> erase_fix t path = (if col t = Red then plug (paint Black t) path else t)"
  by (subst erase_fix.simps) auto

lemma erase_fix_left:
  "col t = Black \<Longrightarrow> rot_sib_L p pc s rest = (pc', s', path') \<Longrightarrow>
     erase_fix t (LStep p pc s # rest) =
       (if kids_black s' then erase_fix (Node t (p, pc') (paint Red s')) path'
        else paint Black (plug (borrow_L t p pc' s') path'))"
  by (subst erase_fix.simps) auto

lemma erase_fix_right:
  "col t = Black \<Longrightarrow> rot_sib_R p pc s rest = (pc', s', path') \<Longrightarrow>
     erase_fix t (RStep s p pc # rest) =
       (if kids_black s' then erase_fix (Node (paint Red s') (p, pc') t) path'
        else paint Black (plug (borrow_R t p pc' s') path'))"
  by (subst erase_fix.simps) auto

lemma erase_fix_induct [case_names stop left right]:
  assumes "\<And>t path. col t = Red \<or> path = [] \<Longrightarrow> P t path"
    and "\<And>t p pc s rest pc' s' path'. col t = Black \<Longrightarrow> rot_sib_L p pc s rest = (pc', s', path') \<Longrightarrow>
      (kids_black s' \<Longrightarrow> P (Node t (p, pc') (paint Red s')) path') \<Longrightarrow> P t (LStep p pc s # rest)"
    and "\<And>t p pc s rest pc' s' path'. col t = Black \<Longrightarrow> rot_sib_R p pc s rest = (pc', s', path') \<Longrightarrow>
      (kids_black s' \<Longrightarrow> P (Node (paint Red s') (p, pc') t) path') \<Longrightarrow> P t (RStep s p pc # rest)"
  shows "P t path"
proof (induction t path rule: erase_fix.induct)
  case (1 t path)
  show ?case
  proof (cases "col t = Red \<or> path = []")
    case False
    then have t: "col t \<noteq> Red" by simp
    obtain st rest where path: "path = st # rest" using False by (cases path) auto
    show ?thesis
    proof (cases st)
      case (LStep p pc s)
      obtain pc' s' path' where r: "rot_sib_L p pc s rest = (pc', s', path')" by (rule prod_cases3)
      show ?thesis unfolding path LStep using t by (intro assms(2) [OF _ r] 1(1) [OF t path LStep r [symmetric] refl]) simp_all
    next
      case (RStep s p pc)
      obtain pc' s' path' where r: "rot_sib_R p pc s rest = (pc', s', path')" by (rule prod_cases3)
      show ?thesis unfolding path RStep using t by (intro assms(3) [OF _ r] 1(2) [OF t path RStep r [symmetric] refl]) simp_all
    qed
  qed (rule assms(1))
qed

lemma keys_erase_fix: "keys (erase_fix t path) = keys (plug t path)"
proof (induction t path rule: erase_fix_induct)
  case (left t p pc s rest pc' s' path')
  then show ?case using rot_sib_L_keys [OF left(2), of t] by (simp add: erase_fix_left)
next
  case (right t p pc s rest pc' s' path')
  then show ?case using rot_sib_R_keys [OF right(2), of t] by (simp add: erase_fix_right)
qed (auto simp: erase_fix_done)

lemma locate_Some: "locate a t path = Some (f, path') \<Longrightarrow> plug f path' = plug t path \<and> (\<exists>l c r. f = Node l (a, c) r)"
  by (induction a t path rule: locate.induct) (auto split: if_splits option.splits)

lemma locate_None: "locate a t path = None \<longleftrightarrow> a \<notin> set (keys t)"
  by (induction a t path rule: locate.induct) (auto split: if_splits option.splits)

lemma locate_plug:
  "a \<notin> set (before path) \<union> set (after path) \<Longrightarrow> locate a (plug t path) q = locate a t (path @ q)"
proof (induction path arbitrary: t)
  case (Cons st path)
  show ?case
  proof (cases st)
    case (LStep b c r)
    then show ?thesis using Cons locate_None [of a r "RStep t b c # path @ q"] by (auto split: option.splits)
  next
    case (RStep l b c)
    then show ?thesis using Cons locate_None [of a l "LStep b c t # path @ q"] by (auto split: option.splits)
  qed
qed simp

lemma locateE:
  assumes "a \<in> set (keys t)"
  obtains l c r path where "locate a t [] = Some (Node l (a, c) r, path)" "plug (Node l (a, c) r) path = t"
  using assms locate_None [of a t "[]"] locate_Some [of a t "[]"] by fastforce

lemma keys_tree_insert_color [simp]: "keys (tree_insert_color a t) = keys t"
  by (auto simp: tree_insert_color_def keys_ins_fix simp del: keys_plug dest: locate_Some split: option.splits prod.splits)

lemma min_zip_plug:
  "t \<noteq> Leaf \<Longrightarrow> min_zip t path = ((m, mc), child, path') \<Longrightarrow>
     plug (Node Leaf (m, mc) child) path' = plug t path \<and> (\<exists>p. path' = p @ path \<and> before p = [])"
proof (induction t path rule: min_zip.induct)
  case (1 l a c r path)
  show ?case
  proof (cases "l = Leaf")
    case False
    then show ?thesis using 1 by (fastforce simp: append_eq_Cons_conv)
  qed (use 1 in auto)
qed simp

lemma keys_tree_erase: "distinct (keys t) \<Longrightarrow> keys (tree_erase a t) = removeAll a (keys t)"
proof (cases "a \<in> set (keys t)")
  case True
  assume d: "distinct (keys t)"
  obtain l c r path where lc: "locate a t [] = Some (Node l (a, c) r, path)" "plug (Node l (a, c) r) path = t"
    using True by (rule locateE)
  have k: "keys t = before path @ keys l @ a # keys r @ after path" by (simp add: lc(2) [symmetric])
  then have "removeAll a (keys t) = before path @ keys l @ keys r @ after path" using d by (simp add: removeAll_id)
  moreover have "keys (tree_erase a t) = before path @ keys l @ keys r @ after path"
  proof (cases "l = Leaf \<or> r = Leaf")
    case True
    then show ?thesis by (auto simp: tree_erase_def lc(1) keys_erase_fix)
  next
    case False
    obtain m mc child mp where mz: "min_zip r [] = ((m, mc), child, mp)" by (metis prod_cases4 surj_pair)
    have "plug (Node Leaf (m, mc) child) mp = r" "before mp = []" using min_zip_plug [OF _ mz] False by auto
    then have "keys r = m # keys child @ after mp" by (metis append_Nil keys_plug keys_simps append_Cons)
    then show ?thesis using False \<open>before mp = []\<close> by (simp add: tree_erase_def lc(1) mz keys_erase_fix)
  qed
  ultimately show ?thesis by simp
next
  case False
  then show ?thesis using locate_None [of a t "[]"] by (simp add: tree_erase_def removeAll_id)
qed

section \<open>Balance\<close>

fun bheight :: "'a rbt \<Rightarrow> nat" where
  "bheight Leaf = 0"
| "bheight (Node l (a, c) r) = bheight l + (if c = Black then 1 else 0)"

text \<open>No red node has a red child; both subtrees of a node have as many black nodes on every way down.\<close>

fun invc :: "'a rbt \<Rightarrow> bool" where
  "invc Leaf = True"
| "invc (Node l (a, c) r) \<longleftrightarrow> (c = Red \<longrightarrow> col l = Black \<and> col r = Black) \<and> invc l \<and> invc r"

fun invh :: "'a rbt \<Rightarrow> bool" where
  "invh Leaf = True"
| "invh (Node l (a, c) r) \<longleftrightarrow> bheight l = bheight r \<and> invh l \<and> invh r"

definition rbt :: "'a rbt \<Rightarrow> bool" where
  "rbt t \<longleftrightarrow> invc t \<and> invh t \<and> col t = Black"

text \<open>The colour above a position, where the root counts as below a red node, and what a path asks of a tree of black height \<open>h\<close>.\<close>

fun pcol :: "'a step list \<Rightarrow> color" where
  "pcol [] = Red"
| "pcol (LStep a c r # path) = c"
| "pcol (RStep l a c # path) = c"

fun okp :: "nat \<Rightarrow> 'a step list \<Rightarrow> bool" where
  "okp h [] = True"
| "okp h (LStep a c r # path) \<longleftrightarrow> invc r \<and> invh r \<and> bheight r = h \<and>
     (c = Red \<longrightarrow> col r = Black \<and> pcol path = Black) \<and> okp (if c = Black then h + 1 else h) path"
| "okp h (RStep l a c # path) \<longleftrightarrow> invc l \<and> invh l \<and> bheight l = h \<and>
     (c = Red \<longrightarrow> col l = Black \<and> pcol path = Black) \<and> okp (if c = Black then h + 1 else h) path"

lemma rbt_plug:
  "rbt (plug t path) \<longleftrightarrow> invc t \<and> invh t \<and> okp (bheight t) path \<and> (pcol path = Red \<longrightarrow> col t = Black)"
proof (induction t path rule: plug.induct)
  case (2 t a c r path)
  then show ?case by (cases c) auto
next
  case (3 t l a c path)
  then show ?case by (cases c) auto
qed (auto simp: rbt_def)

lemma paint_simps [simp]:
  "col t = Black \<Longrightarrow> paint Black t = t" "invh (paint c t) \<longleftrightarrow> invh t" "col (paint Black t) = Black"
  "invc t \<Longrightarrow> invc (paint Black t)" "paint c t = Leaf \<longleftrightarrow> t = Leaf"
  "col t = Red \<Longrightarrow> bheight (paint Black t) = bheight t + 1"
  by (cases "(Black, t)" rule: paint.cases; cases c; auto)+

lemma paint_rbt: "invc t \<Longrightarrow> invh t \<Longrightarrow> rbt (paint Black t)"
  by (simp add: rbt_def)

lemma plug_paint:
  assumes "invc t" "invh t" "okp (bheight t) path" "path = [] \<or> pcol path = Black"
  shows "rbt (paint Black (plug t path))"
proof (cases "path = []")
  case False
  then have "rbt (plug t path)" using assms by (auto simp: rbt_plug)
  then show ?thesis by (simp add: rbt_def)
qed (use assms in \<open>simp add: paint_rbt\<close>)

lemma okp_single: "okp h [st] \<Longrightarrow> pcol [st] = Black"
  by (cases st) (auto intro: color.exhaust)

lemma ins_fix_rbt:
  assumes "invc t" "invh t" "okp (bheight t) path" "col t = Red"
  shows "rbt (paint Black (ins_fix t path))"
  using assms
proof (induction t path rule: ins_fix.induct)
  case (1 t p s g gc u path)
  show ?case
  proof (cases "col u = Red")
    case True
    then show ?thesis using 1 by (cases gc) simp_all
  next
    case False
    then have "rbt (plug (Node t (p, Black) (Node s (g, Red) u)) path)" using 1 by (cases gc) (simp_all add: rbt_plug)
    then show ?thesis using False by (simp add: rbt_def)
  qed
next
  case (2 a x xc b s p g gc u path)
  show ?case
  proof (cases "col u = Red")
    case True
    then show ?thesis using 2 by (cases gc) simp_all
  next
    case False
    then have "rbt (plug (Node (Node s (p, Red) a) (x, Black) (Node b (g, Red) u)) path)" using 2 by (cases gc) (simp_all add: rbt_plug)
    then show ?thesis using False by (simp add: rbt_def)
  qed
next
  case (3 t s p u g gc path)
  show ?case
  proof (cases "col u = Red")
    case True
    then show ?thesis using 3 by (cases gc) simp_all
  next
    case False
    then have "rbt (plug (Node (Node u (g, Red) s) (p, Black) t) path)" using 3 by (cases gc) (simp_all add: rbt_plug)
    then show ?thesis using False by (simp add: rbt_def)
  qed
next
  case (4 a x xc b p s u g gc path)
  show ?case
  proof (cases "col u = Red")
    case True
    then show ?thesis using 4 by (cases gc) simp_all
  next
    case False
    then have "rbt (plug (Node (Node u (g, Red) a) (x, Black) (Node b (p, Red) s)) path)" using 4 by (cases gc) (simp_all add: rbt_plug)
    then show ?thesis using False by (simp add: rbt_def)
  qed
qed (auto intro!: plug_paint okp_single simp del: plug.simps)

lemma rot_sib_L_ok:
  assumes "rot_sib_L p pc s rest = (pc', s', path')" "okp (Suc h) (LStep p pc s # rest)"
  shows "okp (Suc h) (LStep p pc' s' # path') \<and> col s' = Black \<and> s' \<noteq> Leaf"
  using assms by (cases s) (auto simp: rot_sib_L_def split: color.splits if_splits)

lemma rot_sib_R_ok:
  assumes "rot_sib_R p pc s rest = (pc', s', path')" "okp (Suc h) (RStep s p pc # rest)"
  shows "okp (Suc h) (RStep s' p pc' # path') \<and> col s' = Black \<and> s' \<noteq> Leaf"
  using assms by (cases s) (auto simp: rot_sib_R_def split: color.splits if_splits)

lemma paint_Red_simps:
  "s \<noteq> Leaf \<Longrightarrow> kids_black s \<Longrightarrow> invc s \<Longrightarrow> invc (paint Red s)"
  "s \<noteq> Leaf \<Longrightarrow> col s = Black \<Longrightarrow> bheight s = Suc h \<Longrightarrow> bheight (paint Red s) = h"
  "s \<noteq> Leaf \<Longrightarrow> col (paint c s) = c"
  by (cases s; force)+

lemma borrow_L_ok:
  assumes "\<not> kids_black s" "invc s" "invh s" "bheight s = Suc (bheight t)" "col s = Black" "invc t" "invh t" "col t = Black"
  shows "invc (borrow_L t p pc s)" "invh (borrow_L t p pc s)"
    "bheight (borrow_L t p pc s) = Suc (bheight t) + (if pc = Black then 1 else 0)" "col (borrow_L t p pc s) = pc"
  using assms by (cases s; auto simp: borrow_L_def split: tree.splits)+

lemma borrow_R_ok:
  assumes "\<not> kids_black s" "invc s" "invh s" "bheight s = Suc (bheight t)" "col s = Black" "invc t" "invh t" "col t = Black"
  shows "invc (borrow_R t p pc s)" "invh (borrow_R t p pc s)"
    "bheight (borrow_R t p pc s) = Suc (bheight t) + (if pc = Black then 1 else 0)" "col (borrow_R t p pc s) = pc"
  using assms by (cases s; auto simp: borrow_R_def split: tree.splits)+

lemma erase_fix_rbt:
  assumes "invc (paint Black t)" "invh t" "okp (Suc (bheight t)) path"
  shows "rbt (erase_fix t path)"
  using assms
proof (induction t path rule: erase_fix_induct)
  case (stop t path)
  show ?case
  proof (cases "col t = Red")
    case True
    then show ?thesis using stop by (simp add: erase_fix_done rbt_plug)
  qed (use stop in \<open>simp add: erase_fix_done rbt_def\<close>)
next
  case (left t p pc s rest pc' s' path')
  have ok: "okp (Suc (bheight t)) (LStep p pc' s' # path')" "col s' = Black" "s' \<noteq> Leaf"
    using rot_sib_L_ok [OF left(2) left(6)] by auto
  show ?case
  proof (cases "kids_black s'")
    case True
    then show ?thesis using left ok by (cases pc') (simp_all add: erase_fix_left paint_Red_simps)
  next
    case False
    then have "rbt (plug (borrow_L t p pc' s') path')" using left ok borrow_L_ok [of s' t p pc']
      by (cases pc') (simp_all add: rbt_plug)
    then show ?thesis using False left by (simp add: erase_fix_left rbt_def)
  qed
next
  case (right t p pc s rest pc' s' path')
  have ok: "okp (Suc (bheight t)) (RStep s' p pc' # path')" "col s' = Black" "s' \<noteq> Leaf"
    using rot_sib_R_ok [OF right(2) right(6)] by auto
  show ?case
  proof (cases "kids_black s'")
    case True
    then show ?thesis using right ok by (cases pc') (simp_all add: erase_fix_right paint_Red_simps)
  next
    case False
    then have "rbt (plug (borrow_R t p pc' s') path')" using right ok borrow_R_ok [of s' t p pc']
      by (cases pc') (simp_all add: rbt_plug)
    then show ?thesis using False right by (simp add: erase_fix_right rbt_def)
  qed
qed

text \<open>Replacing the label of a node on the path changes nothing about balance.\<close>

lemma okp_relabel: "okp h (q @ RStep l a c # path) = okp h (q @ RStep l m c # path)"
  and pcol_relabel: "pcol (q @ RStep l a c # path) = pcol (q @ RStep l m c # path)"
proof -
  show pc: "pcol (q @ RStep l a c # path) = pcol (q @ RStep l m c # path)" for q
    by (cases q rule: pcol.cases) auto
  show "okp h (q @ RStep l a c # path) = okp h (q @ RStep l m c # path)"
    using pc by (induction h q rule: okp.induct) auto
qed

text \<open>A red leaf put into a hole of a balanced tree, then recoloured, balances again.\<close>

lemma tree_insert_color_rbt:
  assumes "rbt (plug Leaf path)" "locate a (plug (Node Leaf (a, Red) Leaf) path) [] = Some (Node Leaf (a, Red) Leaf, path)"
  shows "rbt (tree_insert_color a (plug (Node Leaf (a, Red) Leaf) path))"
  using assms by (auto simp: tree_insert_color_def rbt_plug intro!: ins_fix_rbt)

text \<open>What removal leaves before the loop: the subtree that moves up and whether a black node is gone.\<close>

definition erase_pos :: "'a rbt \<Rightarrow> 'a step list \<Rightarrow> color \<times> 'a rbt \<times> 'a step list" where
  "erase_pos t path =
     (case t of
        Leaf \<Rightarrow> (Red, t, path)
      | Node l (b, c) r \<Rightarrow>
          if l = Leaf then (c, r, path)
          else if r = Leaf then (c, l, path)
          else (case min_zip r [] of ((m, mc), child, mp) \<Rightarrow> (mc, child, mp @ RStep l m c # path)))"

lemma tree_erase_pos:
  "locate a t [] = Some (Node l (a, c) r, path) \<Longrightarrow>
     tree_erase a t = (case erase_pos (Node l (a, c) r) path of (gone, child, path) \<Rightarrow>
       if gone = Black then erase_fix child path else plug child path)"
  by (auto simp: tree_erase_def erase_pos_def split: prod.splits)

lemma erase_pos_ok:
  assumes "rbt (plug (Node l (a, c) r) path)" "erase_pos (Node l (a, c) r) path = (gone, child, path')"
  shows "invc child \<and> invh child \<and> okp (bheight child + (if gone = Black then 1 else 0)) path' \<and>
    (gone = Red \<longrightarrow> col child = Black)"
proof (cases "l = Leaf \<or> r = Leaf")
  case True
  then show ?thesis using assms by (cases c) (auto simp: erase_pos_def rbt_plug split: if_splits)
next
  case False
  obtain m mc mp where mz: "min_zip r [] = ((m, mc), child, mp)" "gone = mc" "path' = mp @ RStep l m c # path"
    using assms(2) False by (auto simp: erase_pos_def split: prod.splits)
  have "plug (Node Leaf (m, mc) child) mp = r" using min_zip_plug [OF _ mz(1)] False by simp
  then have "plug (Node Leaf (m, mc) child) (mp @ RStep l a c # path) = plug (Node l (a, c) r) path"
    by (simp add: plug_append)
  then have "rbt (plug (Node Leaf (m, mc) child) (mp @ RStep l a c # path))" using assms(1) by simp
  then show ?thesis using okp_relabel [of _ mp l a c path m] by (cases mc) (auto simp: rbt_plug mz)
qed

lemma tree_erase_rbt:
  assumes "rbt t"
  shows "rbt (tree_erase a t)"
proof (cases "a \<in> set (keys t)")
  case True
  then obtain l c r path where lc: "locate a t [] = Some (Node l (a, c) r, path)" "plug (Node l (a, c) r) path = t"
    by (rule locateE)
  obtain gone child path' where e: "erase_pos (Node l (a, c) r) path = (gone, child, path')" by (rule prod_cases3)
  note ok = erase_pos_ok [OF assms [folded lc(2)] e]
  show ?thesis
  proof (cases "gone = Black")
    case True
    then show ?thesis using ok by (simp add: tree_erase_pos [OF lc(1)] e erase_fix_rbt)
  next
    case False
    then have "rbt (plug child path')" using ok by (simp add: rbt_plug)
    then show ?thesis using False by (simp add: tree_erase_pos [OF lc(1)] e)
  qed
next
  case False
  then show ?thesis using assms locate_None [of a t "[]"] by (simp add: tree_erase_def)
qed

text \<open>A balanced tree is shallow: searching it takes at most twice the logarithm of its size.\<close>

lemma rbt_height_le: "invc t \<Longrightarrow> invh t \<Longrightarrow> height t \<le> 2 * bheight t + (if col t = Black then 0 else 1)"
  by (induction t rule: invc.induct) (auto split: if_splits)

lemma rbt_size_ge: "invh t \<Longrightarrow> 2 ^ bheight t \<le> size1 t"
  by (induction t rule: invh.induct) (auto simp: algebra_simps)

lemma rbt_height: "rbt t \<Longrightarrow> 2 ^ (height t div 2) \<le> size t + 1"
proof -
  assume t: "rbt t"
  then have "height t div 2 \<le> bheight t" using rbt_height_le [of t] by (simp add: rbt_def)
  then have "(2::nat) ^ (height t div 2) \<le> 2 ^ bheight t" by (intro power_increasing) auto
  also have "\<dots> \<le> size t + 1" using rbt_size_ge [of t] t by (simp add: rbt_def size1_size)
  finally show ?thesis .
qed

end
