(* ===== verification/Rbtree_Props.thy ===== *)
theory Rbtree_Props
  imports Rbtree Rb_Trees
begin

text \<open>
  The pointer code of \<^verbatim>\<open>lib/rbtree.c\<close> does to a tree in the store what \<^verbatim>\<open>Rb_Trees\<close> does to
  the tree as a value: it follows no null pointer, ends, touches only the nodes of the tree,
  and keeps order and balance.
\<close>

section \<open>Reading and writing nodes\<close>

text \<open>Addresses of nodes leave the two low bits free.\<close>

definition aligned :: "ptr \<Rightarrow> bool" where
  "aligned p \<longleftrightarrow> p AND 3 = 0"

lemma aligned_0 [simp]: "aligned 0"
  by (simp add: aligned_def)

lemma and_3_1: "(x AND 3) AND 1 = x AND (1 :: u32)"
  by (simp add: and.assoc)

lemma low_bit_cases: "x AND 1 = 0 \<or> x AND 1 = (1 :: u32)"
  by (simp add: and_one_eq mod_2_eq_odd)

lemma pack_parent:
  assumes "aligned p"
  shows "((x AND 3) OR p) AND - 4 = p" "((x AND 3) OR p) AND 1 = x AND 1"
proof -
  have "p AND (3 OR NOT 3) = (p AND 3) OR (p AND NOT 3)" by (rule bit.conj_disj_distrib)
  then have p3: "p AND - 4 = p" using assms by (simp add: aligned_def)
  have p1: "p AND 1 = 0" unfolding and_3_1 [of p, symmetric] assms [unfolded aligned_def] by simp
  show "((x AND 3) OR p) AND - 4 = p"
    by (simp add: bit.conj_disj_distrib2 and.assoc p3)
  show "((x AND 3) OR p) AND 1 = x AND 1"
    by (simp add: bit.conj_disj_distrib2 and_3_1 p1)
qed

lemma keep_parent:
  "(x AND - 2) AND - 4 = x AND (- 4 :: u32)" "(x OR 1) AND - 4 = x AND (- 4 :: u32)"
  "(x AND - 2 OR 1) AND - 4 = x AND (- 4 :: u32)"
  by (simp_all add: and.assoc bit.conj_disj_distrib2)

lemma keep_color:
  "(x AND - 2) AND 1 = (0 :: u32)" "(x OR 1) AND 1 = (1 :: u32)" "(x AND - 2 OR 1) AND 1 = (1 :: u32)"
  "(x AND - 2 OR y AND 1) AND 1 = y AND (1 :: u32)"
  by (simp_all add: and.assoc bit.conj_disj_distrib2)

lemma store_simps [simp]:
  "lft (set_lft r p h) x = (if x = r then p else lft h x)" "rgt (set_lft r p h) x = rgt h x"
  "lft (set_rgt r p h) x = lft h x" "rgt (set_rgt r p h) x = (if x = r then p else rgt h x)"
  "lft (rb_set_parent r p h) x = lft h x" "rgt (rb_set_parent r p h) x = rgt h x"
  "lft (rb_set_red r h) x = lft h x" "rgt (rb_set_red r h) x = rgt h x"
  "lft (rb_set_black r h) x = lft h x" "rgt (rb_set_black r h) x = rgt h x"
  "lft (rb_set_color r c h) x = lft h x" "rgt (rb_set_color r c h) x = rgt h x"
  by (simp_all add: set_lft_def set_rgt_def rb_set_parent_def rb_set_red_def rb_set_black_def rb_set_color_def rb_upd_def)

lemma root_simps [simp]:
  "rb_root (set_lft r p h) = rb_root h" "rb_root (set_rgt r p h) = rb_root h" "rb_root (rb_set_parent r p h) = rb_root h"
  "rb_root (rb_set_red r h) = rb_root h" "rb_root (rb_set_black r h) = rb_root h" "rb_root (rb_set_color r c h) = rb_root h"
  "rb_root (rb_upd r f h) = rb_root h"
  by (simp_all add: set_lft_def set_rgt_def rb_set_parent_def rb_set_red_def rb_set_black_def rb_set_color_def rb_upd_def)

lemma parent_simps [simp]:
  "rb_parent (set_lft r p h) x = rb_parent h x" "rb_parent (set_rgt r p h) x = rb_parent h x"
  "aligned p \<Longrightarrow> rb_parent (rb_set_parent r p h) x = (if x = r then p else rb_parent h x)"
  "rb_parent (rb_set_red r h) x = rb_parent h x" "rb_parent (rb_set_black r h) x = rb_parent h x"
  "c = 0 \<or> c = 1 \<Longrightarrow> rb_parent (rb_set_color r c h) x = rb_parent h x"
  "rb_parent (h\<lparr>rb_root := p\<rparr>) x = rb_parent h x"
  by (auto simp: rb_parent_def set_lft_def set_rgt_def rb_set_parent_def rb_set_red_def rb_set_black_def rb_set_color_def
      rb_upd_def pack_parent keep_parent)

lemma red_simps [simp]:
  "rb_is_red (set_lft r p h) x = rb_is_red h x" "rb_is_red (set_rgt r p h) x = rb_is_red h x"
  "aligned p \<Longrightarrow> rb_is_red (rb_set_parent r p h) x = rb_is_red h x"
  "rb_is_red (rb_set_red r h) x \<longleftrightarrow> x = r \<or> rb_is_red h x" "rb_is_red (rb_set_black r h) x \<longleftrightarrow> x \<noteq> r \<and> rb_is_red h x"
  "rb_is_red (rb_set_color r (rb_color h' y) h) x \<longleftrightarrow> (if x = r then rb_is_red h' y else rb_is_red h x)"
  "rb_is_red (h\<lparr>rb_root := p\<rparr>) x = rb_is_red h x"
  using low_bit_cases
  by (auto simp: rb_is_red_def rb_color_def set_lft_def set_rgt_def rb_set_parent_def rb_set_red_def rb_set_black_def
      rb_set_color_def rb_upd_def pack_parent keep_color)

lemma black_red: "rb_is_black h x \<longleftrightarrow> \<not> rb_is_red h x"
  by (simp add: rb_is_black_def rb_is_red_def)

lemma color_bit: "rb_color h x = 0 \<or> rb_color h x = 1" "rb_color h x = 1 \<longleftrightarrow> \<not> rb_is_red h x"
  using low_bit_cases [of "rb_parent_color (rb_nodes h x)"] by (auto simp: rb_is_red_def rb_color_def)

lemma nodes_frame [simp]:
  "x \<noteq> r \<Longrightarrow> rb_nodes (set_lft r p h) x = rb_nodes h x" "x \<noteq> r \<Longrightarrow> rb_nodes (set_rgt r p h) x = rb_nodes h x"
  "x \<noteq> r \<Longrightarrow> rb_nodes (rb_set_parent r p h) x = rb_nodes h x" "x \<noteq> r \<Longrightarrow> rb_nodes (rb_set_red r h) x = rb_nodes h x"
  "x \<noteq> r \<Longrightarrow> rb_nodes (rb_set_black r h) x = rb_nodes h x" "x \<noteq> r \<Longrightarrow> rb_nodes (rb_set_color r c h) x = rb_nodes h x"
  "x \<noteq> r \<Longrightarrow> rb_nodes (rb_upd r f h) x = rb_nodes h x"
  by (simp_all add: set_lft_def set_rgt_def rb_set_parent_def rb_set_red_def rb_set_black_def rb_set_color_def rb_upd_def)

section \<open>Trees in the store\<close>

fun apex :: "ptr rbt \<Rightarrow> ptr" where
  "apex Leaf = 0"
| "apex (Node l (a, c) r) = a"

text \<open>The nodes of \<open>t\<close> are in the store, linked as \<open>t\<close> is, below the node \<open>par\<close>.\<close>

fun rep :: "rb_store \<Rightarrow> ptr \<Rightarrow> ptr rbt \<Rightarrow> bool" where
  "rep h par Leaf = True"
| "rep h par (Node l (a, c) r) \<longleftrightarrow> a \<noteq> 0 \<and> aligned a \<and> rb_parent h a = par \<and> (rb_is_red h a \<longleftrightarrow> c = Red) \<and>
     lft h a = apex l \<and> rgt h a = apex r \<and> rep h a l \<and> rep h a r"

fun up :: "ptr step list \<Rightarrow> ptr" where
  "up [] = 0"
| "up (LStep a c r # path) = a"
| "up (RStep l a c # path) = a"

text \<open>The path above the subtree with apex \<open>p\<close> is in the store.\<close>

fun ctx :: "rb_store \<Rightarrow> ptr \<Rightarrow> ptr step list \<Rightarrow> bool" where
  "ctx h p [] \<longleftrightarrow> rb_root h = p"
| "ctx h p (LStep a c r # path) \<longleftrightarrow> a \<noteq> 0 \<and> aligned a \<and> rb_parent h a = up path \<and> (rb_is_red h a \<longleftrightarrow> c = Red) \<and>
     lft h a = p \<and> rgt h a = apex r \<and> rep h a r \<and> ctx h a path"
| "ctx h p (RStep l a c # path) \<longleftrightarrow> a \<noteq> 0 \<and> aligned a \<and> rb_parent h a = up path \<and> (rb_is_red h a \<longleftrightarrow> c = Red) \<and>
     lft h a = apex l \<and> rgt h a = p \<and> rep h a l \<and> ctx h a path"

definition is_tree :: "rb_store \<Rightarrow> ptr rbt \<Rightarrow> bool" where
  "is_tree h t \<longleftrightarrow> rep h 0 t \<and> rb_root h = apex t \<and> distinct (keys t)"

lemma rep_plug: "rep h 0 (plug t path) \<and> rb_root h = apex (plug t path) \<longleftrightarrow> rep h (up path) t \<and> ctx h (apex t) path"
  by (induction t path rule: plug.induct) auto

lemma is_tree_plug:
  "is_tree h (plug t path) \<longleftrightarrow> rep h (up path) t \<and> ctx h (apex t) path \<and> distinct (before path @ keys t @ after path)"
  using rep_plug [of h t path] by (auto simp: is_tree_def simp del: distinct_append)

lemma apex_keys: "rep h par t \<Longrightarrow> apex t \<noteq> 0 \<longleftrightarrow> t \<noteq> Leaf" "t \<noteq> Leaf \<Longrightarrow> apex t \<in> set (keys t)"
  by (cases t rule: apex.cases; simp)+

lemma apex_paint [simp]: "apex (paint c t) = apex t"
  by (cases "(c, t)" rule: paint.cases) auto

lemma rep_keys: "rep h par t \<Longrightarrow> a \<in> set (keys t) \<Longrightarrow> a \<noteq> 0 \<and> aligned a"
  by (induction h par t rule: rep.induct) auto

lemma ctx_keys: "ctx h p path \<Longrightarrow> a \<in> set (before path) \<union> set (after path) \<Longrightarrow> a \<noteq> 0 \<and> aligned a"
  by (induction h p path rule: ctx.induct) (auto dest: rep_keys)

lemma up_keys: "path \<noteq> [] \<Longrightarrow> up path \<in> set (before path) \<union> set (after path)"
  by (cases path rule: up.cases) auto

lemma ctx_up: "ctx h p path \<Longrightarrow> (up path \<noteq> 0 \<longleftrightarrow> path \<noteq> []) \<and> aligned (up path)"
  by (cases path rule: up.cases) auto

text \<open>
  Moving a subtree: its inside is unchanged, only the parent pointer of its apex may be
  another. Moving a path: only the child pointer at its bottom may be another.
\<close>

definition same :: "rb_store \<Rightarrow> rb_store \<Rightarrow> ptr \<Rightarrow> bool" where
  "same h h' a \<longleftrightarrow> lft h' a = lft h a \<and> rgt h' a = rgt h a \<and> (rb_is_red h' a \<longleftrightarrow> rb_is_red h a) \<and> rb_parent h' a = rb_parent h a"

lemma rep_same: "rep h par t \<Longrightarrow> \<forall>a \<in> set (keys t). same h h' a \<Longrightarrow> rep h' par t"
  by (induction h par t rule: rep.induct) (auto simp: same_def)

lemma rep_move:
  assumes "rep h par t" "distinct (keys t)" "\<forall>a \<in> set (keys t). a \<noteq> apex t \<longrightarrow> same h h' a"
    and "t \<noteq> Leaf \<Longrightarrow> lft h' (apex t) = lft h (apex t) \<and> rgt h' (apex t) = rgt h (apex t) \<and>
      (rb_is_red h' (apex t) \<longleftrightarrow> rb_is_red h (apex t)) \<and> rb_parent h' (apex t) = par'"
  shows "rep h' par' t"
proof (cases t)
  case (Node l x r)
  obtain a c where x: "x = (a, c)" by (cases x)
  have "\<forall>b \<in> set (keys l). same h h' b" "\<forall>b \<in> set (keys r). same h h' b"
    using assms(2,3) by (auto simp: Node x)
  then have "rep h' a l" "rep h' a r" using assms(1) rep_same [of h a] by (simp_all add: Node x)
  then show ?thesis using assms(1,4) by (simp add: Node x)
qed simp

lemma ctx_same:
  "ctx h p path \<Longrightarrow> \<forall>a \<in> set (before path) \<union> set (after path). same h h' a \<Longrightarrow> rb_root h' = rb_root h \<Longrightarrow> ctx h' p path"
proof (induction h p path rule: ctx.induct)
  case (2 h p a c r path)
  then have "rep h' a r" "same h h' a" "ctx h' a path" by (auto intro: rep_same [of h a])
  with 2 show ?case by (simp add: same_def)
next
  case (3 h p l a c path)
  then have "rep h' a l" "same h h' a" "ctx h' a path" by (auto intro: rep_same [of h a])
  with 3 show ?case by (simp add: same_def)
qed simp

text \<open>The child pointer at the bottom of a path.\<close>

fun child :: "rb_store \<Rightarrow> ptr step list \<Rightarrow> ptr" where
  "child h [] = rb_root h"
| "child h (LStep a c r # path) = lft h a"
| "child h (RStep l a c # path) = rgt h a"

fun other_child :: "rb_store \<Rightarrow> ptr step list \<Rightarrow> ptr" where
  "other_child h [] = 0"
| "other_child h (LStep a c r # path) = rgt h a"
| "other_child h (RStep l a c # path) = lft h a"

lemma ctx_move:
  assumes "ctx h p path" "distinct (before path @ after path)"
    and "\<forall>a \<in> set (before path) \<union> set (after path). a \<noteq> up path \<longrightarrow> same h h' a"
    and "path \<noteq> [] \<Longrightarrow> rb_root h' = rb_root h \<and> other_child h' path = other_child h path \<and>
      (rb_is_red h' (up path) \<longleftrightarrow> rb_is_red h (up path)) \<and> rb_parent h' (up path) = rb_parent h (up path)"
    and "child h' path = p'"
  shows "ctx h' p' path"
proof (cases path rule: up.cases)
  case 1
  then show ?thesis using assms(5) by simp
next
  case (2 a c r q)
  have "\<forall>b \<in> set (keys r). same h h' b" "\<forall>b \<in> set (before q) \<union> set (after q). same h h' b"
    using assms(2,3) by (auto simp: 2)
  then have "rep h' a r" "ctx h' a q" using assms(1,4) rep_same [of h a r h'] ctx_same [of h a q h'] by (simp_all add: 2)
  then show ?thesis using assms(1,4,5) by (simp add: 2)
next
  case (3 l a c q)
  have "\<forall>b \<in> set (keys l). same h h' b" "\<forall>b \<in> set (before q) \<union> set (after q). same h h' b"
    using assms(2,3) by (auto simp: 3)
  then have "rep h' a l" "ctx h' a q" using assms(1,4) rep_same [of h a l h'] ctx_same [of h a q h'] by (simp_all add: 3)
  then show ?thesis using assms(1,4,5) by (simp add: 3)
qed

section \<open>Recolouring and rotating\<close>

text \<open>The store holds \<open>t\<close>, all its nodes are among \<open>K\<close>, and nothing else changed since \<open>h0\<close>.\<close>

definition tree_in :: "rb_store \<Rightarrow> ptr set \<Rightarrow> rb_store \<Rightarrow> ptr rbt \<Rightarrow> bool" where
  "tree_in h0 K h t \<longleftrightarrow> is_tree h t \<and> set (keys t) \<subseteq> K \<and> (\<forall>a. a \<notin> K \<longrightarrow> rb_nodes h a = rb_nodes h0 a)"

lemma tree_in_node:
  assumes "tree_in h0 K h (plug (Node l (a, c) r) path)"
  shows "a \<noteq> 0" "aligned a" "rb_parent h a = up path" "rb_is_red h a \<longleftrightarrow> c = Red" "lft h a = apex l" "rgt h a = apex r" "a \<in> K"
  using assms by (auto simp: tree_in_def is_tree_plug)

lemma same_nodes: "rb_nodes h' b = rb_nodes h b \<Longrightarrow> same h h' b"
  by (simp add: same_def rb_is_red_def rb_color_def rb_parent_def)

text \<open>A change of the node \<open>a\<close> that leaves its pointers alone is a change of its colour.\<close>

lemma recolor:
  assumes "tree_in h0 K h (plug (Node l (a, c) r) path)"
    and "lft h' a = lft h a" "rgt h' a = rgt h a" "rb_parent h' a = rb_parent h a" "rb_is_red h' a \<longleftrightarrow> c' = Red" "rb_root h' = rb_root h"
    and "\<And>b. b \<noteq> a \<Longrightarrow> rb_nodes h' b = rb_nodes h b"
  shows "tree_in h0 K h' (plug (Node l (a, c') r) path)"
proof -
  have t: "rep h (up path) (Node l (a, c) r)" "ctx h a path" "distinct (before path @ keys (Node l (a, c) r) @ after path)"
    using assms(1) by (auto simp: tree_in_def is_tree_plug)
  have s: "\<forall>b \<in> S. same h h' b" if "a \<notin> S" for S
    using assms(7) that by (metis same_nodes)
  have "rep h' a l" "rep h' a r" using t by (auto intro!: rep_same [of h a] s)
  moreover have "ctx h' a path" by (rule ctx_same [OF t(2) s assms(6)]) (use t(3) in auto)
  ultimately have "is_tree h' (plug (Node l (a, c') r) path)" using t assms(2-5) by (simp add: is_tree_plug)
  moreover have "\<forall>b. b \<notin> K \<longrightarrow> rb_nodes h' b = rb_nodes h0 b"
    using assms(1,7) tree_in_node(7) [OF assms(1)] by (metis tree_in_def)
  ultimately show ?thesis using assms(1) by (simp add: tree_in_def)
qed

lemma set_red_tree:
  "tree_in h0 K h (plug (Node l (a, c) r) path) \<Longrightarrow> tree_in h0 K (rb_set_red a h) (plug (Node l (a, Red) r) path)"
  by (rule recolor [of h0 K h l a c r path]) simp_all

lemma set_black_tree:
  "tree_in h0 K h (plug (Node l (a, c) r) path) \<Longrightarrow> tree_in h0 K (rb_set_black a h) (plug (Node l (a, Black) r) path)"
  by (rule recolor [of h0 K h l a c r path]) simp_all

lemma set_color_tree:
  assumes "tree_in h0 K h (plug (Node l (a, c) r) path)" "rb_is_red h' b \<longleftrightarrow> d = Red"
  shows "tree_in h0 K (rb_set_color a (rb_color h' b) h) (plug (Node l (a, d) r) path)"
  by (rule recolor [OF assms(1)]) (use assms(2) color_bit(1) [of h' b] in simp_all)

lemma rotate_left_nodes:
  assumes "rgt h x = y" "rb_parent h x = par" "lft h y = b" "y \<noteq> 0" "x \<noteq> y" "b \<noteq> x" "b \<noteq> y" "par \<noteq> x" "par \<noteq> y"
    "b \<noteq> 0 \<Longrightarrow> b \<noteq> par" "aligned x" "aligned y" "aligned par"
  obtains h' where "rb_rotate_left x h = Some h'"
    "\<And>a. a \<notin> {x, y, b, par} \<or> a = 0 \<and> a \<notin> {x, y} \<Longrightarrow> rb_nodes h' a = rb_nodes h a"
    "\<And>a. rb_is_red h' a \<longleftrightarrow> rb_is_red h a"
    "lft h' x = lft h x" "rgt h' x = b" "rb_parent h' x = y"
    "lft h' y = x" "rgt h' y = rgt h y" "rb_parent h' y = par"
    "b \<noteq> 0 \<Longrightarrow> lft h' b = lft h b \<and> rgt h' b = rgt h b \<and> rb_parent h' b = x"
    "par \<noteq> 0 \<Longrightarrow> rb_parent h' par = rb_parent h par \<and> rb_root h' = rb_root h \<and>
      lft h' par = (if lft h par = x then y else lft h par) \<and> rgt h' par = (if lft h par = x then rgt h par else y)"
    "par = 0 \<Longrightarrow> rb_root h' = y"
proof -
  define h1 where "h1 = set_rgt x b h"
  define h2 where "h2 = (if b \<noteq> 0 then rb_set_parent b x h1 else h1)"
  define h3 where "h3 = rb_set_parent y par (set_lft y x h2)"
  define h4 where "h4 = (if par \<noteq> 0 then (if x = lft h3 par then set_lft par y h3 else set_rgt par y h3) else h3\<lparr>rb_root := y\<rparr>)"
  have "rb_rotate_left x h = Some (rb_set_parent x y h4)"
    using assms by (simp add: rb_rotate_left_def Let_def h1_def h2_def h3_def h4_def)
  moreover have "lft h3 par = lft h par" using assms by (simp add: h1_def h2_def h3_def)
  ultimately show ?thesis using assms by (intro that [of "rb_set_parent x y h4"]) (auto simp: h1_def h2_def h3_def h4_def)
qed

lemma rotate_right_nodes:
  assumes "lft h x = y" "rb_parent h x = par" "rgt h y = b" "y \<noteq> 0" "x \<noteq> y" "b \<noteq> x" "b \<noteq> y" "par \<noteq> x" "par \<noteq> y"
    "b \<noteq> 0 \<Longrightarrow> b \<noteq> par" "aligned x" "aligned y" "aligned par"
  obtains h' where "rb_rotate_right x h = Some h'"
    "\<And>a. a \<notin> {x, y, b, par} \<or> a = 0 \<and> a \<notin> {x, y} \<Longrightarrow> rb_nodes h' a = rb_nodes h a"
    "\<And>a. rb_is_red h' a \<longleftrightarrow> rb_is_red h a"
    "rgt h' x = rgt h x" "lft h' x = b" "rb_parent h' x = y"
    "rgt h' y = x" "lft h' y = lft h y" "rb_parent h' y = par"
    "b \<noteq> 0 \<Longrightarrow> lft h' b = lft h b \<and> rgt h' b = rgt h b \<and> rb_parent h' b = x"
    "par \<noteq> 0 \<Longrightarrow> rb_parent h' par = rb_parent h par \<and> rb_root h' = rb_root h \<and>
      rgt h' par = (if rgt h par = x then y else rgt h par) \<and> lft h' par = (if rgt h par = x then lft h par else y)"
    "par = 0 \<Longrightarrow> rb_root h' = y"
proof -
  define h1 where "h1 = set_lft x b h"
  define h2 where "h2 = (if b \<noteq> 0 then rb_set_parent b x h1 else h1)"
  define h3 where "h3 = rb_set_parent y par (set_rgt y x h2)"
  define h4 where "h4 = (if par \<noteq> 0 then (if x = rgt h3 par then set_rgt par y h3 else set_lft par y h3) else h3\<lparr>rb_root := y\<rparr>)"
  have "rb_rotate_right x h = Some (rb_set_parent x y h4)"
    using assms by (simp add: rb_rotate_right_def Let_def h1_def h2_def h3_def h4_def)
  moreover have "rgt h3 par = rgt h par" using assms by (simp add: h1_def h2_def h3_def)
  ultimately show ?thesis using assms by (intro that [of "rb_set_parent x y h4"]) (auto simp: h1_def h2_def h3_def h4_def)
qed

lemma apex_outside: "rep h par t \<Longrightarrow> a \<noteq> 0 \<Longrightarrow> a \<notin> set (keys t) \<Longrightarrow> apex t \<noteq> a"
  by (cases t rule: apex.cases) auto

text \<open>Whether a node is the left or the right child can be read off its parent.\<close>

lemma ctx_sides:
  assumes "ctx h p path" "p \<noteq> 0" "p \<notin> set (before path) \<union> set (after path)"
  shows "path = LStep a c r # q \<Longrightarrow> lft h a = p \<and> rgt h a \<noteq> p"
    "path = RStep l a c # q \<Longrightarrow> lft h a \<noteq> p \<and> rgt h a = p"
  using assms apex_outside [of h a r p] apex_outside [of h a l p] by auto

lemma tree_in_frame:
  assumes "tree_in h0 K h t" "is_tree h' t'" "keys t' = keys t" "\<And>a. a \<notin> K \<Longrightarrow> rb_nodes h' a = rb_nodes h a"
  shows "tree_in h0 K h' t'"
  using assms by (simp add: tree_in_def)

lemma rotate_left_tree:
  assumes t: "tree_in h0 K h (plug (Node A (x, c) (Node B (y, d) C)) path)"
  obtains h' where "rb_rotate_left x h = Some h'" "tree_in h0 K h' (plug (Node (Node A (x, c) B) (y, d) C) path)"
proof -
  define P where "P = set (before path) \<union> set (after path)"
  have r: "rep h (up path) (Node A (x, c) (Node B (y, d) C))" and cx: "ctx h x path"
    and d: "distinct (before path @ keys A @ x # keys B @ y # keys C @ after path)"
    and K: "P \<subseteq> K" "set (keys B) \<subseteq> K" "x \<in> K" "y \<in> K"
    using t by (auto simp: tree_in_def is_tree_plug P_def)
  have dA: "x \<notin> set (keys A)" "y \<notin> set (keys A)" "set (keys A) \<inter> set (keys B) = {}" "set (keys A) \<inter> P = {}"
    and dC: "x \<notin> set (keys C)" "y \<notin> set (keys C)" "set (keys C) \<inter> set (keys B) = {}" "set (keys C) \<inter> P = {}"
    and dB: "x \<notin> set (keys B)" "y \<notin> set (keys B)" "distinct (keys B)" "set (keys B) \<inter> P = {}"
    and dP: "x \<notin> P" "y \<notin> P" "x \<noteq> y" "distinct (before path @ after path)"
    using d by (auto simp: P_def)
  have upo: "path \<noteq> [] \<Longrightarrow> up path \<in> P" using up_keys [of path] by (simp add: P_def)
  have up0: "up path \<noteq> 0 \<longleftrightarrow> path \<noteq> []" "aligned (up path)" using ctx_up [OF cx] by auto
  have n: "x \<noteq> 0" "y \<noteq> 0" and rB: "rep h y B" using r by auto
  have B: "apex B \<noteq> x" "apex B \<noteq> y" "apex B \<noteq> 0 \<longleftrightarrow> B \<noteq> Leaf" "B \<noteq> Leaf \<Longrightarrow> apex B \<in> set (keys B)"
    using n dB apex_outside [OF rB] apex_keys(1) [OF rB] apex_keys(2) [of B] by auto
  have nu: "up path \<noteq> x" "up path \<noteq> y" "apex B \<noteq> 0 \<Longrightarrow> apex B \<noteq> up path"
    using upo up0 dP n B(3,4) dB by (cases "path = []"; auto)+
  obtain h' where h': "rb_rotate_left x h = Some h'"
    and fr: "\<And>a. a \<notin> {x, y, apex B, up path} \<or> a = 0 \<and> a \<notin> {x, y} \<Longrightarrow> rb_nodes h' a = rb_nodes h a"
    and red: "\<And>a. rb_is_red h' a \<longleftrightarrow> rb_is_red h a"
    and xy: "lft h' x = lft h x" "rgt h' x = apex B" "rb_parent h' x = y" "lft h' y = x" "rgt h' y = rgt h y" "rb_parent h' y = up path"
    and b: "apex B \<noteq> 0 \<Longrightarrow> lft h' (apex B) = lft h (apex B) \<and> rgt h' (apex B) = rgt h (apex B) \<and> rb_parent h' (apex B) = x"
    and par: "up path \<noteq> 0 \<Longrightarrow> rb_parent h' (up path) = rb_parent h (up path) \<and> rb_root h' = rb_root h \<and>
      lft h' (up path) = (if lft h (up path) = x then y else lft h (up path)) \<and>
      rgt h' (up path) = (if lft h (up path) = x then rgt h (up path) else y)"
    and root: "up path = 0 \<Longrightarrow> rb_root h' = y"
    by (rule rotate_left_nodes [of h x y "up path" "apex B"]) (use r B nu up0 dP n in simp_all)
  have s: "\<forall>a \<in> S. same h h' a"
    if "x \<notin> S" "y \<notin> S" "B \<noteq> Leaf \<Longrightarrow> apex B \<notin> S" "path \<noteq> [] \<Longrightarrow> up path \<notin> S" for S
    by (intro ballI same_nodes fr) (use that up0(1) B(3) in auto)
  have A: "rep h' x A" by (rule rep_same [of h x A, OF _ s]) (use r dA upo B(4) in auto)
  have C: "rep h' y C" by (rule rep_same [of h y C, OF _ s]) (use r dC upo B(4) in auto)
  have "\<forall>a \<in> set (keys B) - {apex B}. same h h' a" by (rule s) (use dB upo in auto)
  then have B': "rep h' x B" using b red B(3) by (intro rep_move [OF rB dB(3)]) simp_all
  have "\<forall>a \<in> P - {up path}. same h h' a" by (rule s) (use dP dB B(4) in auto)
  then have "ctx h' y path"
    using par root red up0(1) ctx_sides [OF cx n(1)] dP
    by (intro ctx_move [OF cx dP(4)]; cases path rule: up.cases) (auto simp: P_def)
  then have "is_tree h' (plug (Node (Node A (x, c) B) (y, d) C) path)"
    using A B' C r d red xy by (simp add: is_tree_plug)
  moreover have "rb_nodes h' a = rb_nodes h a" if "a \<notin> K" for a
    using that K upo up0 B(3,4) by (intro fr) auto
  ultimately have "tree_in h0 K h' (plug (Node (Node A (x, c) B) (y, d) C) path)"
    by (intro tree_in_frame [OF t]) simp_all
  with h' show ?thesis by (rule that)
qed

lemma rotate_right_tree:
  assumes t: "tree_in h0 K h (plug (Node (Node A (y, d) B) (x, c) C) path)"
  obtains h' where "rb_rotate_right x h = Some h'" "tree_in h0 K h' (plug (Node A (y, d) (Node B (x, c) C)) path)"
proof -
  define P where "P = set (before path) \<union> set (after path)"
  have r: "rep h (up path) (Node (Node A (y, d) B) (x, c) C)" and cx: "ctx h x path"
    and d: "distinct (before path @ keys A @ y # keys B @ x # keys C @ after path)"
    and K: "P \<subseteq> K" "set (keys B) \<subseteq> K" "x \<in> K" "y \<in> K"
    using t by (auto simp: tree_in_def is_tree_plug P_def)
  have dA: "x \<notin> set (keys A)" "y \<notin> set (keys A)" "set (keys A) \<inter> set (keys B) = {}" "set (keys A) \<inter> P = {}"
    and dC: "x \<notin> set (keys C)" "y \<notin> set (keys C)" "set (keys C) \<inter> set (keys B) = {}" "set (keys C) \<inter> P = {}"
    and dB: "x \<notin> set (keys B)" "y \<notin> set (keys B)" "distinct (keys B)" "set (keys B) \<inter> P = {}"
    and dP: "x \<notin> P" "y \<notin> P" "x \<noteq> y" "distinct (before path @ after path)"
    using d by (auto simp: P_def)
  have upo: "path \<noteq> [] \<Longrightarrow> up path \<in> P" using up_keys [of path] by (simp add: P_def)
  have up0: "up path \<noteq> 0 \<longleftrightarrow> path \<noteq> []" "aligned (up path)" using ctx_up [OF cx] by auto
  have n: "x \<noteq> 0" "y \<noteq> 0" and rB: "rep h y B" using r by auto
  have B: "apex B \<noteq> x" "apex B \<noteq> y" "apex B \<noteq> 0 \<longleftrightarrow> B \<noteq> Leaf" "B \<noteq> Leaf \<Longrightarrow> apex B \<in> set (keys B)"
    using n dB apex_outside [OF rB] apex_keys(1) [OF rB] apex_keys(2) [of B] by auto
  have nu: "up path \<noteq> x" "up path \<noteq> y" "apex B \<noteq> 0 \<Longrightarrow> apex B \<noteq> up path"
    using upo up0 dP n B(3,4) dB by (cases "path = []"; auto)+
  obtain h' where h': "rb_rotate_right x h = Some h'"
    and fr: "\<And>a. a \<notin> {x, y, apex B, up path} \<or> a = 0 \<and> a \<notin> {x, y} \<Longrightarrow> rb_nodes h' a = rb_nodes h a"
    and red: "\<And>a. rb_is_red h' a \<longleftrightarrow> rb_is_red h a"
    and xy: "rgt h' x = rgt h x" "lft h' x = apex B" "rb_parent h' x = y" "rgt h' y = x" "lft h' y = lft h y" "rb_parent h' y = up path"
    and b: "apex B \<noteq> 0 \<Longrightarrow> lft h' (apex B) = lft h (apex B) \<and> rgt h' (apex B) = rgt h (apex B) \<and> rb_parent h' (apex B) = x"
    and par: "up path \<noteq> 0 \<Longrightarrow> rb_parent h' (up path) = rb_parent h (up path) \<and> rb_root h' = rb_root h \<and>
      rgt h' (up path) = (if rgt h (up path) = x then y else rgt h (up path)) \<and>
      lft h' (up path) = (if rgt h (up path) = x then lft h (up path) else y)"
    and root: "up path = 0 \<Longrightarrow> rb_root h' = y"
    by (rule rotate_right_nodes [of h x y "up path" "apex B"]) (use r B nu up0 dP n in simp_all)
  have s: "\<forall>a \<in> S. same h h' a"
    if "x \<notin> S" "y \<notin> S" "B \<noteq> Leaf \<Longrightarrow> apex B \<notin> S" "path \<noteq> [] \<Longrightarrow> up path \<notin> S" for S
    by (intro ballI same_nodes fr) (use that up0(1) B(3) in auto)
  have A: "rep h' y A" by (rule rep_same [of h y A, OF _ s]) (use r dA upo B(4) in auto)
  have C: "rep h' x C" by (rule rep_same [of h x C, OF _ s]) (use r dC upo B(4) in auto)
  have "\<forall>a \<in> set (keys B) - {apex B}. same h h' a" by (rule s) (use dB upo in auto)
  then have B': "rep h' x B" using b red B(3) by (intro rep_move [OF rB dB(3)]) simp_all
  have "\<forall>a \<in> P - {up path}. same h h' a" by (rule s) (use dP dB B(4) in auto)
  then have "ctx h' y path"
    using par root red up0(1) ctx_sides [OF cx n(1)] dP
    by (intro ctx_move [OF cx dP(4)]; cases path rule: up.cases) (auto simp: P_def)
  then have "is_tree h' (plug (Node A (y, d) (Node B (x, c) C)) path)"
    using A B' C r d red xy by (simp add: is_tree_plug)
  moreover have "rb_nodes h' a = rb_nodes h a" if "a \<notin> K" for a
    using that K upo up0 B(3,4) by (intro fr) auto
  ultimately have "tree_in h0 K h' (plug (Node A (y, d) (Node B (x, c) C)) path)"
    by (intro tree_in_frame [OF t]) simp_all
  with h' show ?thesis by (rule that)
qed

section \<open>Insertion\<close>

lemma tree_in_apex:
  assumes "tree_in h0 K h (plug t path)"
  shows "apex t = 0 \<longleftrightarrow> t = Leaf" "apex t \<noteq> 0 \<and> rb_is_red h (apex t) \<longleftrightarrow> col t = Red"
    "t \<noteq> Leaf \<Longrightarrow> rb_parent h (apex t) = up path" "ctx h (apex t) path"
  using assms by (cases t rule: apex.cases; auto simp: tree_in_def is_tree_plug)+

lemma tree_in_kids:
  assumes "tree_in h0 K h (plug (Node l (a, c) r) path)"
  shows "apex l \<noteq> 0 \<Longrightarrow> apex l \<noteq> apex r" "apex r \<noteq> 0 \<Longrightarrow> apex l \<noteq> apex r"
    "col l = Red \<longleftrightarrow> apex l \<noteq> 0 \<and> rb_is_red h (apex l)" "col r = Red \<longleftrightarrow> apex r \<noteq> 0 \<and> rb_is_red h (apex r)"
    "apex l = 0 \<longleftrightarrow> l = Leaf" "apex r = 0 \<longleftrightarrow> r = Leaf"
proof -
  have t: "tree_in h0 K h (plug l (LStep a c r # path))" "tree_in h0 K h (plug r (RStep l a c # path))" using assms by simp_all
  show "col l = Red \<longleftrightarrow> apex l \<noteq> 0 \<and> rb_is_red h (apex l)" "col r = Red \<longleftrightarrow> apex r \<noteq> 0 \<and> rb_is_red h (apex r)"
    "apex l = 0 \<longleftrightarrow> l = Leaf" "apex r = 0 \<longleftrightarrow> r = Leaf"
    using tree_in_apex [OF t(1)] tree_in_apex [OF t(2)] by simp_all
  have "set (keys l) \<inter> set (keys r) = {}" using assms by (auto simp: tree_in_def is_tree_plug)
  then show "apex l \<noteq> 0 \<Longrightarrow> apex l \<noteq> apex r" "apex r \<noteq> 0 \<Longrightarrow> apex l \<noteq> apex r"
    using \<open>apex l = 0 \<longleftrightarrow> l = Leaf\<close> \<open>apex r = 0 \<longleftrightarrow> r = Leaf\<close> apex_keys(2) [of l] apex_keys(2) [of r] by auto
qed

lemma set_black_paint:
  assumes "tree_in h0 K h (plug t path)" "t \<noteq> Leaf"
  shows "tree_in h0 K (rb_set_black (apex t) h) (plug (paint Black t) path)"
  using assms by (cases t rule: apex.cases) (auto simp del: plug.simps intro: set_black_tree)

lemma set_red_paint:
  assumes "tree_in h0 K h (plug t path)" "t \<noteq> Leaf"
  shows "tree_in h0 K (rb_set_red (apex t) h) (plug (paint Red t) path)"
  using assms by (cases t rule: apex.cases) (auto simp del: plug.simps intro: set_red_tree)

text \<open>The parent \<open>p\<close> is the left child of \<open>g\<close>: with a red uncle, the pass only recolours.\<close>

lemma insert_uncle_L:
  assumes t: "tree_in h0 K h (plug (Node (Node l (p, Red) r) (g, gc) u) path)" "rb_parent h node = p" "col u = Red"
  obtains h' where "insert_step node h = Some (Some g, h')"
    "tree_in h0 K h' (plug (Node (Node l (p, Black) r) (g, Red) (paint Black u)) path)"
proof -
  define h' where "h' = rb_set_red g (rb_set_black p (rb_set_black (apex u) h))"
  have u: "u \<noteq> Leaf" using t(3) by auto
  have p: "tree_in h0 K h (plug (Node l (p, Red) r) (LStep g gc u # path))" using t by simp
  have "insert_step node h = Some (Some g, h')"
    using tree_in_node [OF t(1)] tree_in_node [OF p] tree_in_kids [OF t(1)] t(2,3) by (simp add: insert_step_def h'_def)
  moreover have "tree_in h0 K h' (plug (Node (Node l (p, Black) r) (g, Red) (paint Black u)) path)"
  proof -
    have 1: "tree_in h0 K (rb_set_black (apex u) h) (plug (Node l (p, Red) r) (LStep g gc (paint Black u) # path))"
      using set_black_paint [of h0 K h u "RStep (Node l (p, Red) r) g gc # path"] t(1) u by simp
    show ?thesis unfolding h'_def using set_black_tree [OF 1] by (intro set_red_tree) simp
  qed
  ultimately show ?thesis by (rule that)
qed

lemma insert_uncle_R:
  assumes t: "tree_in h0 K h (plug (Node u (g, gc) (Node l (p, Red) r)) path)" "rb_parent h node = p" "col u = Red"
  obtains h' where "insert_step node h = Some (Some g, h')"
    "tree_in h0 K h' (plug (Node (paint Black u) (g, Red) (Node l (p, Black) r)) path)"
proof -
  define h' where "h' = rb_set_red g (rb_set_black p (rb_set_black (apex u) h))"
  have u: "u \<noteq> Leaf" using t(3) by auto
  have p: "tree_in h0 K h (plug (Node l (p, Red) r) (RStep u g gc # path))" using t by simp
  have "insert_step node h = Some (Some g, h')"
    using tree_in_node [OF t(1)] tree_in_node [OF p] tree_in_kids [OF t(1)] t(2,3) by (simp add: insert_step_def h'_def)
  moreover have "tree_in h0 K h' (plug (Node (paint Black u) (g, Red) (Node l (p, Black) r)) path)"
  proof -
    have 1: "tree_in h0 K (rb_set_black (apex u) h) (plug (Node l (p, Red) r) (RStep (paint Black u) g gc # path))"
      using set_black_paint [of h0 K h u "LStep g gc (Node l (p, Red) r) # path"] t(1) u by simp
    show ?thesis unfolding h'_def using set_black_tree [OF 1] by (intro set_red_tree) simp
  qed
  ultimately show ?thesis by (rule that)
qed

text \<open>With a black uncle one or two rotations end the climb.\<close>

lemma insert_LL:
  assumes t: "tree_in h0 K h (plug (Node (Node t (p, Red) s) (g, gc) u) path)" "t \<noteq> Leaf" "col u = Black"
  obtains h' where "insert_step (apex t) h = Some (Some (apex t), h')"
    "tree_in h0 K h' (plug (Node t (p, Black) (Node s (g, Red) u)) path)"
proof -
  have p: "tree_in h0 K h (plug (Node t (p, Red) s) (LStep g gc u # path))"
    and n: "tree_in h0 K h (plug t (LStep p Red s # LStep g gc u # path))" using t by simp_all
  have "tree_in h0 K (rb_set_red g (rb_set_black p h)) (plug (Node (Node t (p, Black) s) (g, Red) u) path)"
    using set_black_tree [OF p] by (intro set_red_tree) simp
  then obtain h' where h': "rb_rotate_right g (rb_set_red g (rb_set_black p h)) = Some h'"
    "tree_in h0 K h' (plug (Node t (p, Black) (Node s (g, Red) u)) path)" by (rule rotate_right_tree)
  then show ?thesis
    using tree_in_node [OF t(1)] tree_in_node [OF p] tree_in_kids [OF t(1)] tree_in_kids [OF p] tree_in_apex [OF n] t(2,3)
    by (intro that [of h']) (auto simp: insert_step_def)
qed

lemma insert_LR:
  assumes t: "tree_in h0 K h (plug (Node (Node s (p, Red) (Node a (x, xc) b)) (g, gc) u) path)" "col u = Black"
  obtains h' where "insert_step x h = Some (Some p, h')"
    "tree_in h0 K h' (plug (Node (Node s (p, Red) a) (x, Black) (Node b (g, Red) u)) path)"
proof -
  have p: "tree_in h0 K h (plug (Node s (p, Red) (Node a (x, xc) b)) (LStep g gc u # path))"
    and n: "tree_in h0 K h (plug (Node a (x, xc) b) (RStep s p Red # LStep g gc u # path))" using t by simp_all
  obtain h1 where h1: "rb_rotate_left p h = Some h1" "tree_in h0 K h1 (plug (Node (Node s (p, Red) a) (x, xc) b) (LStep g gc u # path))"
    using p by (rule rotate_left_tree)
  have "tree_in h0 K (rb_set_red g (rb_set_black x h1)) (plug (Node (Node (Node s (p, Red) a) (x, Black) b) (g, Red) u) path)"
    using set_black_tree [OF h1(2)] by (intro set_red_tree) simp
  then obtain h' where h': "rb_rotate_right g (rb_set_red g (rb_set_black x h1)) = Some h'"
    "tree_in h0 K h' (plug (Node (Node s (p, Red) a) (x, Black) (Node b (g, Red) u)) path)" by (rule rotate_right_tree)
  then show ?thesis
    using h1(1) tree_in_node [OF t(1)] tree_in_node [OF p] tree_in_kids [OF t(1)] tree_in_kids [OF p] tree_in_node [OF n] t(2)
    by (intro that [of h']) (auto simp: insert_step_def)
qed

lemma insert_RR:
  assumes t: "tree_in h0 K h (plug (Node u (g, gc) (Node s (p, Red) t)) path)" "t \<noteq> Leaf" "col u = Black"
  obtains h' where "insert_step (apex t) h = Some (Some (apex t), h')"
    "tree_in h0 K h' (plug (Node (Node u (g, Red) s) (p, Black) t) path)"
proof -
  have p: "tree_in h0 K h (plug (Node s (p, Red) t) (RStep u g gc # path))"
    and n: "tree_in h0 K h (plug t (RStep s p Red # RStep u g gc # path))" using t by simp_all
  have "tree_in h0 K (rb_set_red g (rb_set_black p h)) (plug (Node u (g, Red) (Node s (p, Black) t)) path)"
    using set_black_tree [OF p] by (intro set_red_tree) simp
  then obtain h' where h': "rb_rotate_left g (rb_set_red g (rb_set_black p h)) = Some h'"
    "tree_in h0 K h' (plug (Node (Node u (g, Red) s) (p, Black) t) path)" by (rule rotate_left_tree)
  then show ?thesis
    using tree_in_node [OF t(1)] tree_in_node [OF p] tree_in_kids [OF t(1)] tree_in_kids [OF p] tree_in_apex [OF n] t(2,3)
    by (intro that [of h']) (auto simp: insert_step_def)
qed

lemma insert_RL:
  assumes t: "tree_in h0 K h (plug (Node u (g, gc) (Node (Node a (x, xc) b) (p, Red) s)) path)" "col u = Black"
  obtains h' where "insert_step x h = Some (Some p, h')"
    "tree_in h0 K h' (plug (Node (Node u (g, Red) a) (x, Black) (Node b (p, Red) s)) path)"
proof -
  have p: "tree_in h0 K h (plug (Node (Node a (x, xc) b) (p, Red) s) (RStep u g gc # path))"
    and n: "tree_in h0 K h (plug (Node a (x, xc) b) (LStep p Red s # RStep u g gc # path))" using t by simp_all
  obtain h1 where h1: "rb_rotate_right p h = Some h1" "tree_in h0 K h1 (plug (Node a (x, xc) (Node b (p, Red) s)) (RStep u g gc # path))"
    using p by (rule rotate_right_tree)
  have "tree_in h0 K (rb_set_red g (rb_set_black x h1)) (plug (Node u (g, Red) (Node a (x, Black) (Node b (p, Red) s))) path)"
    using set_black_tree [OF h1(2)] by (intro set_red_tree) simp
  then obtain h' where h': "rb_rotate_left g (rb_set_red g (rb_set_black x h1)) = Some h'"
    "tree_in h0 K h' (plug (Node (Node u (g, Red) a) (x, Black) (Node b (p, Red) s)) path)" by (rule rotate_left_tree)
  then show ?thesis
    using h1(1) tree_in_node [OF t(1)] tree_in_node [OF p] tree_in_kids [OF t(1)] tree_in_kids [OF p] tree_in_node [OF n] t(2)
    by (intro that [of h']) (auto simp: insert_step_def)
qed


text \<open>A node below a black node, or the root, ends the loop.\<close>

lemma insert_loop_stop:
  assumes "tree_in h0 K h (plug t path)" "t \<noteq> Leaf" "path = [] \<or> pcol path = Black"
  shows "insert_loop (apex t) h = Some h"
  using tree_in_apex [OF assms(1)] assms(2,3)
  by (cases path rule: up.cases) (auto simp: insert_loop.simps [of "apex t"] insert_step_def)

lemma insert_loop_ends:
  assumes "tree_in h0 K h (plug t path)" "col t = Red" "path = [] \<or> pcol path = Black"
  shows "\<exists>h'. insert_loop (apex t) h = Some h' \<and> tree_in h0 K h' (plug t path)"
proof -
  have "t \<noteq> Leaf" using assms(2) by auto
  then show ?thesis using assms(1) insert_loop_stop [OF assms(1) _ assms(3)] by simp
qed

lemma insert_loop_next:
  "insert_step node h = Some (Some node', h') \<Longrightarrow> insert_loop node h = insert_loop node' h'"
  by (simp add: insert_loop.simps [of node])

lemma insert_loop_tree:
  assumes "tree_in h0 K h (plug t path)" "invc t" "invh t" "okp (bheight t) path" "col t = Red"
  shows "\<exists>h'. insert_loop (apex t) h = Some h' \<and> tree_in h0 K h' (ins_fix t path)"
  using assms
proof (induction t path arbitrary: h rule: ins_fix.induct)
  case (1 t p s g gc u path)
  have nl: "t \<noteq> Leaf" using 1(6) by auto
  have t: "tree_in h0 K h (plug (Node (Node t (p, Red) s) (g, gc) u) path)" "t \<noteq> Leaf" "rb_parent h (apex t) = p"
    using nl 1(2) tree_in_apex(3) [OF 1(2) nl] by simp_all
  show ?case
  proof (cases "col u = Red")
    case True
    obtain h' where "insert_step (apex t) h = Some (Some g, h')"
      "tree_in h0 K h' (plug (Node (Node t (p, Black) s) (g, Red) (paint Black u)) path)"
      using insert_uncle_L [OF t(1,3) True] by blast
    then show ?thesis using 1(1) [OF True, of h'] 1(3-) True by (cases gc) (simp_all add: insert_loop_next)
  next
    case False
    obtain h' where h': "insert_step (apex t) h = Some (Some (apex t), h')"
      "tree_in h0 K h' (plug (Node t (p, Black) (Node s (g, Red) u)) path)"
      using insert_LL [OF t(1,2)] False by auto
    then have "insert_loop (apex t) h' = Some h'" using t(2) by (intro insert_loop_stop [of h0 K _ _ "LStep p Black (Node s (g, Red) u) # path"]) simp_all
    then show ?thesis using h' False by (simp add: insert_loop_next)
  qed
next
  case (2 a x xc b s p g gc u path)
  have t: "tree_in h0 K h (plug (Node (Node s (p, Red) (Node a (x, xc) b)) (g, gc) u) path)" "rb_parent h x = p"
    using 2(2) tree_in_apex(3) [OF 2(2)] by simp_all
  show ?case
  proof (cases "col u = Red")
    case True
    obtain h' where "insert_step x h = Some (Some g, h')"
      "tree_in h0 K h' (plug (Node (Node s (p, Black) (Node a (x, xc) b)) (g, Red) (paint Black u)) path)"
      using insert_uncle_L [OF t True] by blast
    then show ?thesis using 2(1) [OF True, of h'] 2(3-) True by (cases gc) (simp_all add: insert_loop_next)
  next
    case False
    obtain h' where h': "insert_step x h = Some (Some p, h')"
      "tree_in h0 K h' (plug (Node (Node s (p, Red) a) (x, Black) (Node b (g, Red) u)) path)"
      using insert_LR [OF t(1)] False by auto
    then have "insert_loop p h' = Some h'"
      using insert_loop_stop [of h0 K h' "Node s (p, Red) a" "LStep x Black (Node b (g, Red) u) # path"] by simp
    then show ?thesis using h' False by (simp add: insert_loop_next)
  qed
next
  case (3 t s p u g gc path)
  have nl: "t \<noteq> Leaf" using 3(6) by auto
  have t: "tree_in h0 K h (plug (Node u (g, gc) (Node s (p, Red) t)) path)" "t \<noteq> Leaf" "rb_parent h (apex t) = p"
    using nl 3(2) tree_in_apex(3) [OF 3(2) nl] by simp_all
  show ?case
  proof (cases "col u = Red")
    case True
    obtain h' where "insert_step (apex t) h = Some (Some g, h')"
      "tree_in h0 K h' (plug (Node (paint Black u) (g, Red) (Node s (p, Black) t)) path)"
      using insert_uncle_R [OF t(1,3) True] by blast
    then show ?thesis using 3(1) [OF True, of h'] 3(3-) True by (cases gc) (simp_all add: insert_loop_next)
  next
    case False
    obtain h' where h': "insert_step (apex t) h = Some (Some (apex t), h')"
      "tree_in h0 K h' (plug (Node (Node u (g, Red) s) (p, Black) t) path)"
      using insert_RR [OF t(1,2)] False by auto
    then have "insert_loop (apex t) h' = Some h'" using t(2) by (intro insert_loop_stop [of h0 K _ _ "RStep (Node u (g, Red) s) p Black # path"]) simp_all
    then show ?thesis using h' False by (simp add: insert_loop_next)
  qed
next
  case (4 a x xc b p s u g gc path)
  have t: "tree_in h0 K h (plug (Node u (g, gc) (Node (Node a (x, xc) b) (p, Red) s)) path)" "rb_parent h x = p"
    using 4(2) tree_in_apex(3) [OF 4(2)] by simp_all
  show ?case
  proof (cases "col u = Red")
    case True
    obtain h' where "insert_step x h = Some (Some g, h')"
      "tree_in h0 K h' (plug (Node (paint Black u) (g, Red) (Node (Node a (x, xc) b) (p, Black) s)) path)"
      using insert_uncle_R [OF t True] by blast
    then show ?thesis using 4(1) [OF True, of h'] 4(3-) True by (cases gc) (simp_all add: insert_loop_next)
  next
    case False
    obtain h' where h': "insert_step x h = Some (Some p, h')"
      "tree_in h0 K h' (plug (Node (Node u (g, Red) a) (x, Black) (Node b (p, Red) s)) path)"
      using insert_RL [OF t(1)] False by auto
    then have "insert_loop p h' = Some h'"
      using insert_loop_stop [of h0 K h' "Node b (p, Red) s" "RStep (Node u (g, Red) a) x Black # path"] by simp
    then show ?thesis using h' False by (simp add: insert_loop_next)
  qed
qed (auto intro!: insert_loop_ends okp_single simp del: plug.simps)

text \<open>The pointer a new leaf is linked to.\<close>

fun link_at :: "ptr step list \<Rightarrow> rb_link" where
  "link_at [] = Root_link"
| "link_at (LStep a c r # path) = Left_link"
| "link_at (RStep l a c # path) = Right_link"

lemma link_tree:
  assumes "is_tree h (plug Leaf path)" "a \<noteq> 0" "aligned a" "a \<notin> set (before path) \<union> set (after path)"
  defines "h' \<equiv> rb_link_node a (up path) (link_at path) h"
  shows "tree_in h (insert a (set (before path) \<union> set (after path))) h' (plug (Node Leaf (a, Red) Leaf) path)"
proof -
  have cx: "ctx h 0 path" and d: "distinct (before path @ after path)" using assms(1) by (simp_all add: is_tree_plug)
  have up: "aligned (up path)" "up path \<noteq> a"
    using ctx_up [OF cx] up_keys [of path] assms(2,4) by (cases path; auto)+
  have up': "up path AND - 4 = up path" "up path AND 1 = 0"
    using pack_parent [OF up(1), of 0] by simp_all
  have node: "rb_parent h' a = up path" "rb_is_red h' a" "lft h' a = 0" "rgt h' a = 0"
    using up(2) up'
    by (auto simp: h'_def rb_link_node_def Let_def rb_upd_def set_lft_def set_rgt_def rb_parent_def rb_is_red_def rb_color_def split: rb_link.splits)
  have fr: "rb_nodes h' b = rb_nodes h b" if "b \<noteq> a" "b \<noteq> up path \<or> path = []" for b
    using that by (cases path rule: up.cases) (auto simp: h'_def rb_link_node_def Let_def)
  have "ctx h' a path"
  proof (rule ctx_move [OF cx d])
    show "\<forall>b \<in> set (before path) \<union> set (after path). b \<noteq> up path \<longrightarrow> same h h' b"
      using fr assms(4) by (metis same_nodes)
    show "child h' path = a" by (cases path rule: up.cases) (auto simp: h'_def rb_link_node_def Let_def)
    show "rb_root h' = rb_root h \<and> other_child h' path = other_child h path \<and>
      (rb_is_red h' (up path) \<longleftrightarrow> rb_is_red h (up path)) \<and> rb_parent h' (up path) = rb_parent h (up path)" if "path \<noteq> []"
      using that up(2)
      by (cases path rule: up.cases) (auto simp: h'_def rb_link_node_def Let_def rb_upd_def rb_parent_def rb_is_red_def rb_color_def set_lft_def set_rgt_def)
  qed
  then have "is_tree h' (plug (Node Leaf (a, Red) Leaf) path)" using node d assms(2-4) by (simp add: is_tree_plug)
  moreover have "rb_nodes h' b = rb_nodes h b" if "b \<notin> insert a (set (before path) \<union> set (after path))" for b
    using that up_keys [of path] by (intro fr) auto
  ultimately show ?thesis by (auto simp: tree_in_def)
qed

lemma paint_apex: "t \<noteq> Leaf \<Longrightarrow> tree_in h0 K h t \<Longrightarrow> tree_in h0 K (rb_set_black (rb_root h) h) (paint Black t) \<and> rb_root h \<noteq> 0"
  using set_black_paint [of h0 K h t "[]"] tree_in_apex(1) [of h0 K h t "[]"] by (simp add: tree_in_def is_tree_def)

lemma rb_insert_color_tree:
  assumes "is_tree h (plug Leaf path)" "rbt (plug Leaf path)" "a \<noteq> 0" "aligned a" "a \<notin> set (before path) \<union> set (after path)"
  shows "\<exists>h'. rb_insert_color a (rb_link_node a (up path) (link_at path) h) = Some h' \<and>
    tree_in h (insert a (set (before path) \<union> set (after path))) h' (tree_insert_color a (plug (Node Leaf (a, Red) Leaf) path))"
proof -
  define t where "t = Node Leaf (a, Red) Leaf"
  define K where "K = insert a (set (before path) \<union> set (after path))"
  have "okp (bheight t) path" using assms(2) by (simp add: rbt_plug t_def)
  then obtain h1 where h1: "insert_loop a (rb_link_node a (up path) (link_at path) h) = Some h1" "tree_in h K h1 (ins_fix t path)"
    using insert_loop_tree [OF link_tree [OF assms(1,3-5)]] by (auto simp: t_def K_def)
  have "keys (ins_fix t path) \<noteq> []" by (simp add: keys_ins_fix t_def)
  then have "ins_fix t path \<noteq> Leaf" by auto
  then have "tree_in h K (rb_set_black (rb_root h1) h1) (paint Black (ins_fix t path))" "rb_root h1 \<noteq> 0"
    using paint_apex [OF _ h1(2)] by simp_all
  then show ?thesis using h1(1) assms(3,5) by (simp add: rb_insert_color_def tree_insert_color_def locate_plug t_def K_def)
qed

section \<open>Removal\<close>

lemma rot_sib_L_tree:
  assumes t: "tree_in h0 K h (plug (Node t (p, pc) s) path)" and s: "rot_sib_L p pc s path = (pc', s', path')"
  obtains h' where "(if rb_is_red h (apex s) \<and> s \<noteq> Leaf
      then do { h \<leftarrow> rb_rotate_left p (rb_set_red p (rb_set_black (apex s) h)); Some (rgt h p, h) }
      else Some (apex s, h)) = Some (apex s', h')"
    "tree_in h0 K h' (plug (Node t (p, pc') s') path')"
proof (cases "col s = Red")
  case True
  then obtain sl x sr where sx: "s = Node sl (x, Red) sr" by (cases s rule: col.cases) auto
  have e: "pc' = Red" "s' = sl" "path' = LStep x Black sr # path" using s by (auto simp: sx rot_sib_L_def)
  have "tree_in h0 K (rb_set_black x h) (plug (Node t (p, pc) (Node sl (x, Black) sr)) path)"
    using set_black_tree [of h0 K h sl x Red sr "RStep t p pc # path"] t by (simp add: sx)
  then have "tree_in h0 K (rb_set_red p (rb_set_black x h)) (plug (Node t (p, Red) (Node sl (x, Black) sr)) path)"
    by (rule set_red_tree)
  then obtain h' where h': "rb_rotate_left p (rb_set_red p (rb_set_black x h)) = Some h'"
    "tree_in h0 K h' (plug (Node (Node t (p, Red) sl) (x, Black) sr) path)" by (rule rotate_left_tree)
  then have t': "tree_in h0 K h' (plug (Node t (p, pc') s') path')" by (simp add: e)
  show ?thesis using True tree_in_kids(4) [OF t] h'(1) tree_in_node(6) [OF t'] by (intro that [OF _ t']) (simp add: sx e)
next
  case False
  then have "pc' = pc" "s' = s" "path' = path" using s by (auto simp: rot_sib_L_def split: tree.splits prod.splits color.splits)
  then show ?thesis using False tree_in_kids(4,6) [OF t] t by (intro that [of h]) auto
qed

lemma rot_sib_R_tree:
  assumes t: "tree_in h0 K h (plug (Node s (p, pc) t) path)" and s: "rot_sib_R p pc s path = (pc', s', path')"
  obtains h' where "(if rb_is_red h (apex s) \<and> s \<noteq> Leaf
      then do { h \<leftarrow> rb_rotate_right p (rb_set_red p (rb_set_black (apex s) h)); Some (lft h p, h) }
      else Some (apex s, h)) = Some (apex s', h')"
    "tree_in h0 K h' (plug (Node s' (p, pc') t) path')"
proof (cases "col s = Red")
  case True
  then obtain sl x sr where sx: "s = Node sl (x, Red) sr" by (cases s rule: col.cases) auto
  have e: "pc' = Red" "s' = sr" "path' = RStep sl x Black # path" using s by (auto simp: sx rot_sib_R_def)
  have "tree_in h0 K (rb_set_black x h) (plug (Node (Node sl (x, Black) sr) (p, pc) t) path)"
    using set_black_tree [of h0 K h sl x Red sr "LStep p pc t # path"] t by (simp add: sx)
  then have "tree_in h0 K (rb_set_red p (rb_set_black x h)) (plug (Node (Node sl (x, Black) sr) (p, Red) t) path)"
    by (rule set_red_tree)
  then obtain h' where h': "rb_rotate_right p (rb_set_red p (rb_set_black x h)) = Some h'"
    "tree_in h0 K h' (plug (Node sl (x, Black) (Node sr (p, Red) t)) path)" by (rule rotate_right_tree)
  then have t': "tree_in h0 K h' (plug (Node s' (p, pc') t) path')" by (simp add: e)
  show ?thesis using True tree_in_kids(3) [OF t] h'(1) tree_in_node(5) [OF t'] by (intro that [OF _ t']) (simp add: sx e)
next
  case False
  then have "pc' = pc" "s' = s" "path' = path" using s by (auto simp: rot_sib_R_def split: tree.splits prod.splits color.splits)
  then show ?thesis using False tree_in_kids(3,5) [OF t] t by (intro that [of h]) auto
qed

lemma black_or_null_col:
  assumes "tree_in h0 K h (plug t path)"
  shows "black_or_null h (apex t) \<longleftrightarrow> col t = Black"
  using tree_in_apex [OF assms] by (cases "col t") (auto simp: black_or_null_def black_red)

lemma kids_black_heap:
  assumes "tree_in h0 K h (plug s path)" "s \<noteq> Leaf"
  shows "black_or_null h (lft h (apex s)) \<and> black_or_null h (rgt h (apex s)) \<longleftrightarrow> kids_black s"
proof -
  obtain l a c r where s: "s = Node l (a, c) r" using assms(2) by (cases s) auto
  have "tree_in h0 K h (plug l (LStep a c r # path))" "tree_in h0 K h (plug r (RStep l a c # path))"
    using assms(1) by (simp_all add: s)
  from this [THEN black_or_null_col] show ?thesis using tree_in_node(5,6) [OF assms(1) [unfolded s]] by (simp add: s)
qed

text \<open>The end of the loop: the sibling gives a node.\<close>

lemma borrow_L_tree:
  assumes t: "tree_in h0 K h (plug (Node t (p, pc) s) path)" and s: "\<not> kids_black s"
  obtains h' where
    "do { (other, h) \<leftarrow>
            (if black_or_null h (rgt h (apex s))
             then do { h \<leftarrow> rb_rotate_right (apex s) (rb_set_red (apex s) (rb_set_black (lft h (apex s)) h)); Some (rgt h p, h) }
             else Some (apex s, h));
          let h = rb_set_color other (rb_color h p) h;
          let h = rb_set_black p h;
          let h = rb_set_black (rgt h other) h;
          h \<leftarrow> rb_rotate_left p h;
          Some (None :: (ptr \<times> ptr) option, h) } = Some (None, h')"
    "tree_in h0 K h' (plug (borrow_L t p pc s) path)"
proof -
  note ends = that
  obtain sl y yc sr where sy: "s = Node sl (y, yc) sr" using s by (cases s) auto
  have y: "tree_in h0 K h (plug (Node sl (y, yc) sr) (RStep t p pc # path))"
    and yr: "tree_in h0 K h (plug sr (RStep sl y yc # RStep t p pc # path))" using t by (simp_all add: sy)
  have fin: thesis if h1: "tree_in h0 K h1 (plug (Node t (p, pc) (Node a (x, xc) b)) path)" and b: "b \<noteq> Leaf"
    and first: "(if black_or_null h (rgt h y)
      then do { h \<leftarrow> rb_rotate_right y (rb_set_red y (rb_set_black (lft h y) h)); Some (rgt h p, h) } else Some (y, h)) = Some (x, h1)"
    and res: "borrow_L t p pc s = Node (Node t (p, Black) a) (x, pc) (paint Black b)" for h1 a x xc b
  proof -
    define h2 where "h2 = rb_set_color x (rb_color h1 p) h1"
    define h3 where "h3 = rb_set_black p h2"
    define h4 where "h4 = rb_set_black (rgt h3 x) h3"
    have "tree_in h0 K h1 (plug (Node a (x, xc) b) (RStep t p pc # path))" using h1 by simp
    then have "tree_in h0 K h2 (plug (Node t (p, pc) (Node a (x, pc) b)) path)"
      unfolding h2_def using set_color_tree [of h0 K h1 a x xc b "RStep t p pc # path" h1 p pc] tree_in_node(4) [OF h1] by simp
    then have h3: "tree_in h0 K h3 (plug (Node t (p, Black) (Node a (x, pc) b)) path)"
      unfolding h3_def by (rule set_black_tree)
    then have "rgt h3 x = apex b" using tree_in_node(6) [of h0 K h3 a x pc b "RStep t p Black # path"] by simp
    then have "tree_in h0 K h4 (plug (Node t (p, Black) (Node a (x, pc) (paint Black b))) path)"
      using set_black_paint [of h0 K h3 b "RStep a x pc # RStep t p Black # path"] h3 b by (simp add: h4_def)
    then obtain h' where h': "rb_rotate_left p h4 = Some h'" "tree_in h0 K h' (plug (Node (Node t (p, Black) a) (x, pc) (paint Black b)) path)"
      by (rule rotate_left_tree)
    show ?thesis
    proof (rule ends)
      show "tree_in h0 K h' (plug (borrow_L t p pc s) path)" unfolding res by (rule h'(2))
    qed (use h'(1) in \<open>simp only: sy apex.simps first\<close>, simp add: h2_def h3_def h4_def)
  qed
  show ?thesis
  proof (cases "col sr = Red")
    case True
    then show ?thesis using black_or_null_col [OF yr] tree_in_node(6) [OF y]
      by (intro fin [of h sl y yc sr]) (use t in \<open>auto simp: sy borrow_L_def\<close>)
  next
    case False
    then obtain a x b where sx: "sl = Node a (x, Red) b" using s by (cases sl rule: col.cases) (auto simp: sy)
    have "tree_in h0 K (rb_set_black x h) (plug (Node (Node a (x, Black) b) (y, yc) sr) (RStep t p pc # path))"
      using set_black_tree [of h0 K h a x Red b "LStep y yc sr # RStep t p pc # path"] t by (simp add: sy sx)
    then have "tree_in h0 K (rb_set_red y (rb_set_black x h)) (plug (Node (Node a (x, Black) b) (y, Red) sr) (RStep t p pc # path))"
      by (rule set_red_tree)
    then obtain h1 where h1: "rb_rotate_right y (rb_set_red y (rb_set_black x h)) = Some h1"
      "tree_in h0 K h1 (plug (Node a (x, Black) (Node b (y, Red) sr)) (RStep t p pc # path))" by (rule rotate_right_tree)
    then have h1': "tree_in h0 K h1 (plug (Node t (p, pc) (Node a (x, Black) (Node b (y, Red) sr))) path)" by simp
    show ?thesis using False black_or_null_col [OF yr] tree_in_node(5,6) [OF y] h1(1) tree_in_node(6) [OF h1']
      by (intro fin [OF h1']) (auto simp: sy sx borrow_L_def)
  qed
qed

lemma borrow_R_tree:
  assumes t: "tree_in h0 K h (plug (Node s (p, pc) t) path)" and s: "\<not> kids_black s"
  obtains h' where
    "do { (other, h) \<leftarrow>
            (if black_or_null h (lft h (apex s))
             then do { h \<leftarrow> rb_rotate_left (apex s) (rb_set_red (apex s) (rb_set_black (rgt h (apex s)) h)); Some (lft h p, h) }
             else Some (apex s, h));
          let h = rb_set_color other (rb_color h p) h;
          let h = rb_set_black p h;
          let h = rb_set_black (lft h other) h;
          h \<leftarrow> rb_rotate_right p h;
          Some (None :: (ptr \<times> ptr) option, h) } = Some (None, h')"
    "tree_in h0 K h' (plug (borrow_R t p pc s) path)"
proof -
  note ends = that
  obtain sl y yc sr where sy: "s = Node sr (y, yc) sl" using s by (cases s) auto
  have y: "tree_in h0 K h (plug (Node sr (y, yc) sl) (LStep p pc t # path))"
    and yr: "tree_in h0 K h (plug sr (LStep y yc sl # LStep p pc t # path))" using t by (simp_all add: sy)
  have fin: thesis if h1: "tree_in h0 K h1 (plug (Node (Node b (x, xc) a) (p, pc) t) path)" and b: "b \<noteq> Leaf"
    and first: "(if black_or_null h (lft h y)
      then do { h \<leftarrow> rb_rotate_left y (rb_set_red y (rb_set_black (rgt h y) h)); Some (lft h p, h) } else Some (y, h)) = Some (x, h1)"
    and res: "borrow_R t p pc s = Node (paint Black b) (x, pc) (Node a (p, Black) t)" for h1 a x xc b
  proof -
    define h2 where "h2 = rb_set_color x (rb_color h1 p) h1"
    define h3 where "h3 = rb_set_black p h2"
    define h4 where "h4 = rb_set_black (lft h3 x) h3"
    have "tree_in h0 K h1 (plug (Node b (x, xc) a) (LStep p pc t # path))" using h1 by simp
    then have "tree_in h0 K h2 (plug (Node (Node b (x, pc) a) (p, pc) t) path)"
      unfolding h2_def using set_color_tree [of h0 K h1 b x xc a "LStep p pc t # path" h1 p pc] tree_in_node(4) [OF h1] by simp
    then have h3: "tree_in h0 K h3 (plug (Node (Node b (x, pc) a) (p, Black) t) path)"
      unfolding h3_def by (rule set_black_tree)
    then have "lft h3 x = apex b" using tree_in_node(5) [of h0 K h3 b x pc a "LStep p Black t # path"] by simp
    then have "tree_in h0 K h4 (plug (Node (Node (paint Black b) (x, pc) a) (p, Black) t) path)"
      using set_black_paint [of h0 K h3 b "LStep x pc a # LStep p Black t # path"] h3 b by (simp add: h4_def)
    then obtain h' where h': "rb_rotate_right p h4 = Some h'" "tree_in h0 K h' (plug (Node (paint Black b) (x, pc) (Node a (p, Black) t)) path)"
      by (rule rotate_right_tree)
    show ?thesis
    proof (rule ends)
      show "tree_in h0 K h' (plug (borrow_R t p pc s) path)" unfolding res by (rule h'(2))
    qed (use h'(1) in \<open>simp only: sy apex.simps first\<close>, simp add: h2_def h3_def h4_def)
  qed
  show ?thesis
  proof (cases "col sr = Red")
    case True
    then show ?thesis using black_or_null_col [OF yr] tree_in_node(5) [OF y]
      by (intro fin [of h sr y yc sl]) (use t in \<open>auto simp: sy borrow_R_def\<close>)
  next
    case False
    then obtain a x b where sx: "sl = Node b (x, Red) a" using s by (cases sl rule: col.cases) (auto simp: sy)
    have "tree_in h0 K (rb_set_black x h) (plug (Node sr (y, yc) (Node b (x, Black) a)) (LStep p pc t # path))"
      using set_black_tree [of h0 K h b x Red a "RStep sr y yc # LStep p pc t # path"] t by (simp add: sy sx)
    then have "tree_in h0 K (rb_set_red y (rb_set_black x h)) (plug (Node sr (y, Red) (Node b (x, Black) a)) (LStep p pc t # path))"
      by (rule set_red_tree)
    then obtain h1 where h1: "rb_rotate_left y (rb_set_red y (rb_set_black x h)) = Some h1"
      "tree_in h0 K h1 (plug (Node (Node sr (y, Red) b) (x, Black) a) (LStep p pc t # path))" by (rule rotate_left_tree)
    then have h1': "tree_in h0 K h1 (plug (Node (Node (Node sr (y, Red) b) (x, Black) a) (p, pc) t) path)" by simp
    show ?thesis using False black_or_null_col [OF yr] tree_in_node(5,6) [OF y] h1(1) tree_in_node(5) [OF h1']
      by (intro fin [OF h1']) (auto simp: sy sx borrow_R_def)
  qed
qed

text \<open>One pass of the loop.\<close>

lemma erase_left_tree:
  assumes t: "tree_in h0 K h (plug (Node t (p, pc) s) path)" and s: "rot_sib_L p pc s path = (pc', s', path')" "s \<noteq> Leaf" "s' \<noteq> Leaf"
  obtains h' where "kids_black s'" "erase_left node p h = Some (Some (p, up path'), h')" "tree_in h0 K h' (plug (Node t (p, pc') (paint Red s')) path')"
  | h' where "\<not> kids_black s'" "erase_left node p h = Some (None, h')" "tree_in h0 K h' (plug (borrow_L t p pc' s') path')"
proof -
  obtain h1 where h1: "(if rb_is_red h (apex s) \<and> s \<noteq> Leaf
      then do { h \<leftarrow> rb_rotate_left p (rb_set_red p (rb_set_black (apex s) h)); Some (rgt h p, h) }
      else Some (apex s, h)) = Some (apex s', h1)" and t1: "tree_in h0 K h1 (plug (Node t (p, pc') s') path')"
    using rot_sib_L_tree [OF t s(1)] by blast
  have s1: "tree_in h0 K h1 (plug s' (RStep t p pc' # path'))" using t1 by simp
  have n: "rgt h p = apex s" "apex s \<noteq> 0" "apex s' \<noteq> 0"
    using tree_in_node(6) [OF t] tree_in_kids(6) [OF t] tree_in_apex(1) [OF s1] s(2,3) by simp_all
  note first = h1 [simplified s(2) simp_thms]
  show ?thesis
  proof (cases "kids_black s'")
    case True
    have t2: "tree_in h0 K (rb_set_red (apex s') h1) (plug (Node t (p, pc') (paint Red s')) path')"
      using set_red_paint [OF s1 s(3)] by simp
    show ?thesis
    proof (rule that(1) [OF True _ t2])
      show "erase_left node p h = Some (Some (p, up path'), rb_set_red (apex s') h1)"
        using n first True kids_black_heap [OF s1 s(3)] tree_in_node(3) [OF t2] by (simp add: erase_left_def Let_def)
    qed
  next
    case False
    obtain h2 where h2: "do { (other, h) \<leftarrow>
            (if black_or_null h1 (rgt h1 (apex s'))
             then do { h \<leftarrow> rb_rotate_right (apex s') (rb_set_red (apex s') (rb_set_black (lft h1 (apex s')) h1)); Some (rgt h p, h) }
             else Some (apex s', h1));
          let h = rb_set_color other (rb_color h p) h;
          let h = rb_set_black p h;
          let h = rb_set_black (rgt h other) h;
          h \<leftarrow> rb_rotate_left p h;
          Some (None :: (ptr \<times> ptr) option, h) } = Some (None, h2)"
      "tree_in h0 K h2 (plug (borrow_L t p pc' s') path')"
      using borrow_L_tree [OF t1 False] by blast
    show ?thesis
    proof (rule that(2) [OF False _ h2(2)])
      show "erase_left node p h = Some (None, h2)"
        using n first False kids_black_heap [OF s1 s(3)] h2(1) by (simp add: erase_left_def Let_def)
    qed
  qed
qed

lemma erase_right_tree:
  assumes t: "tree_in h0 K h (plug (Node s (p, pc) t) path)" and s: "rot_sib_R p pc s path = (pc', s', path')" "s \<noteq> Leaf" "s' \<noteq> Leaf"
  obtains h' where "kids_black s'" "erase_right node p h = Some (Some (p, up path'), h')" "tree_in h0 K h' (plug (Node (paint Red s') (p, pc') t) path')"
  | h' where "\<not> kids_black s'" "erase_right node p h = Some (None, h')" "tree_in h0 K h' (plug (borrow_R t p pc' s') path')"
proof -
  obtain h1 where h1: "(if rb_is_red h (apex s) \<and> s \<noteq> Leaf
      then do { h \<leftarrow> rb_rotate_right p (rb_set_red p (rb_set_black (apex s) h)); Some (lft h p, h) }
      else Some (apex s, h)) = Some (apex s', h1)" and t1: "tree_in h0 K h1 (plug (Node s' (p, pc') t) path')"
    using rot_sib_R_tree [OF t s(1)] by blast
  have s1: "tree_in h0 K h1 (plug s' (LStep p pc' t # path'))" using t1 by simp
  have n: "lft h p = apex s" "apex s \<noteq> 0" "apex s' \<noteq> 0"
    using tree_in_node(5) [OF t] tree_in_kids(5) [OF t] tree_in_apex(1) [OF s1] s(2,3) by simp_all
  note first = h1 [simplified s(2) simp_thms]
  show ?thesis
  proof (cases "kids_black s'")
    case True
    have t2: "tree_in h0 K (rb_set_red (apex s') h1) (plug (Node (paint Red s') (p, pc') t) path')"
      using set_red_paint [OF s1 s(3)] by simp
    show ?thesis
    proof (rule that(1) [OF True _ t2])
      show "erase_right node p h = Some (Some (p, up path'), rb_set_red (apex s') h1)"
        using n first True kids_black_heap [OF s1 s(3)] tree_in_node(3) [OF t2] by (simp add: erase_right_def Let_def)
    qed
  next
    case False
    obtain h2 where h2: "do { (other, h) \<leftarrow>
            (if black_or_null h1 (lft h1 (apex s'))
             then do { h \<leftarrow> rb_rotate_left (apex s') (rb_set_red (apex s') (rb_set_black (rgt h1 (apex s')) h1)); Some (lft h p, h) }
             else Some (apex s', h1));
          let h = rb_set_color other (rb_color h p) h;
          let h = rb_set_black p h;
          let h = rb_set_black (lft h other) h;
          h \<leftarrow> rb_rotate_right p h;
          Some (None :: (ptr \<times> ptr) option, h) } = Some (None, h2)"
      "tree_in h0 K h2 (plug (borrow_R t p pc' s') path')"
      using borrow_R_tree [OF t1 False] by blast
    show ?thesis
    proof (rule that(2) [OF False _ h2(2)])
      show "erase_right node p h = Some (None, h2)"
        using n first False kids_black_heap [OF s1 s(3)] h2(1) by (simp add: erase_right_def Let_def)
    qed
  qed
qed

text \<open>The whole loop.\<close>

lemma root_on_path: "ctx h p path \<Longrightarrow> path \<noteq> [] \<Longrightarrow> rb_root h \<in> set (before path) \<union> set (after path) \<and> rb_root h \<noteq> 0"
proof (induction path arbitrary: p)
  case (Cons st path)
  then show ?case by (cases st; cases "path = []") auto
qed simp

lemma erase_loop_test:
  assumes "tree_in h0 K h (plug t path)"
  shows "black_or_null h (apex t) \<and> apex t \<noteq> rb_root h \<longleftrightarrow> col t = Black \<and> path \<noteq> []"
proof (cases "path = []")
  case True
  then show ?thesis using assms by (simp add: tree_in_def is_tree_def)
next
  case False
  have "rb_root h \<in> set (before path) \<union> set (after path)" "rb_root h \<noteq> 0"
    using root_on_path [OF tree_in_apex(4) [OF assms] False] by auto
  moreover have "set (keys t) \<inter> (set (before path) \<union> set (after path)) = {}"
    using assms by (auto simp: tree_in_def is_tree_plug)
  ultimately have "apex t \<noteq> rb_root h" using tree_in_apex(1) [OF assms] apex_keys(2) [of t] by auto
  then show ?thesis using black_or_null_col [OF assms] False by simp
qed

lemma sibling_there: "okp (Suc h) (LStep p pc s # path) \<Longrightarrow> s \<noteq> Leaf" "okp (Suc h) (RStep s p pc # path) \<Longrightarrow> s \<noteq> Leaf"
  by auto

lemma erase_loop_tree:
  assumes "tree_in h0 K h (plug t path)" "okp (Suc (bheight t)) path"
  shows "\<exists>n h'. erase_loop (apex t) (up path) h = Some (n, h') \<and>
    tree_in h0 K (if n \<noteq> 0 then rb_set_black n h' else h') (erase_fix t path)"
  using assms
proof (induction t path arbitrary: h rule: erase_fix_induct)
  case (stop t path)
  have "erase_loop (apex t) (up path) h = Some (apex t, h)"
    using erase_loop_test [OF stop(2)] stop(1) by (subst erase_loop.simps) auto
  moreover have "erase_fix t path = plug (paint Black t) path" using stop(1) by (auto simp: erase_fix_done)
  ultimately show ?case using tree_in_apex(1) [OF stop(2)] set_black_paint [OF stop(2)] stop(2) by (cases "t = Leaf") auto
next
  case (left t p pc s rest pc' s' path')
  have t: "tree_in h0 K h (plug (Node t (p, pc) s) rest)" using left.prems(1) by simp
  have nl: "s \<noteq> Leaf" "s' \<noteq> Leaf" using sibling_there(1) [OF left.prems(2)] rot_sib_L_ok [OF left(2) left.prems(2)] by auto
  have step: "erase_loop (apex t) p h = do { (next, h) \<leftarrow> erase_left (apex t) p h;
      (case next of None \<Rightarrow> Some (rb_root h, h) | Some (node, parent) \<Rightarrow> erase_loop node parent h) }"
    using erase_loop_test [OF left.prems(1)] left(1) tree_in_node(1,5) [OF t] by (subst erase_loop.simps) simp
  from t left(2) nl show ?case
  proof (rule erase_left_tree [where node = "apex t"])
    fix h' assume h': "kids_black s'" "erase_left (apex t) p h = Some (Some (p, up path'), h')"
      "tree_in h0 K h' (plug (Node t (p, pc') (paint Red s')) path')"
    have "okp (Suc (bheight (Node t (p, pc') (paint Red s')))) path'"
      using rot_sib_L_ok [OF left(2) left.prems(2)] by (cases pc') auto
    then show ?thesis using left.IH [OF h'(1) h'(3)] h'(1,2) step left(1,2) by (simp add: erase_fix_left)
  next
    fix h' assume h': "\<not> kids_black s'" "erase_left (apex t) p h = Some (None, h')" "tree_in h0 K h' (plug (borrow_L t p pc' s') path')"
    have "keys (plug (borrow_L t p pc' s') path') \<noteq> []" by simp
    then have "plug (borrow_L t p pc' s') path' \<noteq> Leaf" by fastforce
    then show ?thesis using paint_apex [OF _ h'(3)] h'(1,2) step left(1,2) by (simp add: erase_fix_left)
  qed
next
  case (right t p pc s rest pc' s' path')
  have t: "tree_in h0 K h (plug (Node s (p, pc) t) rest)" using right.prems(1) by simp
  have nl: "s \<noteq> Leaf" "s' \<noteq> Leaf" using sibling_there(2) [OF right.prems(2)] rot_sib_R_ok [OF right(2) right.prems(2)] by auto
  have "lft h p \<noteq> apex t" using tree_in_node(5) [OF t] tree_in_kids [OF t] nl(1) by simp
  then have step: "erase_loop (apex t) p h = do { (next, h) \<leftarrow> erase_right (apex t) p h;
      (case next of None \<Rightarrow> Some (rb_root h, h) | Some (node, parent) \<Rightarrow> erase_loop node parent h) }"
    using erase_loop_test [OF right.prems(1)] right(1) tree_in_node(1) [OF t] by (subst erase_loop.simps) simp
  from t right(2) nl show ?case
  proof (rule erase_right_tree [where node = "apex t"])
    fix h' assume h': "kids_black s'" "erase_right (apex t) p h = Some (Some (p, up path'), h')"
      "tree_in h0 K h' (plug (Node (paint Red s') (p, pc') t) path')"
    have "okp (Suc (bheight (Node (paint Red s') (p, pc') t))) path'"
      using rot_sib_R_ok [OF right(2) right.prems(2)] nl(2) by (cases pc') (auto simp: paint_Red_simps(2))
    then show ?thesis using right.IH [OF h'(1) h'(3)] h'(1,2) step right(1,2) by (simp add: erase_fix_right)
  next
    fix h' assume h': "\<not> kids_black s'" "erase_right (apex t) p h = Some (None, h')" "tree_in h0 K h' (plug (borrow_R t p pc' s') path')"
    have "keys (plug (borrow_R t p pc' s') path') \<noteq> []" by simp
    then have "plug (borrow_R t p pc' s') path' \<noteq> Leaf" by fastforce
    then show ?thesis using paint_apex [OF _ h'(3)] h'(1,2) step right(1,2) by (simp add: erase_fix_right)
  qed
qed

lemma rb_erase_color_tree:
  assumes "tree_in h0 K h (plug t path)" "okp (Suc (bheight t)) path"
  shows "\<exists>h'. rb_erase_color (apex t) (up path) h = Some h' \<and> tree_in h0 K h' (erase_fix t path)"
  using erase_loop_tree [OF assms] by (auto simp: rb_erase_color_def)

section \<open>Taking a node out\<close>

definition color_bits :: "color \<Rightarrow> u32" where
  "color_bits c = (case c of Red \<Rightarrow> RB_RED | Black \<Rightarrow> RB_BLACK)"

lemma rb_color_bits: "(rb_is_red h a \<longleftrightarrow> c = Red) \<Longrightarrow> rb_color h a = color_bits c"
  using color_bit [of h a] by (cases c) (auto simp: color_bits_def rb_is_red_def)

text \<open>A change that moves the subtree \<open>ch\<close> to the place of the node \<open>a\<close>.\<close>

lemma move_up:
  assumes t: "tree_in h0 K h (plug (Node l (a, c) r) path)" and ch: "l = Leaf \<and> ch = r \<or> r = Leaf \<and> ch = l"
    and fr: "\<And>b. b \<noteq> apex ch \<Longrightarrow> b \<noteq> up path \<Longrightarrow> rb_nodes h' b = rb_nodes h b" "rb_nodes h' 0 = rb_nodes h 0"
    and c: "ch \<noteq> Leaf \<Longrightarrow> lft h' (apex ch) = lft h (apex ch) \<and> rgt h' (apex ch) = rgt h (apex ch) \<and>
      (rb_is_red h' (apex ch) \<longleftrightarrow> rb_is_red h (apex ch)) \<and> rb_parent h' (apex ch) = up path"
    and p: "path \<noteq> [] \<Longrightarrow> rb_root h' = rb_root h \<and> other_child h' path = other_child h path \<and>
      (rb_is_red h' (up path) \<longleftrightarrow> rb_is_red h (up path)) \<and> rb_parent h' (up path) = rb_parent h (up path)"
      "child h' path = apex ch"
  shows "tree_in h0 K h' (plug ch path)"
proof -
  define P where "P = set (before path) \<union> set (after path)"
  have r: "rep h a ch" and cx: "ctx h a path" and d: "distinct (keys ch)" "distinct (before path @ after path)" "set (keys ch) \<inter> P = {}" "a \<notin> P"
    and K: "set (keys ch) \<subseteq> K" "P \<subseteq> K" "\<And>b. b \<notin> K \<Longrightarrow> rb_nodes h b = rb_nodes h0 b"
    using t ch by (auto simp: tree_in_def is_tree_plug P_def)
  have upo: "path \<noteq> [] \<Longrightarrow> up path \<in> P" "path = [] \<Longrightarrow> up path = 0" using up_keys [of path] by (auto simp: P_def)
  have cho: "ch \<noteq> Leaf \<Longrightarrow> apex ch \<in> set (keys ch)" "ch = Leaf \<Longrightarrow> apex ch = 0" using apex_keys(2) [of ch] by auto
  have s: "same h h' b" if "b \<noteq> apex ch \<or> ch = Leaf" "b \<noteq> up path \<or> path = []" for b
    by (rule same_nodes, cases "b = 0") (use fr that upo cho in auto)
  have "rep h' (up path) ch"
    by (rule rep_move [OF r d(1) _ c]) (use s d(3) upo in blast)+
  moreover have "same h h' b" if "b \<in> P" "b \<noteq> up path" for b
    by (rule s) (use that d(3) cho in auto)
  then have "\<forall>b \<in> P. b \<noteq> up path \<longrightarrow> same h h' b" by simp
  then have "ctx h' (apex ch) path" unfolding P_def by (rule ctx_move [OF cx d(2) _ p])
  ultimately have "is_tree h' (plug ch path)" using d by (auto simp: is_tree_plug P_def)
  moreover have "rb_nodes h' b = rb_nodes h0 b" if "b \<notin> K" for b
    using that K(1,2) K(3) [OF that] fr upo cho by (cases "b = 0") (metis subsetD)+
  ultimately show ?thesis using K by (auto simp: tree_in_def P_def)
qed

lemma erase_one_tree:
  assumes t: "tree_in h0 K h (plug (Node l (a, c) r) path)" and ch: "l = Leaf \<and> ch = r \<or> r = Leaf \<and> ch = l"
  obtains h' where "erase_one a (apex ch) h = (apex ch, up path, color_bits c, h')" "tree_in h0 K h' (plug ch path)"
proof -
  define P where "P = set (before path) \<union> set (after path)"
  define h1 where "h1 = (if apex ch \<noteq> 0 then rb_set_parent (apex ch) (up path) h else h)"
  define h' where "h' = (if up path \<noteq> 0 then (if lft h1 (up path) = a then set_lft (up path) (apex ch) h1 else set_rgt (up path) (apex ch) h1)
     else h1\<lparr>rb_root := apex ch\<rparr>)"
  have r: "rep h a ch" and cx: "ctx h a path" and d: "set (keys ch) \<inter> P = {}" "a \<notin> P" and a: "a \<noteq> 0"
    using t ch by (auto simp: tree_in_def is_tree_plug P_def)
  have up: "up path \<noteq> 0 \<longleftrightarrow> path \<noteq> []" "aligned (up path)" "path \<noteq> [] \<Longrightarrow> up path \<in> P"
    using ctx_up [OF cx] up_keys [of path] by (auto simp: P_def)
  have cho: "apex ch \<noteq> 0 \<longleftrightarrow> ch \<noteq> Leaf" "ch \<noteq> Leaf \<Longrightarrow> apex ch \<in> set (keys ch)" using apex_keys(1) [OF r] apex_keys(2) [of ch] by auto
  have ne: "apex ch \<noteq> 0 \<Longrightarrow> apex ch \<noteq> up path" using d up cho by auto
  have "erase_one a (apex ch) h = (apex ch, up path, color_bits c, h')"
    using tree_in_node(3) [OF t] rb_color_bits [OF tree_in_node(4) [OF t]] by (simp add: erase_one_def change_child_def Let_def h1_def h'_def)
  moreover have "tree_in h0 K h' (plug ch path)"
  proof (rule move_up [OF t ch])
    show "child h' path = apex ch"
      using ctx_sides [OF cx a] d(2) up(1) by (cases path rule: up.cases) (auto simp: h'_def h1_def P_def)
    show "rb_root h' = rb_root h \<and> other_child h' path = other_child h path \<and>
      (rb_is_red h' (up path) \<longleftrightarrow> rb_is_red h (up path)) \<and> rb_parent h' (up path) = rb_parent h (up path)" if "path \<noteq> []"
      using ctx_sides [OF cx a] d(2) up ne that by (cases path rule: up.cases) (auto simp: h'_def h1_def P_def)
  qed (use ne up cho in \<open>auto simp: h'_def h1_def\<close>)
  ultimately show ?thesis by (rule that)
qed

lemma leftmost_min:
  "rep h par t \<Longrightarrow> t \<noteq> Leaf \<Longrightarrow> min_zip t q = ((m, mc), ch, mp) \<Longrightarrow> leftmost h (apex t) = Some m"
proof (induction t q arbitrary: par rule: min_zip.induct)
  case (1 l a c r q)
  show ?case
  proof (cases "l = Leaf")
    case True
    then show ?thesis using 1 by (simp add: leftmost.simps [of h m])
  next
    case False
    have "lft h a = apex l" "apex l \<noteq> 0" using 1 False apex_keys(1) [of h a l] by auto
    then show ?thesis using 1(1) [OF False, of a] 1(2-) False by (simp add: leftmost.simps [of h a])
  qed
qed simp

text \<open>
  The node \<open>m\<close> takes the place of \<open>a\<close>: it has the colour and the parent of \<open>a\<close>, the left
  subtree of \<open>a\<close> and, on the right, the subtree \<open>r'\<close>.
\<close>

lemma take_place:
  assumes t: "tree_in h0 K h (plug (Node l (a, c) r) path)"
    and d: "distinct (keys r')" "set (keys r') \<subseteq> set (keys r) - {m}" "m \<in> set (keys r)"
    and m: "m \<noteq> 0" "aligned m" "rb_parent h' m = up path" "rb_is_red h' m \<longleftrightarrow> rb_is_red h a" "lft h' m = apex l" "rgt h' m = apex r'"
    and rr: "rep h' m r'" and ll: "rep h' m l"
    and fr: "\<And>b. b \<notin> set (keys l) \<union> set (keys r) \<Longrightarrow> b \<noteq> up path \<or> path = [] \<Longrightarrow> rb_nodes h' b = rb_nodes h b"
    and p: "path \<noteq> [] \<Longrightarrow> rb_root h' = rb_root h \<and> other_child h' path = other_child h path \<and>
      (rb_is_red h' (up path) \<longleftrightarrow> rb_is_red h (up path)) \<and> rb_parent h' (up path) = rb_parent h (up path)"
      "child h' path = m"
  shows "tree_in h0 K h' (plug (Node l (m, c) r') path)"
proof -
  define P where "P = set (before path) \<union> set (after path)"
  have cx: "ctx h a path" and dp: "distinct (before path @ after path)" "set (keys l) \<inter> P = {}" "set (keys r) \<inter> P = {}"
    and dl: "distinct (keys l)" "set (keys l) \<inter> set (keys r) = {}"
    and K: "set (keys l) \<subseteq> K" "set (keys r) \<subseteq> K" "P \<subseteq> K" "\<And>b. b \<notin> K \<Longrightarrow> rb_nodes h b = rb_nodes h0 b"
    using t by (auto simp: tree_in_def is_tree_plug P_def)
  have "same h h' b" if "b \<in> P" "b \<noteq> up path" for b
    by (rule same_nodes, rule fr) (use that dp in auto)
  then have "\<forall>b \<in> P. b \<noteq> up path \<longrightarrow> same h h' b" by simp
  then have "ctx h' m path" unfolding P_def by (rule ctx_move [OF cx dp(1) _ p])
  moreover have "distinct (before path @ keys (Node l (m, c) r') @ after path)"
    using dp dl d by (auto simp: P_def)
  ultimately have "is_tree h' (plug (Node l (m, c) r') path)"
    using m rr ll tree_in_node(4) [OF t] by (simp add: is_tree_plug)
  moreover have "rb_nodes h' b = rb_nodes h0 b" if "b \<notin> K" for b
  proof -
    have "path \<noteq> [] \<Longrightarrow> up path \<in> K" using up_keys [of path] K(3) by (auto simp: P_def)
    then show ?thesis using that K by (subst fr) auto
  qed
  ultimately show ?thesis using K d by (auto simp: tree_in_def P_def)
qed

lemma change_child_path:
  fixes m :: ptr
  assumes "ctx h a path" "a \<noteq> 0" "a \<notin> set (before path) \<union> set (after path)"
  defines "h1 \<equiv> change_child a m (up path) h"
  shows "child h1 path = m"
    "path \<noteq> [] \<Longrightarrow> rb_root h1 = rb_root h \<and> other_child h1 path = other_child h path \<and>
      (rb_is_red h1 (up path) \<longleftrightarrow> rb_is_red h (up path)) \<and> rb_parent h1 (up path) = rb_parent h (up path)"
    "b \<noteq> up path \<or> path = [] \<Longrightarrow> rb_nodes h1 b = rb_nodes h b"
  using ctx_sides [OF assms(1-3)] ctx_up [OF assms(1)]
  by (cases path rule: up.cases; auto simp: h1_def change_child_def)+

lemma path_nodes:
  assumes "rb_nodes h' (up path) = rb_nodes h (up path)" "rb_root h' = rb_root h"
  shows "child h' path = child h path" "other_child h' path = other_child h path"
    "rb_is_red h' (up path) \<longleftrightarrow> rb_is_red h (up path)" "rb_parent h' (up path) = rb_parent h (up path)"
  using assms by (cases path rule: up.cases; auto simp: rb_is_red_def rb_color_def rb_parent_def)+

text \<open>The node is the right child itself.\<close>

lemma erase_two_near:
  assumes t: "tree_in h0 K h (plug (Node l (a, c) (Node Leaf (m, mc) ch)) path)" and l: "l \<noteq> Leaf"
  obtains h' where "erase_two a h = Some (apex ch, m, color_bits mc, h')" "tree_in h0 K h' (plug (Node l (m, c) ch) path)"
proof -
  define P where "P = set (before path) \<union> set (after path)"
  have cx: "ctx h a path" and rl: "rep h a l" and rm: "rep h a (Node Leaf (m, mc) ch)"
    and d: "a \<notin> P" "m \<notin> P" "a \<noteq> m" "set (keys l) \<inter> P = {}" "set (keys ch) \<inter> P = {}" "a \<notin> set (keys l)" "m \<notin> set (keys l)"
      "m \<notin> set (keys ch)" "a \<notin> set (keys ch)" "set (keys l) \<inter> set (keys ch) = {}" "distinct (keys ch)" "distinct (keys l)"
    using t by (auto simp: tree_in_def is_tree_plug P_def)
  note n = tree_in_node [OF t] and a = tree_in_node(1) [OF t]
  have m: "tree_in h0 K h (plug (Node Leaf (m, mc) ch) (RStep l a c # path))" using t by simp
  note nm = tree_in_node [OF m]
  have up: "up path \<noteq> 0 \<longleftrightarrow> path \<noteq> []" "aligned (up path)" "path \<noteq> [] \<Longrightarrow> up path \<in> P"
    using ctx_up [OF cx] up_keys [of path] by (auto simp: P_def)
  have la: "apex l \<noteq> 0" "apex l \<in> set (keys l)" using apex_keys(1) [OF rl] apex_keys(2) [OF l] l by auto
  have ne: "up path \<noteq> a" "up path \<noteq> m" "apex l \<noteq> up path" "apex l \<noteq> m" "apex l \<noteq> a"
    using up d la a nm(1) by (cases "path = []"; auto)+
  define h1 where "h1 = change_child a m (up path) h"
  define h2 where "h2 = rb_upd m (\<lambda>n. n\<lparr>rb_parent_color := rb_parent_color (rb_nodes h1 a)\<rparr>) h1"
  define h' where "h' = rb_set_parent (apex l) m (set_lft m (apex l) h2)"
  have lm: "leftmost h m = Some m" using nm(5) by (simp add: leftmost.simps [of h m])
  have h1a: "rb_nodes h1 a = rb_nodes h a" "rb_nodes h1 m = rb_nodes h m" using ne by (simp_all add: h1_def change_child_def)
  have h2a: "lft h2 a = apex l" using d(3) h1a n(5) by (simp add: h2_def rb_upd_def)
  have "rb_parent h1 m = a" "rb_color h1 m = color_bits mc" "rgt h1 m = apex ch"
    using nm(3,6) h1a(2) rb_color_bits [OF nm(4)] by (simp_all add: rb_parent_def rb_color_def)
  then have "erase_two a h = Some (apex ch, m, color_bits mc, h')"
    using lm n(3,6) h2a by (simp add: erase_two_def adopt_def Let_def h1_def [symmetric] h2_def [symmetric] h'_def)
  moreover have "tree_in h0 K h' (plug (Node l (m, c) ch) path)"
  proof (rule take_place [OF t, of ch m])
    have pm: "rb_parent_color (rb_nodes h2 m) = rb_parent_color (rb_nodes h a)" by (simp add: h2_def rb_upd_def h1a)
    then have "rb_parent h2 m = rb_parent h a" "rb_is_red h2 m = rb_is_red h a"
      by (simp_all add: rb_parent_def rb_is_red_def rb_color_def)
    then show "rb_parent h' m = up path" "rb_is_red h' m \<longleftrightarrow> rb_is_red h a" "lft h' m = apex l" "rgt h' m = apex ch"
      using ne nm n by (simp_all add: h'_def h2_def rb_upd_def h1a)
    have fr: "rb_nodes h' b = rb_nodes h b" if "b \<noteq> m" "b \<noteq> apex l" "b \<noteq> up path \<or> path = []" for b
      using that change_child_path(3) [OF cx a, of b m] d(1) by (simp add: h'_def h2_def h1_def P_def)
    then show "\<And>b. b \<notin> set (keys l) \<union> set (keys (Node Leaf (m, mc) ch)) \<Longrightarrow> b \<noteq> up path \<or> path = [] \<Longrightarrow> rb_nodes h' b = rb_nodes h b"
      using la by auto
    show "rep h' m ch"
      by (rule rep_same [of h m]) (use rm in simp, intro ballI same_nodes fr, use d la up in auto)
    show "rep h' m l"
    proof (rule rep_move [OF rl d(12)])
      show "\<forall>b \<in> set (keys l). b \<noteq> apex l \<longrightarrow> same h h' b" by (intro ballI impI same_nodes fr) (use d up in auto)
      have "rb_nodes h2 (apex l) = rb_nodes h (apex l)" using ne by (simp add: h2_def h1_def change_child_def)
      then have "same h h2 (apex l)" by (rule same_nodes)
      then show "lft h' (apex l) = lft h (apex l) \<and> rgt h' (apex l) = rgt h (apex l) \<and>
        (rb_is_red h' (apex l) \<longleftrightarrow> rb_is_red h (apex l)) \<and> rb_parent h' (apex l) = m"
        using ne nm(2) by (simp add: h'_def same_def)
    qed
    have "rb_nodes h' (up path) = rb_nodes h1 (up path)" "rb_root h' = rb_root h1"
      using ne by (simp_all add: h'_def h2_def)
    note pn = path_nodes [OF this]
    show "child h' path = m"
      "path \<noteq> [] \<Longrightarrow> rb_root h' = rb_root h \<and> other_child h' path = other_child h path \<and>
      (rb_is_red h' (up path) \<longleftrightarrow> rb_is_red h (up path)) \<and> rb_parent h' (up path) = rb_parent h (up path)"
      using change_child_path [OF cx a, of m] d(1) pn by (simp_all add: h1_def P_def h'_def h2_def)
  qed (use d nm in auto)
  ultimately show ?thesis by (rule that)
qed

lemma apex_plug: "mp \<noteq> [] \<Longrightarrow> apex (plug t mp) = apex (plug t' mp)"
proof (induction mp arbitrary: t t')
  case (Cons st mp)
  then show ?case by (cases st; cases "mp = []") simp_all
qed simp

text \<open>The child of the successor moves up: the two writes of \<open>detach\<close> that touch the tree below \<open>a\<close>.\<close>

definition unhook :: "ptr \<Rightarrow> ptr \<Rightarrow> rb_store \<Rightarrow> rb_store" where
  "unhook q x h = set_lft q x (if x \<noteq> 0 then rb_set_parent x q h else h)"

lemma unhook_nodes: "rb_nodes h' b = rb_nodes h b \<Longrightarrow> rb_nodes (unhook q x h') b = rb_nodes (unhook q x h) b"
  by (auto simp: unhook_def set_lft_def rb_set_parent_def rb_upd_def)

lemma unhook_frame [simp]: "b \<noteq> q \<Longrightarrow> b \<noteq> x \<or> x = 0 \<Longrightarrow> rb_nodes (unhook q x h) b = rb_nodes h b"
  by (auto simp: unhook_def)

lemma unhook_views:
  "aligned q \<Longrightarrow> lft (unhook q x h) b = (if b = q then x else lft h b)" "rgt (unhook q x h) b = rgt h b"
  "aligned q \<Longrightarrow> rb_is_red (unhook q x h) b = rb_is_red h b" "rb_root (unhook q x h) = rb_root h"
  by (simp_all add: unhook_def)

lemma detach_unhook: "detach node x parent old h =
    (let h = unhook parent x h in rb_set_parent (rgt h old) node (set_rgt node (rgt h old) h))"
  if "node \<noteq> old"
  using that by (simp add: detach_def unhook_def Let_def)

text \<open>Seen as a tree of its own, the right subtree loses its leftmost node.\<close>

lemma unhook_tree:
  assumes "rep h a (plug (Node Leaf (m, mc) ch) mp)" "distinct (keys (plug (Node Leaf (m, mc) ch) mp))" "mp \<noteq> []" "before mp = []"
  defines "t \<equiv> apex (plug ch mp)"
  shows "is_tree (unhook (up mp) (apex ch) ((rb_set_parent t 0 h)\<lparr>rb_root := t\<rparr>)) (plug ch mp)"
proof -
  define h1 where "h1 = (rb_set_parent t 0 h)\<lparr>rb_root := t\<rparr>"
  let ?r = "plug (Node Leaf (m, mc) ch) mp"
  have top: "apex ?r = t" using apex_plug [OF assms(3)] by (simp add: t_def)
  have "rep h1 0 ?r"
    by (rule rep_move [OF assms(1,2)]) (auto simp: h1_def top same_nodes)
  then have m: "tree_in h1 (set (keys ?r)) h1 ?r" using assms(2) top by (simp add: tree_in_def is_tree_def h1_def)
  then obtain h' where h': "erase_one m (apex ch) h1 = (apex ch, up mp, color_bits mc, h')" "tree_in h1 (set (keys ?r)) h' (plug ch mp)"
    by (rule erase_one_tree [where ch = ch]) simp
  obtain q c s rest where mp: "mp = LStep q c s # rest" using assms(3,4) by (cases mp rule: up.cases) auto
  have "lft h1 q = m" "q \<noteq> 0" using tree_in_apex(4) [OF m] by (simp_all add: mp)
  moreover have "rb_parent h1 m = q" using tree_in_node(3) [OF m] by (simp add: mp)
  ultimately have "h' = unhook (up mp) (apex ch) h1" using h'(1)
    by (simp add: erase_one_def change_child_def unhook_def Let_def mp split: if_splits)
  then show ?thesis using h'(2) by (simp add: h1_def tree_in_def)
qed

text \<open>The successor lies deeper in the right subtree.\<close>

lemma erase_two_far:
  assumes t: "tree_in h0 K h (plug (Node l (a, c) (plug (Node Leaf (m, mc) ch) mp)) path)" and l: "l \<noteq> Leaf"
    and mp: "mp \<noteq> []" "before mp = []" and lm: "leftmost h (rgt h a) = Some m"
  obtains h' where "erase_two a h = Some (apex ch, up mp, color_bits mc, h')" "tree_in h0 K h' (plug (Node l (m, c) (plug ch mp)) path)"
proof -
  define P where "P = set (before path) \<union> set (after path)"
  define R where "R = set (keys (plug ch mp))"
  define x where "x = apex ch"
  define tp where "tp = apex (plug ch mp)"
  let ?r = "plug (Node Leaf (m, mc) ch) mp"
  have Rk: "set (keys ?r) = insert m R" by (auto simp: R_def)
  have cx: "ctx h a path" and rl: "rep h a l" and rr: "rep h a ?r"
    and dd: "distinct (before path @ keys l @ a # (m # keys (plug ch mp)) @ after path)"
    using t mp(2) by (simp_all add: tree_in_def is_tree_plug)
  have d: "a \<notin> P" "m \<notin> P" "a \<noteq> m" "set (keys l) \<inter> P = {}" "R \<inter> P = {}" "a \<notin> set (keys l)" "m \<notin> set (keys l)"
      "m \<notin> R" "a \<notin> R" "set (keys l) \<inter> R = {}" "distinct (keys l)" and dr: "distinct (keys ?r)" "distinct (keys (plug ch mp))"
    using dd mp(2) by (auto simp: P_def R_def simp del: keys_plug) simp_all
  note n = tree_in_node [OF t] and a = tree_in_node(1) [OF t]
  have tm: "tree_in h0 K h (plug (Node Leaf (m, mc) ch) (mp @ RStep l a c # path))" using t by (simp add: plug_append)
  note nm = tree_in_node [OF tm]
  have upm: "up (mp @ RStep l a c # path) = up mp" using mp(1) by (cases mp rule: up.cases) auto
  have up: "up path \<noteq> 0 \<longleftrightarrow> path \<noteq> []" "aligned (up path)" "path \<noteq> [] \<Longrightarrow> up path \<in> P"
    using ctx_up [OF cx] up_keys [of path] by (auto simp: P_def)
  have q: "up mp \<in> R" "up mp \<noteq> 0" "aligned (up mp)"
    using up_keys [OF mp(1)] rep_keys [OF rr, of "up mp"] by (auto simp: R_def)
  have xR: "x = 0 \<or> x \<in> R" using apex_keys(2) [of ch] by (cases ch) (auto simp: x_def R_def)
  have la: "apex l \<noteq> 0" "apex l \<in> set (keys l)" using apex_keys(1) [OF rl] apex_keys(2) [OF l] l by auto
  have "plug ch mp \<noteq> Leaf" using q(1) unfolding R_def by (metis empty_iff empty_set keys_simps(1))
  then have tpR: "tp \<in> R" unfolding tp_def R_def by (rule apex_keys(2))
  have top: "apex ?r = tp" unfolding tp_def by (rule apex_plug [OF mp(1)])
  have ne: "up path \<noteq> a" "up path \<noteq> m" "apex l \<noteq> up path" "apex l \<noteq> m" "apex l \<noteq> a" "path \<noteq> [] \<Longrightarrow> up path \<notin> R"
    using up d la a nm(1) by (cases "path = []"; auto)+
  define h1 where "h1 = change_child a m (up path) h"
  define h2 where "h2 = unhook (up mp) x h1"
  define h3 where "h3 = rb_set_parent tp m (set_rgt m tp h2)"
  define h4 where "h4 = rb_upd m (\<lambda>n. n\<lparr>rb_parent_color := rb_parent_color (rb_nodes h3 a)\<rparr>) h3"
  define h' where "h' = rb_set_parent (apex l) m (set_lft m (apex l) h4)"
  have h1: "rb_nodes h1 b = rb_nodes h b" if "b \<noteq> up path \<or> path = []" for b
    using change_child_path(3) [OF cx a, of b m] that d(1) by (simp add: h1_def P_def)
  have xa: "x \<noteq> a" "x \<noteq> m" using xR d a nm(1) by auto
  have nR: "b \<noteq> up mp \<and> b \<noteq> tp \<and> (b \<noteq> x \<or> x = 0)" if "b \<notin> R" for b using that q(1) tpR xR by auto
  have h3a: "rb_nodes h3 a = rb_nodes h a" "rb_nodes h2 a = rb_nodes h a"
    using h1 [of a] ne(1) nR [OF d(9)] d(3) by (simp_all add: h3_def h2_def)
  have h1m: "rb_nodes h1 m = rb_nodes h m" using h1 ne by auto
  then have "rb_parent h1 m = up mp" "rb_color h1 m = color_bits mc" "rgt h1 m = x"
    using nm(3,6) upm rb_color_bits [OF nm(4)] by (simp_all add: rb_parent_def rb_color_def x_def)
  moreover have "up mp \<noteq> a" using q d by auto
  moreover have "rgt h2 a = tp" "lft h4 a = apex l" "lft h3 a = apex l" using h3a n(5,6) top d(3) by (simp_all add: h4_def)
  ultimately have e: "erase_two a h = Some (x, up mp, color_bits mc, h')"
    using lm n(3) d(3) by (simp add: erase_two_def adopt_def detach_unhook Let_def h1_def [symmetric] h2_def [symmetric] h3_def [symmetric] h4_def [symmetric] h'_def)
  have fr: "rb_nodes h' b = rb_nodes h2 b" if "b \<noteq> m" "b \<noteq> apex l" "b \<noteq> tp" for b
    using that by (simp add: h'_def h4_def h3_def)
  have fr2: "rb_nodes h2 b = rb_nodes h b" if "b \<notin> R" "b \<noteq> up path \<or> path = []" for b
    using h1 [OF that(2)] nR [OF that(1)] by (simp add: h2_def)
  have fr3: "rb_nodes h' b = rb_nodes h b" if "b \<noteq> m" "b \<noteq> apex l" "b \<notin> R" "b \<noteq> up path \<or> path = []" for b
    using fr [OF that(1,2)] fr2 [OF that(3,4)] nR [OF that(3)] by simp
  have "tree_in h0 K h' (plug (Node l (m, c) (plug ch mp)) path)"
  proof (rule take_place [OF t, of "plug ch mp" m])
    have "rb_parent_color (rb_nodes h4 m) = rb_parent_color (rb_nodes h a)" by (simp add: h4_def rb_upd_def h3a)
    then have "rb_parent h4 m = rb_parent h a" "rb_is_red h4 m = rb_is_red h a"
      by (simp_all add: rb_parent_def rb_is_red_def rb_color_def)
    then show "rb_parent h' m = up path" "rb_is_red h' m \<longleftrightarrow> rb_is_red h a" "lft h' m = apex l" "rgt h' m = apex (plug ch mp)"
      using ne nm n d tpR by (auto simp: h'_def h4_def h3_def rb_upd_def tp_def)
    show "\<And>b. b \<notin> set (keys l) \<union> set (keys ?r) \<Longrightarrow> b \<noteq> up path \<or> path = [] \<Longrightarrow> rb_nodes h' b = rb_nodes h b"
      by (rule fr3) (use la Rk in auto)
    show "rep h' m l"
    proof (rule rep_move [OF rl d(11)])
      have "rb_nodes h' b = rb_nodes h b" if "b \<in> set (keys l)" "b \<noteq> apex l" for b
        by (rule fr3) (use that d up in auto)
      then show "\<forall>b \<in> set (keys l). b \<noteq> apex l \<longrightarrow> same h h' b" by (auto intro: same_nodes)
      have "apex l \<notin> R" using la d by auto
      then have "rb_nodes h4 (apex l) = rb_nodes h2 (apex l)" using ne(4) nR by (simp add: h4_def h3_def)
      moreover have "rb_nodes h2 (apex l) = rb_nodes h (apex l)" using la d ne by (intro fr2) auto
      ultimately have "same h h4 (apex l)" by (intro same_nodes) simp
      then show "lft h' (apex l) = lft h (apex l) \<and> rgt h' (apex l) = rgt h (apex l) \<and>
        (rb_is_red h' (apex l) \<longleftrightarrow> rb_is_red h (apex l)) \<and> rb_parent h' (apex l) = m"
        using ne nm(2) by (simp add: h'_def same_def)
    qed
    define g where "g = (rb_set_parent tp 0 h)\<lparr>rb_root := tp\<rparr>"
    have "is_tree (unhook (up mp) x g) (plug ch mp)" using unhook_tree [OF rr dr(1) mp] by (simp add: g_def tp_def x_def)
    then have rg: "rep (unhook (up mp) x g) 0 (plug ch mp)" by (simp add: is_tree_def)
    show "rep h' m (plug ch mp)"
    proof (rule rep_move [OF rg dr(2)])
      have "same (unhook (up mp) x g) h' b" if "b \<in> R" "b \<noteq> tp" for b
      proof (rule same_nodes)
        have "rb_nodes h1 b = rb_nodes g b" using that h1 [of b] ne(6) by (auto simp: g_def)
        then show "rb_nodes h' b = rb_nodes (unhook (up mp) x g) b"
          using that d la unhook_nodes [of h1 b g "up mp" x] by (subst fr) (auto simp: h2_def)
      qed
      then show "\<forall>b \<in> set (keys (plug ch mp)). b \<noteq> apex (plug ch mp) \<longrightarrow> same (unhook (up mp) x g) h' b"
        by (simp add: R_def tp_def)
      have tp: "tp \<noteq> m" "tp \<noteq> apex l" "rb_nodes h1 tp = rb_nodes h tp" using tpR d la ne(6) h1 [of tp] by auto
      then have "same h h1 tp" "same h3 h4 tp" by (auto intro!: same_nodes simp: h4_def)
      then show "lft h' (apex (plug ch mp)) = lft (unhook (up mp) x g) (apex (plug ch mp)) \<and>
        rgt h' (apex (plug ch mp)) = rgt (unhook (up mp) x g) (apex (plug ch mp)) \<and>
        (rb_is_red h' (apex (plug ch mp)) \<longleftrightarrow> rb_is_red (unhook (up mp) x g) (apex (plug ch mp))) \<and>
        rb_parent h' (apex (plug ch mp)) = m"
        using nm(2) q(3) tp unfolding tp_def [symmetric]
        by (simp add: same_def h'_def h3_def h2_def unhook_views g_def)
    qed
    have "rb_nodes h' (up path) = rb_nodes h1 (up path)" if "path \<noteq> []"
      using nR [OF ne(6) [OF that]] ne fr [of "up path"] by (simp add: h2_def)
    moreover have "rb_root h' = rb_root h1" by (simp add: h'_def h4_def h3_def h2_def unhook_views)
    ultimately have "path \<noteq> [] \<Longrightarrow> child h' path = child h1 path \<and> other_child h' path = other_child h1 path \<and>
       rb_is_red h' (up path) = rb_is_red h1 (up path) \<and> rb_parent h' (up path) = rb_parent h1 (up path)" "rb_root h' = rb_root h1"
      using path_nodes [of h' path h1] by auto
    then show "child h' path = m"
      "path \<noteq> [] \<Longrightarrow> rb_root h' = rb_root h \<and> other_child h' path = other_child h path \<and>
      (rb_is_red h' (up path) \<longleftrightarrow> rb_is_red h (up path)) \<and> rb_parent h' (up path) = rb_parent h (up path)"
      using change_child_path(1,2) [OF cx a, of m] d(1) by (cases "path = []"; simp add: h1_def P_def)+
  qed (use d nm dr Rk in \<open>auto simp: R_def\<close>)
  with e show ?thesis unfolding x_def by (rule that)
qed

lemma color_bits_black [simp]: "color_bits c = 1 \<longleftrightarrow> c = Black"
  by (cases c) (simp_all add: color_bits_def)

text \<open>All branches before the loop: the subtree that moves up stands where the loop expects it.\<close>

lemma erase_step_tree:
  assumes t: "tree_in h0 K h (plug (Node l (a, c) r) path)" and e: "erase_pos (Node l (a, c) r) path = (gone, x, path')"
  obtains h' where "(if lft h a = 0 then Some (erase_one a (rgt h a) h)
      else if rgt h a = 0 then Some (erase_one a (lft h a) h) else erase_two a h) = Some (apex x, up path', color_bits gone, h')"
    "tree_in h0 K h' (plug x path')"
proof -
  note n = tree_in_node(5,6) [OF t] and k = tree_in_kids(5,6) [OF t]
  consider "l = Leaf" | "l \<noteq> Leaf" "r = Leaf" | "l \<noteq> Leaf" "r \<noteq> Leaf" by blast
  then show ?thesis
  proof cases
    case 1
    obtain h' where "erase_one a (apex r) h = (apex r, up path, color_bits c, h')" "tree_in h0 K h' (plug r path)"
      using t by (rule erase_one_tree [where ch = r]) (use 1 in simp)
    then show ?thesis using 1 e n by (intro that [of h']) (simp_all add: erase_pos_def)
  next
    case 2
    obtain h' where "erase_one a (apex l) h = (apex l, up path, color_bits c, h')" "tree_in h0 K h' (plug l path)"
      using t by (rule erase_one_tree [where ch = l]) (use 2 in simp)
    then show ?thesis using 2 e n k by (intro that [of h']) (simp_all add: erase_pos_def)
  next
    case 3
    obtain m mc mp where mz: "min_zip r [] = ((m, mc), x, mp)" "gone = mc" "path' = mp @ RStep l m c # path"
      using e 3 by (auto simp: erase_pos_def split: prod.splits)
    have r: "plug (Node Leaf (m, mc) x) mp = r" "before mp = []" using min_zip_plug [OF 3(2) mz(1)] by auto
    have "rep h a r" using t by (simp add: tree_in_def is_tree_plug)
    then have lm: "leftmost h (rgt h a) = Some m" using leftmost_min [OF _ 3(2) mz(1)] n(2) by simp
    have two: "lft h a \<noteq> 0" "rgt h a \<noteq> 0" using n k 3 by simp_all
    show ?thesis
    proof (cases "mp = []")
      case True
      obtain h' where "erase_two a h = Some (apex x, m, color_bits mc, h')" "tree_in h0 K h' (plug (Node l (m, c) x) path)"
        by (rule erase_two_near [of h0 K h l a c m mc x path]) (use t r True 3 in auto)
      then show ?thesis using two by (intro that [of h']) (simp_all add: mz True)
    next
      case False
      obtain h' where h': "erase_two a h = Some (apex x, up mp, color_bits mc, h')" "tree_in h0 K h' (plug (Node l (m, c) (plug x mp)) path)"
        by (rule erase_two_far [of h0 K h l a c m mc x mp path]) (use t r False 3 lm in auto)
      moreover have "up path' = up mp" using False by (cases mp rule: up.cases) (auto simp: mz)
      ultimately show ?thesis using two by (intro that [of h']) (simp_all add: mz plug_append)
    qed
  qed
qed

lemma rb_erase_tree:
  assumes "is_tree h t" "rbt t" "a \<in> set (keys t)"
  shows "\<exists>h'. rb_erase a h = Some h' \<and> tree_in h (set (keys t)) h' (tree_erase a t)"
proof -
  obtain l c r path where lc: "locate a t [] = Some (Node l (a, c) r, path)" "plug (Node l (a, c) r) path = t"
    using assms(3) by (rule locateE)
  have t: "tree_in h (set (keys t)) h (plug (Node l (a, c) r) path)" using assms(1) by (simp only: lc(2)) (simp add: tree_in_def)
  obtain gone x path' where e: "erase_pos (Node l (a, c) r) path = (gone, x, path')" by (rule prod_cases3)
  obtain h1 where h1: "(if lft h a = 0 then Some (erase_one a (rgt h a) h)
      else if rgt h a = 0 then Some (erase_one a (lft h a) h) else erase_two a h) = Some (apex x, up path', color_bits gone, h1)"
    "tree_in h (set (keys t)) h1 (plug x path')" using t e by (rule erase_step_tree)
  have er: "rb_erase a h = (if gone = Black then rb_erase_color (apex x) (up path') h1 else Some h1)"
    unfolding rb_erase_def h1(1) using tree_in_node(1) [OF t] by simp
  show ?thesis
  proof (cases "gone = Black")
    case True
    then have "okp (Suc (bheight x)) path'" using erase_pos_ok [OF assms(2) [folded lc(2)] e] by simp
    then show ?thesis using rb_erase_color_tree [OF h1(2)] er True by (simp add: tree_erase_pos [OF lc(1)] e)
  next
    case False
    then show ?thesis using h1(2) er by (simp add: tree_erase_pos [OF lc(1)] e)
  qed
qed

section \<open>Walking\<close>

fun first :: "ptr list \<Rightarrow> ptr" where
  "first [] = 0"
| "first (a # as) = a"

lemma leftmost_first: "rep h par t \<Longrightarrow> t \<noteq> Leaf \<Longrightarrow> leftmost h (apex t) = Some (first (keys t))"
proof (induction h par t rule: rep.induct)
  case (2 h par l a c r)
  have "lft h a = apex l" "apex l = 0 \<longleftrightarrow> l = Leaf" using 2 apex_keys(1) [of h a l] by auto
  moreover have "l \<noteq> Leaf \<Longrightarrow> first (keys l @ a # keys r) = first (keys l)"
    using apex_keys(2) [of l] by (cases "keys l") auto
  ultimately show ?case using 2 by (cases "l = Leaf") (simp_all add: leftmost.simps [of h a])
qed simp

lemma first_append: "first (xs @ ys) = (if xs = [] then first ys else first xs)"
  by (cases xs) auto

lemma keys_empty [simp]: "keys t = [] \<longleftrightarrow> t = Leaf"
  by (cases t) auto

lemma rightmost_last: "rep h par t \<Longrightarrow> t \<noteq> Leaf \<Longrightarrow> rightmost h (apex t) = Some (first (rev (keys t)))"
proof (induction h par t rule: rep.induct)
  case (2 h par l a c r)
  have "rgt h a = apex r" "apex r = 0 \<longleftrightarrow> r = Leaf" using 2 apex_keys(1) [of h a r] by auto
  then show ?case using 2 by (cases "r = Leaf") (simp_all add: rightmost.simps [of h a] first_append)
qed simp

lemma climb_right_after: "tree_in h0 K h (plug t path) \<Longrightarrow> t \<noteq> Leaf \<Longrightarrow> climb_right h (apex t) = Some (first (after path))"
proof (induction path arbitrary: t)
  case Nil
  then show ?case using tree_in_apex(3) [OF Nil(1)] by (subst climb_right.simps) simp
next
  case (Cons st path)
  note p = tree_in_apex(3) [OF Cons.prems] and x = tree_in_apex(1) [OF Cons.prems(1)]
  show ?case
  proof (cases st)
    case (LStep a c r)
    have t: "tree_in h0 K h (plug (Node t (a, c) r) path)" using Cons.prems(1) by (simp add: LStep)
    then show ?thesis using p x Cons.prems(2) tree_in_node(1,6) [OF t] tree_in_kids(1) [OF t]
      by (subst climb_right.simps) (simp add: LStep Let_def)
  next
    case (RStep l a c)
    have t: "tree_in h0 K h (plug (Node l (a, c) t) path)" using Cons.prems(1) by (simp add: RStep)
    then show ?thesis using p x Cons.IH [OF t] tree_in_node(1,6) [OF t]
      by (subst climb_right.simps) (simp add: RStep Let_def)
  qed
qed

lemma climb_left_before: "tree_in h0 K h (plug t path) \<Longrightarrow> t \<noteq> Leaf \<Longrightarrow> climb_left h (apex t) = Some (first (rev (before path)))"
proof (induction path arbitrary: t)
  case Nil
  then show ?case using tree_in_apex(3) [OF Nil(1)] by (subst climb_left.simps) simp
next
  case (Cons st path)
  note p = tree_in_apex(3) [OF Cons.prems] and x = tree_in_apex(1) [OF Cons.prems(1)]
  show ?case
  proof (cases st)
    case (LStep a c r)
    have t: "tree_in h0 K h (plug (Node t (a, c) r) path)" using Cons.prems(1) by (simp add: LStep)
    then show ?thesis using p x Cons.IH [OF t] tree_in_node(1,5) [OF t]
      by (subst climb_left.simps) (simp add: LStep Let_def)
  next
    case (RStep l a c)
    have t: "tree_in h0 K h (plug (Node l (a, c) t) path)" using Cons.prems(1) by (simp add: RStep)
    then show ?thesis using p x Cons.prems(2) tree_in_node(1,5) [OF t] tree_in_kids(2) [OF t]
      by (subst climb_left.simps) (simp add: RStep Let_def)
  qed
qed

lemma rb_next_prev:
  assumes "is_tree h t" "keys t = xs @ a # ys"
  shows "rb_next h a = Some (first ys)" "rb_prev h a = Some (first (rev xs))"
proof -
  obtain l c r path where lc: "plug (Node l (a, c) r) path = t"
    using assms(2) by (metis in_set_conv_decomp locateE)
  have t: "tree_in h (set (keys t)) h (plug (Node l (a, c) r) path)"
    unfolding lc using assms(1) by (simp add: tree_in_def)
  have d: "distinct (keys t)" using assms(1) by (simp add: is_tree_def)
  have "xs @ a # ys = (before path @ keys l) @ a # (keys r @ after path)" using assms(2) by (simp add: lc [symmetric])
  moreover have "a \<notin> set xs" "a \<notin> set ys" using d by (simp_all add: assms(2))
  ultimately have xs: "xs = before path @ keys l" "ys = keys r @ after path"
    using append_Cons_eq_iff [of a xs ys "before path @ keys l" "keys r @ after path"] by simp_all
  have lr: "rep h a l" "rep h a r" using t by (auto simp: tree_in_def is_tree_plug)
  have up: "up path \<noteq> a"
  proof (cases "path = []")
    case False
    then show ?thesis using up_keys [of path] d by (auto simp: lc [symmetric])
  qed (use tree_in_node(1) [OF t] in simp)
  show "rb_next h a = Some (first ys)"
    using up tree_in_node(1,3,6) [OF t] tree_in_kids(6) [OF t] leftmost_first [OF lr(2)] climb_right_after [OF t]
    by (simp add: rb_next_def xs first_append)
  show "rb_prev h a = Some (first (rev xs))"
    using up tree_in_node(1,3,5) [OF t] tree_in_kids(5) [OF t] rightmost_last [OF lr(1)] climb_left_before [OF t]
    by (simp add: rb_prev_def xs first_append)
qed

lemma rb_first_last:
  assumes "is_tree h t"
  shows "rb_first h = Some (first (keys t))" "rb_last h = Some (first (rev (keys t)))"
  using assms apex_keys(1) [of h 0 t] leftmost_first [of h 0 t] rightmost_last [of h 0 t]
  by (cases "t = Leaf"; simp add: rb_first_def rb_last_def is_tree_def)+

section \<open>What a user of the trees relies on\<close>

text \<open>The store holds a balanced tree with these nodes in this order.\<close>

definition rb_holds :: "rb_store \<Rightarrow> ptr list \<Rightarrow> bool" where
  "rb_holds h ks \<longleftrightarrow> (\<exists>t. is_tree h t \<and> rbt t \<and> keys t = ks)"

text \<open>A free place for a new node, and the order of the nodes after linking it there.\<close>

fun rb_slot :: "rb_store \<Rightarrow> ptr list \<Rightarrow> ptr \<Rightarrow> rb_link \<Rightarrow> bool" where
  "rb_slot h ks parent Root_link \<longleftrightarrow> ks = [] \<and> parent = NULL"
| "rb_slot h ks parent Left_link \<longleftrightarrow> parent \<in> set ks \<and> lft h parent = NULL"
| "rb_slot h ks parent Right_link \<longleftrightarrow> parent \<in> set ks \<and> rgt h parent = NULL"

fun rb_put :: "ptr \<Rightarrow> ptr \<Rightarrow> rb_link \<Rightarrow> ptr list \<Rightarrow> ptr list" where
  "rb_put a parent link [] = [a]"
| "rb_put a parent link (k # ks) =
     (if k = parent then (if link = Left_link then a # k # ks else k # a # ks) else k # rb_put a parent link ks)"

lemma rb_put_split: "parent \<notin> set xs \<Longrightarrow> rb_put a parent link (xs @ parent # ys) =
    xs @ (if link = Left_link then a # parent # ys else parent # a # ys)"
  by (induction xs) auto

lemma rb_slot_path:
  assumes "is_tree h t" "rb_slot h (keys t) parent link"
  obtains path where "t = plug Leaf path" "up path = parent" "link_at path = link"
    "rb_put a parent link (keys t) = before path @ a # after path"
proof (cases link)
  case Root_link
  then show ?thesis using assms by (intro that [of "[]"]) auto
next
  case Left_link
  then obtain l c r path where p: "plug (Node l (parent, c) r) path = t" using assms(2) by (auto elim: locateE)
  then have t: "tree_in h (set (keys t)) h (plug (Node l (parent, c) r) path)" using assms(1) by (simp add: tree_in_def)
  then have "l = Leaf" using Left_link assms(2) tree_in_node(5) [OF t] tree_in_kids(5) [OF t] by simp
  moreover have "distinct (keys t)" using assms(1) by (simp add: is_tree_def)
  ultimately show ?thesis using p Left_link rb_put_split [of parent "before path" a link "keys r @ after path"]
    by (intro that [of "LStep parent c r # path"]) (auto simp flip: p)
next
  case Right_link
  then obtain l c r path where p: "plug (Node l (parent, c) r) path = t" using assms(2) by (auto elim: locateE)
  then have t: "tree_in h (set (keys t)) h (plug (Node l (parent, c) r) path)" using assms(1) by (simp add: tree_in_def)
  then have "r = Leaf" using Right_link assms(2) tree_in_node(6) [OF t] tree_in_kids(6) [OF t] by simp
  moreover have "distinct (keys t)" using assms(1) by (simp add: is_tree_def)
  ultimately show ?thesis using p Right_link rb_put_split [of parent "before path @ keys l" a link "after path"]
    by (intro that [of "RStep l parent c # path"]) (auto simp flip: p)
qed

lemma rb_add_holds:
  assumes "rb_holds h ks" "a \<noteq> 0" "aligned a" "a \<notin> set ks" "rb_slot h ks parent link"
  shows "\<exists>h'. rb_insert_color a (rb_link_node a parent link h) = Some h' \<and> rb_holds h' (rb_put a parent link ks) \<and>
    (\<forall>b. b \<notin> insert a (set ks) \<longrightarrow> rb_nodes h' b = rb_nodes h b)"
proof -
  obtain t where t: "is_tree h t" "rbt t" "keys t = ks" using assms(1) by (auto simp: rb_holds_def)
  obtain path where p: "t = plug Leaf path" "up path = parent" "link_at path = link" "rb_put a parent link ks = before path @ a # after path"
    using rb_slot_path [OF t(1)] t(3) assms(5) by metis
  have ks: "set ks = set (before path) \<union> set (after path)" using t(3) p(1) by auto
  obtain h' where h': "rb_insert_color a (rb_link_node a parent link h) = Some h'"
    "tree_in h (insert a (set ks)) h' (tree_insert_color a (plug (Node Leaf (a, Red) Leaf) path))"
    using rb_insert_color_tree [of h path a] t p assms(2-4) ks by auto
  have "locate a (plug (Node Leaf (a, Red) Leaf) path) [] = Some (Node Leaf (a, Red) Leaf, path)"
    using assms(4) ks locate_plug [of a path "Node Leaf (a, Red) Leaf" "[]"] by simp
  then have "rbt (tree_insert_color a (plug (Node Leaf (a, Red) Leaf) path))"
    using t(2) p(1) by (intro tree_insert_color_rbt) simp_all
  then show ?thesis using h' p(4) by (auto simp: rb_holds_def tree_in_def)
qed

lemma rb_erase_holds:
  assumes "rb_holds h ks" "a \<in> set ks"
  shows "\<exists>h'. rb_erase a h = Some h' \<and> rb_holds h' (removeAll a ks) \<and> (\<forall>b. b \<notin> set ks \<longrightarrow> rb_nodes h' b = rb_nodes h b)"
proof -
  obtain t where t: "is_tree h t" "rbt t" "keys t = ks" using assms(1) by (auto simp: rb_holds_def)
  obtain h' where "rb_erase a h = Some h'" "tree_in h (set ks) h' (tree_erase a t)"
    using rb_erase_tree [OF t(1,2)] assms(2) t(3) by auto
  moreover have "keys (tree_erase a t) = removeAll a ks" using keys_tree_erase [of t a] t(1,3) by (simp add: is_tree_def)
  ultimately show ?thesis using tree_erase_rbt [OF t(2), of a] by (auto simp: rb_holds_def tree_in_def)
qed

lemma rb_holds_walk:
  assumes "rb_holds h ks"
  shows "distinct ks" "0 \<notin> set ks" "rb_first h = Some (first ks)" "rb_last h = Some (first (rev ks))"
    "ks = xs @ a # ys \<Longrightarrow> rb_next h a = Some (first ys)" "ks = xs @ a # ys \<Longrightarrow> rb_prev h a = Some (first (rev xs))"
proof -
  obtain t where t: "is_tree h t" "keys t = ks" using assms by (auto simp: rb_holds_def)
  show "distinct ks" "0 \<notin> set ks" using t rep_keys [of h 0 t 0] by (auto simp: is_tree_def)
  show "rb_first h = Some (first ks)" "rb_last h = Some (first (rev ks))" using rb_first_last [OF t(1)] t(2) by simp_all
  show "ks = xs @ a # ys \<Longrightarrow> rb_next h a = Some (first ys)" "ks = xs @ a # ys \<Longrightarrow> rb_prev h a = Some (first (rev xs))"
    using rb_next_prev [OF t(1)] t(2) by simp_all
qed

text \<open>
  The interface: nodes kept in an order, with a first one and the next one after each. The
  idioms of its users are the loop over all nodes, and the loop that removes the first node
  until none is left, which is how the drivers tear a tree down.
\<close>

fun visit :: "('h \<Rightarrow> ptr \<Rightarrow> ptr option) \<Rightarrow> nat \<Rightarrow> 'h \<Rightarrow> ptr \<Rightarrow> ptr list option" where
  "visit next_of 0 h n = (if n = NULL then Some [] else None)"
| "visit next_of (Suc k) h n =
     (if n = NULL then Some []
      else do { m \<leftarrow> next_of h n; ns \<leftarrow> visit next_of k h m; Some (n # ns) })"

fun drain :: "('h \<Rightarrow> ptr option) \<Rightarrow> (ptr \<Rightarrow> 'h \<Rightarrow> 'h option) \<Rightarrow> nat \<Rightarrow> 'h \<Rightarrow> (ptr list \<times> 'h) option" where
  "drain first_of erase 0 h = do { n \<leftarrow> first_of h; if n = NULL then Some ([], h) else None }"
| "drain first_of erase (Suc k) h =
     do { n \<leftarrow> first_of h;
          if n = NULL then Some ([], h)
          else do { h \<leftarrow> erase n h; (ns, h) \<leftarrow> drain first_of erase k h; Some (n # ns, h) } }"

locale ordered_nodes =
  fixes holds :: "'h \<Rightarrow> ptr list \<Rightarrow> bool"
    and erase :: "ptr \<Rightarrow> 'h \<Rightarrow> 'h option"
    and first_of :: "'h \<Rightarrow> ptr option"
    and next_of :: "'h \<Rightarrow> ptr \<Rightarrow> ptr option"
  assumes nodes_ok: "holds h ks \<Longrightarrow> distinct ks \<and> NULL \<notin> set ks"
    and erase_ok: "holds h ks \<Longrightarrow> a \<in> set ks \<Longrightarrow> \<exists>h'. erase a h = Some h' \<and> holds h' (removeAll a ks)"
    and first_ok: "holds h ks \<Longrightarrow> first_of h = Some (first ks)"
    and next_ok: "holds h (xs @ a # ys) \<Longrightarrow> next_of h a = Some (first ys)"
begin

lemma visit_from: "holds h (xs @ ys) \<Longrightarrow> length ys \<le> k \<Longrightarrow> visit next_of k h (first ys) = Some ys"
proof (induction ys arbitrary: xs k)
  case Nil
  then show ?case by (cases k) auto
next
  case (Cons y ys)
  obtain k' where k: "k = Suc k'" "length ys \<le> k'" using Cons.prems(2) by (cases k) auto
  have "y \<noteq> NULL" using nodes_ok [OF Cons.prems(1)] by auto
  then show ?case using Cons.IH [of "xs @ [y]" k'] Cons.prems(1) k next_ok [OF Cons.prems(1)] by simp
qed

lemma visit_all: "holds h ks \<Longrightarrow> length ks \<le> k \<Longrightarrow> do { n \<leftarrow> first_of h; visit next_of k h n } = Some ks"
  using visit_from [of h "[]" ks k] by (simp add: first_ok)

lemma drain_all: "holds h ks \<Longrightarrow> length ks \<le> k \<Longrightarrow> \<exists>h'. drain first_of erase k h = Some (ks, h') \<and> holds h' []"
proof (induction ks arbitrary: h k)
  case Nil
  then show ?case using first_ok [OF Nil(1)] by (cases k) auto
next
  case (Cons a ks)
  obtain k' where k: "k = Suc k'" "length ks \<le> k'" using Cons.prems(2) by (cases k) auto
  have a: "a \<noteq> NULL" "a \<notin> set ks" using nodes_ok [OF Cons.prems(1)] by auto
  obtain h1 where h1: "erase a h = Some h1" "holds h1 ks" using erase_ok [OF Cons.prems(1), of a] a(2) by auto
  then show ?case using Cons.IH [OF h1(2) k(2)] first_ok [OF Cons.prems(1)] a(1) k(1) by auto
qed

end

interpretation rb: ordered_nodes rb_holds rb_erase rb_first rb_next
proof
  fix h ks a
  show "rb_holds h ks \<Longrightarrow> a \<in> set ks \<Longrightarrow> \<exists>h'. rb_erase a h = Some h' \<and> rb_holds h' (removeAll a ks)"
    using rb_erase_holds [of h ks a] by blast
qed (auto simp: rb_holds_walk)

text \<open>Following child pointers: the number of steps before a search ends.\<close>

fun descend :: "rb_store \<Rightarrow> ptr \<Rightarrow> bool list \<Rightarrow> ptr" where
  "descend h p [] = p"
| "descend h p (d # ds) = (if p = NULL then NULL else descend h (if d then lft h p else rgt h p) ds)"

lemma descend_null [simp]: "descend h 0 ds = 0"
  by (cases ds) auto



section \<open>The library is correct\<close>

definition example_node :: "ptr \<Rightarrow> rb_node" where
  "example_node = (\<lambda>_. \<lparr>rb_parent_color = 0, rb_right = 0, rb_left = 0\<rparr>)
     (8 := \<lparr>rb_parent_color = 1, rb_right = 16, rb_left = 0\<rparr>,
      16 := \<lparr>rb_parent_color = 8, rb_right = 0, rb_left = 0\<rparr>)"

text \<open>Two nodes: a black root at 8 and its red right child at 16.\<close>

definition example_store :: rb_store where
  "example_store = \<lparr>rb_nodes = example_node, rb_root = 8\<rparr>"

lemma example_holds: "rb_holds example_store [8, 16]"
  unfolding rb_holds_def
  by (rule exI [of _ "Node Leaf (8, Black) (Node Leaf (16, Red) Leaf)"])
    (simp add: is_tree_def rbt_def example_store_def example_node_def aligned_def rb_parent_def rb_is_red_def rb_color_def)

text \<open>
  C4: Inserting a node works on every tree. Take a store that holds a balanced tree and a
  node, aligned and not yet in it, for which a free child pointer was found:
  \<open>rb_link_node\<close> followed by \<open>rb_insert_color\<close> ends without following a null pointer, leaves
  a balanced tree in which the node stands right before or right after its parent, in the
  order of the others, and writes no node outside the tree.
\<close>

theorem rb_insert_correct:
  assumes "rb_holds h ks" "a \<noteq> NULL" "aligned a" "a \<notin> set ks" "rb_slot h ks parent link"
  shows "\<exists>h'. rb_insert_color a (rb_link_node a parent link h) = Some h' \<and> rb_holds h' (rb_put a parent link ks) \<and>
    (\<forall>b. b \<notin> insert a (set ks) \<longrightarrow> rb_nodes h' b = rb_nodes h b)"
  by (rule rb_add_holds [OF assms])

theorem rb_insert_correct_witness:
  "rb_slot example_store [8, 16] 16 Right_link \<and>
   (\<exists>h'. rb_insert_color 24 (rb_link_node 24 16 Right_link example_store) = Some h' \<and> rb_holds h' [8, 16, 24])"
proof
  show s: "rb_slot example_store [8, 16] 16 Right_link" by (simp add: example_store_def example_node_def)
  show "\<exists>h'. rb_insert_color 24 (rb_link_node 24 16 Right_link example_store) = Some h' \<and> rb_holds h' [8, 16, 24]"
    using rb_insert_correct [OF example_holds, of 24, OF _ _ _ s] by (auto simp: aligned_def)
qed

text \<open>
  C3: Removing a node works on every tree. For a node of a balanced tree, \<open>rb_erase\<close> ends
  without following a null pointer, leaves a balanced tree of the other nodes in the same
  order, and writes no node outside the tree.
\<close>

theorem rb_erase_correct:
  assumes "rb_holds h ks" "a \<in> set ks"
  shows "\<exists>h'. rb_erase a h = Some h' \<and> rb_holds h' (removeAll a ks) \<and>
    (\<forall>b. b \<notin> set ks \<longrightarrow> rb_nodes h' b = rb_nodes h b)"
  by (rule rb_erase_holds [OF assms])

theorem rb_erase_correct_witness: "\<exists>h'. rb_erase 8 example_store = Some h' \<and> rb_holds h' [16]"
  using rb_erase_correct [OF example_holds, of 8] by auto

text \<open>
  C39: Walking visits the nodes in order. \<open>rb_first\<close> and \<open>rb_last\<close> give the two ends, and
  \<open>rb_next\<close> and \<open>rb_prev\<close> the neighbours of a node, with a null pointer at the ends; the loop
  over all nodes with \<open>rb_first\<close> and \<open>rb_next\<close> ends and sees each node once.
\<close>

theorem rb_walk_correct:
  assumes "rb_holds h ks"
  shows "rb_first h = Some (first ks) \<and> rb_last h = Some (first (rev ks)) \<and>
    (\<forall>xs a ys. ks = xs @ a # ys \<longrightarrow> rb_next h a = Some (first ys) \<and> rb_prev h a = Some (first (rev xs))) \<and>
    do { n \<leftarrow> rb_first h; visit rb_next (length ks) h n } = Some ks"
  using rb_holds_walk [OF assms] rb.visit_all [OF assms] by simp

theorem rb_walk_correct_witness:
  "rb_first example_store = Some 8 \<and> rb_last example_store = Some 16 \<and>
   do { n \<leftarrow> rb_first example_store; visit rb_next (length [8 :: ptr, 16]) example_store n } = Some [8, 16]"
  using rb_walk_correct [OF example_holds] by (auto simp del: visit.simps)

text \<open>
  C38: A tree can be torn down. The loop that takes \<open>rb_first\<close> and removes it with \<open>rb_erase\<close>
  until the tree is empty ends after as many rounds as there are nodes, removes them in
  order, and never follows a null pointer.
\<close>

theorem rb_drain_ends:
  assumes "rb_holds h ks"
  shows "\<exists>h'. drain rb_first rb_erase (length ks) h = Some (ks, h') \<and> rb_root h' = NULL"
proof -
  obtain h' where "drain rb_first rb_erase (length ks) h = Some (ks, h')" "rb_holds h' []"
    using rb.drain_all [OF assms] by blast
  then show ?thesis by (auto simp: rb_holds_def is_tree_def)
qed

theorem rb_drain_ends_witness: "\<exists>h'. drain rb_first rb_erase (length [8 :: ptr, 16]) example_store = Some ([8, 16], h') \<and> rb_root h' = NULL"
  using rb_drain_ends [OF example_holds] by (simp del: drain.simps)



end
