(* ===== verification/Binder_Alloc.thy ===== *)
theory Binder_Alloc
  imports Rb_Trees
begin

text \<open>
  The buffer allocator of the Binder driver: lines 519 to 925 of
  \<^verbatim>\<open>drivers/staging/android/binder.c\<close>. A process maps one region; buffers lie behind each other
  in it, each one a header of 40 bytes followed by its data, linked in address order. Free
  buffers are also in a red-black tree by size, allocated ones in one by address. Pages are
  allocated and freed as headers and data come and go. Addresses and sizes inside the region
  are natural numbers; the sizes a sender asks for are 32-bit words because their sum can
  wrap. \<^term>\<open>None\<close> is a \<^verbatim>\<open>BUG_ON\<close> or the free of a page that is not there.
\<close>

section \<open>Data\<close>

abbreviation (input) HDR :: nat where "HDR \<equiv> 40"  \<comment> \<open>\<open>sizeof(struct binder_buffer)\<close>\<close>

record binder_buffer =
  buf_free :: bool
  allow_user_free :: bool
  async_transaction :: bool
  buf_debug_id :: int
  buf_transaction :: "nat option"
  target_node :: "nat option"
  data_size :: u32
  offsets_size :: u32

text \<open>
  The fields of \<open>struct binder_proc\<close> the allocator uses. \<open>headers\<close> is the memory of the
  region, read as headers: a header that was never written has arbitrary contents.
\<close>

record binder_space =
  proc_buffer :: nat
  buffer_size :: nat
  proc_vma :: bool
  buffers :: "nat list"
  headers :: "nat \<Rightarrow> binder_buffer"
  free_buffers :: "nat rbt"
  allocated_buffers :: "nat rbt"
  free_async_space :: u32
  pages :: "nat \<Rightarrow> bool"
  user_buffer_offset :: u32

definition set_header :: "nat \<Rightarrow> (binder_buffer \<Rightarrow> binder_buffer) \<Rightarrow> binder_space \<Rightarrow> binder_space" where
  "set_header b f st = st\<lparr>headers := (headers st)(b := f (headers st b))\<rparr>"

text \<open>The list of buffers: the neighbours of one and whether it is first.\<close>

fun list_next :: "nat \<Rightarrow> nat list \<Rightarrow> nat option" where
  "list_next b (x # y # ys) = (if x = b then Some y else list_next b (y # ys))"
| "list_next b _ = None"

fun list_prev :: "nat \<Rightarrow> nat list \<Rightarrow> nat option" where
  "list_prev b (x # y # ys) = (if y = b then Some x else list_prev b (y # ys))"
| "list_prev b _ = None"

fun list_add :: "nat \<Rightarrow> nat \<Rightarrow> nat list \<Rightarrow> nat list" where
  "list_add n b [] = []"
| "list_add n b (x # xs) = (if x = b then x # n # xs else x # list_add n b xs)"

definition binder_buffer_size :: "binder_space \<Rightarrow> nat \<Rightarrow> nat" where
  "binder_buffer_size st b =
     (case list_next b (buffers st) of
        None \<Rightarrow> proc_buffer st + buffer_size st - (b + HDR)
      | Some n \<Rightarrow> n - (b + HDR))"

section \<open>The trees\<close>

fun link_free :: "binder_space \<Rightarrow> nat \<Rightarrow> nat \<Rightarrow> nat rbt \<Rightarrow> nat rbt option" where
  "link_free st new sz Leaf = Some (Node Leaf (new, Red) Leaf)"
| "link_free st new sz (Node l (b, c) r) =
     (if \<not> buf_free (headers st b) then None
      else if sz < binder_buffer_size st b then map_option (\<lambda>l. Node l (b, c) r) (link_free st new sz l)
      else map_option (\<lambda>r. Node l (b, c) r) (link_free st new sz r))"

definition binder_insert_free_buffer :: "nat \<Rightarrow> binder_space \<Rightarrow> binder_space option" where
  "binder_insert_free_buffer new st =
     (if \<not> buf_free (headers st new) then None
      else do {
        t \<leftarrow> link_free st new (binder_buffer_size st new) (free_buffers st);
        Some (st\<lparr>free_buffers := tree_insert_color new t\<rparr>) })"

fun link_allocated :: "binder_space \<Rightarrow> nat \<Rightarrow> nat rbt \<Rightarrow> nat rbt option" where
  "link_allocated st new Leaf = Some (Node Leaf (new, Red) Leaf)"
| "link_allocated st new (Node l (b, c) r) =
     (if buf_free (headers st b) then None
      else if new < b then map_option (\<lambda>l. Node l (b, c) r) (link_allocated st new l)
      else if new > b then map_option (\<lambda>r. Node l (b, c) r) (link_allocated st new r)
      else None)"

definition binder_insert_allocated_buffer :: "nat \<Rightarrow> binder_space \<Rightarrow> binder_space option" where
  "binder_insert_allocated_buffer new st =
     (if buf_free (headers st new) then None
      else do {
        t \<leftarrow> link_allocated st new (allocated_buffers st);
        Some (st\<lparr>allocated_buffers := tree_insert_color new t\<rparr>) })"

fun find_allocated :: "binder_space \<Rightarrow> nat \<Rightarrow> nat rbt \<Rightarrow> nat option option" where
  "find_allocated st k Leaf = Some None"
| "find_allocated st k (Node l (b, c) r) =
     (if buf_free (headers st b) then None
      else if k < b then find_allocated st k l
      else if k > b then find_allocated st k r
      else Some (Some b))"

definition binder_buffer_lookup :: "u32 \<Rightarrow> binder_space \<Rightarrow> nat option option" where
  "binder_buffer_lookup user_ptr st =
     find_allocated st (unat (user_ptr - user_buffer_offset st - 40)) (allocated_buffers st)"

section \<open>Pages\<close>

abbreviation page_down :: "nat \<Rightarrow> nat" where "page_down x \<equiv> x div 4096 * 4096"
abbreviation page_up :: "nat \<Rightarrow> nat" where "page_up x \<equiv> (x + 4095) div 4096 * 4096"

text \<open>What happens to the page with a given index: it is mapped, or a step of mapping it fails.\<close>

datatype page_result = Page_ok | Alloc_fails | Map_fails | Insert_fails

text \<open>The loop at \<open>free_range\<close>, downwards; freeing a page that is not there is a panic.\<close>

function free_range :: "nat \<Rightarrow> nat \<Rightarrow> nat \<Rightarrow> (nat \<Rightarrow> bool) \<Rightarrow> (nat \<Rightarrow> bool) option" where
  "free_range base start fin pgs =
     (if fin < start + 4096 then Some pgs
      else
        (let i = (fin - 4096 - base) div 4096 in
         if pgs i then free_range base start (fin - 4096) (pgs(i := False)) else None))"
  by pat_completeness auto
termination by (relation "measure (\<lambda>(base, start, fin, pgs). fin)") auto

declare free_range.simps [simp del]

text \<open>The loop that allocates, upwards; a failure enters the other loop at the failed page.\<close>

function alloc_range ::
    "(nat \<Rightarrow> page_result) \<Rightarrow> nat \<Rightarrow> nat \<Rightarrow> nat \<Rightarrow> nat \<Rightarrow> (nat \<Rightarrow> bool) \<Rightarrow> ((nat \<Rightarrow> bool) \<times> int) option" where
  "alloc_range env base start addr fin pgs =
     (if fin \<le> addr then Some (pgs, 0)
      else
        (let i = (addr - base) div 4096 in
         if pgs i then None
         else (case env i of
                 Page_ok \<Rightarrow> alloc_range env base start (addr + 4096) fin (pgs(i := True))
               | _ \<Rightarrow> map_option (\<lambda>p. (p, - ENOMEM)) (free_range base start addr (pgs(i := False))))))"
  by pat_completeness auto
termination by (relation "measure (\<lambda>(env, base, start, addr, fin, pgs). fin - addr)") auto

declare alloc_range.simps [simp del]

text \<open>
  \<open>vma\<close>: whether the caller passes the mapping itself; otherwise it is that of the process, if
  its memory descriptor \<open>mm\<close> is still alive.
\<close>

definition binder_update_page_range ::
    "(nat \<Rightarrow> page_result) \<Rightarrow> bool \<Rightarrow> bool \<Rightarrow> nat \<Rightarrow> nat \<Rightarrow> bool \<Rightarrow> binder_space \<Rightarrow> (binder_space \<times> int) option" where
  "binder_update_page_range env mm allocate start fin vma st =
     (if fin \<le> start then Some (st, 0)
      else
        (let vma = (vma \<or> mm \<and> proc_vma st) in
         if \<not> allocate
         then map_option (\<lambda>p. (st\<lparr>pages := p\<rparr>, - ENOMEM)) (free_range (proc_buffer st) start fin (pages st))
         else if \<not> vma then Some (st, - ENOMEM)
         else map_option (\<lambda>(p, ret). (st\<lparr>pages := p\<rparr>, ret))
                (alloc_range env (proc_buffer st) start start fin (pages st))))"

section \<open>Allocation\<close>

definition align4 :: "u32 \<Rightarrow> u32" where
  "align4 x = (x + 3) AND NOT 3"

text \<open>The search for the smallest free buffer that is large enough; the flag is an exact fit.\<close>

fun best_fit :: "binder_space \<Rightarrow> nat \<Rightarrow> nat rbt \<Rightarrow> nat option \<Rightarrow> (nat option \<times> bool) option" where
  "best_fit st sz Leaf best = Some (best, False)"
| "best_fit st sz (Node l (b, c) r) best =
     (if \<not> buf_free (headers st b) then None
      else if sz < binder_buffer_size st b then best_fit st sz l (Some b)
      else if sz > binder_buffer_size st b then best_fit st sz r best
      else Some (Some b, True))"

text \<open>The part of \<open>binder_alloc_buf\<close> after the search: buffer \<open>b\<close> gives \<open>sz\<close> bytes.\<close>

definition take_buffer ::
    "(nat \<Rightarrow> page_result) \<Rightarrow> bool \<Rightarrow> nat \<Rightarrow> nat \<Rightarrow> bool \<Rightarrow> binder_space \<Rightarrow> (binder_space \<times> bool) option" where
  "take_buffer env mm b sz exact st =
     (let bsz = binder_buffer_size st b;
          dat = b + HDR;
          has_page_addr = page_down (dat + bsz);
          bsz' = (if exact then bsz else if sz + HDR + 4 \<ge> bsz then sz else sz + HDR);
          end_page_addr = min (page_up (dat + bsz')) has_page_addr
      in do {
        (st, ret) \<leftarrow> binder_update_page_range env mm True (page_up dat) end_page_addr False st;
        if ret \<noteq> 0 then Some (st, False)
        else do {
          let st = st\<lparr>free_buffers := tree_erase b (free_buffers st)\<rparr>;
          let st = set_header b (\<lambda>h. h\<lparr>buf_free := False\<rparr>) st;
          st \<leftarrow> binder_insert_allocated_buffer b st;
          st \<leftarrow> (if bsz' \<noteq> sz
                 then (let n = dat + sz;
                           st = st\<lparr>buffers := list_add n b (buffers st)\<rparr>;
                           st = set_header n (\<lambda>h. h\<lparr>buf_free := True\<rparr>) st
                       in binder_insert_free_buffer n st)
                 else Some st);
          Some (st, True) } })"

definition binder_alloc_buf ::
    "(nat \<Rightarrow> page_result) \<Rightarrow> bool \<Rightarrow> u32 \<Rightarrow> u32 \<Rightarrow> bool \<Rightarrow> binder_space \<Rightarrow>
       (binder_space \<times> nat option) option" where
  "binder_alloc_buf env mm dsize osize is_async st =
     (let sz = align4 dsize + align4 osize in
      if \<not> proc_vma st then Some (st, None)
      else if sz < dsize \<or> sz < osize then Some (st, None)
      else if is_async \<and> free_async_space st < sz + 40 then Some (st, None)
      else do {
        (best, exact) \<leftarrow> best_fit st (unat sz) (free_buffers st) None;
        (case best of
           None \<Rightarrow> Some (st, None)
         | Some b \<Rightarrow> do {
             (st, ok) \<leftarrow> take_buffer env mm b (unat sz) exact st;
             if \<not> ok then Some (st, None)
             else
               (let st = set_header b (\<lambda>h. h\<lparr>data_size := dsize, offsets_size := osize, async_transaction := is_async\<rparr>) st;
                    st = (if is_async then st\<lparr>free_async_space := free_async_space st - (sz + 40)\<rparr> else st)
                in Some (st, Some b)) }) })"

section \<open>Freeing\<close>

definition buffer_start_page :: "nat \<Rightarrow> nat" where
  "buffer_start_page b = page_down b"

definition buffer_end_page :: "nat \<Rightarrow> nat" where
  "buffer_end_page b = page_down (b + HDR - 1)"

definition binder_delete_free_buffer :: "bool \<Rightarrow> nat \<Rightarrow> binder_space \<Rightarrow> binder_space option" where
  "binder_delete_free_buffer mm b st =
     (case list_prev b (buffers st) of
        None \<Rightarrow> None
      | Some prev \<Rightarrow>
          if \<not> buf_free (headers st prev) then None
          else
            (let (fstart, fend) =
                   (if buffer_end_page prev = buffer_start_page b
                    then (False, buffer_end_page prev \<noteq> buffer_end_page b) else (True, True));
                 (fstart, fend) =
                   (case list_next b (buffers st) of
                      None \<Rightarrow> (fstart, fend)
                    | Some next \<Rightarrow>
                        if buffer_start_page next = buffer_end_page b
                        then (fstart \<and> buffer_start_page next \<noteq> buffer_start_page b, False)
                        else (fstart, fend));
                 st = st\<lparr>buffers := removeAll b (buffers st)\<rparr> in
             if fstart \<or> fend
             then map_option fst (binder_update_page_range (\<lambda>_. Page_ok) mm False
                    (if fstart then buffer_start_page b else buffer_end_page b)
                    ((if fend then buffer_end_page b else buffer_start_page b) + 4096) False st)
             else Some st))"

text \<open>The size of the data a buffer was allocated for.\<close>

definition used_size :: "binder_space \<Rightarrow> nat \<Rightarrow> u32" where
  "used_size st b = align4 (data_size (headers st b)) + align4 (offsets_size (headers st b))"

definition binder_free_buf :: "bool \<Rightarrow> nat \<Rightarrow> binder_space \<Rightarrow> binder_space option" where
  "binder_free_buf mm b st =
     (let bsz = binder_buffer_size st b; sz = used_size st b; h = headers st b in
      if buf_free h \<or> unat sz > bsz \<or> buf_transaction h \<noteq> None \<or> b < proc_buffer st
         \<or> b > proc_buffer st + buffer_size st
      then None
      else do {
        let st = (if async_transaction h then st\<lparr>free_async_space := free_async_space st + (sz + 40)\<rparr> else st);
        (st, _) \<leftarrow> binder_update_page_range (\<lambda>_. Page_ok) mm False (page_up (b + HDR)) (page_down (b + HDR + bsz)) False st;
        let st = st\<lparr>allocated_buffers := tree_erase b (allocated_buffers st)\<rparr>;
        let st = set_header b (\<lambda>h. h\<lparr>buf_free := True\<rparr>) st;
        st \<leftarrow> (case list_next b (buffers st) of
                 None \<Rightarrow> Some st
               | Some next \<Rightarrow>
                   if buf_free (headers st next)
                   then binder_delete_free_buffer mm next (st\<lparr>free_buffers := tree_erase next (free_buffers st)\<rparr>)
                   else Some st);
        (case list_prev b (buffers st) of
           None \<Rightarrow> binder_insert_free_buffer b st
         | Some prev \<Rightarrow>
             if buf_free (headers st prev)
             then do {
               st \<leftarrow> binder_delete_free_buffer mm b st;
               binder_insert_free_buffer prev (st\<lparr>free_buffers := tree_erase prev (free_buffers st)\<rparr>) }
             else binder_insert_free_buffer b st) })"

section \<open>Mapping the region\<close>

abbreviation (input) EBUSY :: int where "EBUSY \<equiv> 16"
abbreviation (input) VM_WRITE :: u32 where "VM_WRITE \<equiv> 2"
abbreviation (input) VM_MAYWRITE :: u32 where "VM_MAYWRITE \<equiv> 0x20"
abbreviation (input) VM_DONTCOPY :: u32 where "VM_DONTCOPY \<equiv> 0x20000"
abbreviation (input) SZ_4M :: u32 where "SZ_4M \<equiv> 0x400000"

text \<open>A process that has just opened the device: everything zero.\<close>

definition zero_header :: binder_buffer where
  "zero_header = \<lparr>buf_free = False, allow_user_free = False, async_transaction = False, buf_debug_id = 0,
     buf_transaction = None, target_node = None, data_size = 0, offsets_size = 0\<rparr>"

definition new_space :: binder_space where
  "new_space = \<lparr>proc_buffer = 0, buffer_size = 0, proc_vma = False, buffers = [], headers = \<lambda>_. zero_header,
     free_buffers = Leaf, allocated_buffers = Leaf, free_async_space = 0, pages = \<lambda>_. False, user_buffer_offset = 0\<rparr>"

definition CACHE_COLOUR :: "u32 \<Rightarrow> u32" where
  "CACHE_COLOUR vaddr = drop_bit 12 (vaddr AND 0x3FFF)"

lemma cache_colour_unat: "unat (CACHE_COLOUR s) = unat s div 4096 mod 4"
proof -
  have "CACHE_COLOUR s = drop_bit 12 (take_bit 14 s)"
    by (simp add: CACHE_COLOUR_def take_bit_eq_mask mask_eq_exp_minus_1)
  then have "unat (CACHE_COLOUR s) = unat s mod 2 ^ 14 div 2 ^ 12"
    by (simp add: take_bit_eq_mod drop_bit_eq_div unat_div unat_mod)
  moreover have "unat s mod (4096 * 4) = 4096 * (unat s div 4096 mod 4) + unat s mod 4096" by (rule mod_mult2_eq)
  ultimately show ?thesis by simp
qed

lemma cache_colour_xor: "CACHE_COLOUR (s XOR a) = 0 \<longleftrightarrow> CACHE_COLOUR s = CACHE_COLOUR a"
proof -
  have "CACHE_COLOUR (s XOR a) = CACHE_COLOUR s XOR CACHE_COLOUR a"
    by (simp add: CACHE_COLOUR_def bit.conj_xor_distrib2 drop_bit_xor)
  then show ?thesis by (metis bit.xor_left_self bit.xor_self xor.right_neutral)
qed

lemma cache_colour_next: "unat (CACHE_COLOUR (s + 4096)) = (unat (CACHE_COLOUR s) + 1) mod 4"
proof -
  define y where "y = unat s + 4096"
  have "y mod (4096 * 2 ^ 20) = 4096 * (y div 4096 mod 2 ^ 20) + y mod 4096" by (rule mod_mult2_eq)
  then have "y mod 2 ^ 32 div 4096 mod 4 = y div 4096 mod 2 ^ 20 mod 4" by simp
  also have "\<dots> = y div 4096 mod 4" by (rule mod_mod_cancel) (simp add: dvd_def)
  finally have "unat (s + 4096) div 4096 mod 4 = y div 4096 mod 4" by (simp add: unat_word_ariths y_def)
  then show ?thesis by (simp add: cache_colour_unat y_def mod_Suc_eq div_add_self2)
qed

lemma colours_apart:
  assumes "x < 4" "y < 4" "x \<noteq> y"
  shows "(x + 4 - (y + 1) mod 4) mod 4 < (x + 4 - y) mod (4 :: nat)"
proof -
  have "x = 0 \<or> x = 1 \<or> x = 2 \<or> x = 3" "y = 0 \<or> y = 1 \<or> y = 2 \<or> y = 3" using assms(1,2) by linarith+
  then show ?thesis using assms(3) by (elim disjE) simp_all
qed

text \<open>The loop that moves the start of the mapping until the colours agree.\<close>

function colour_loop :: "u32 \<Rightarrow> u32 \<Rightarrow> u32" where
  "colour_loop buf vm_start =
     (if CACHE_COLOUR (vm_start XOR buf) \<noteq> 0 then colour_loop buf (vm_start + 4096) else vm_start)"
  by pat_completeness auto
termination
proof (relation "measure (\<lambda>(b, s). (unat (CACHE_COLOUR b) + 4 - unat (CACHE_COLOUR s)) mod 4)", goal_cases)
  case (2 b s)
  have "unat (CACHE_COLOUR b) < 4" "unat (CACHE_COLOUR s) < 4" by (simp_all add: cache_colour_unat)
  moreover have "unat (CACHE_COLOUR b) \<noteq> unat (CACHE_COLOUR s)" using 2 cache_colour_xor [of s b] word_unat_eq_iff [of "CACHE_COLOUR s"] by auto
  ultimately show ?case using colours_apart [of "unat (CACHE_COLOUR b)" "unat (CACHE_COLOUR s)"] by (simp add: cache_colour_next)
qed simp

declare colour_loop.simps [simp del]

text \<open>
  \<open>area\<close>: the kernel address range \<open>get_vm_area\<close> reserves; \<open>aliasing\<close>: whether the processor
  needs equal cache colours; \<open>array_ok\<close>: whether the page array can be allocated. The result
  is the state, the mapping and the return value. An array of no pages has no memory: looking
  up its first page is a panic. Whether the first page can be mapped depends on the mapping,
  for \<open>vm_insert_page\<close> refuses a user address outside of it; the flag it sets in the mapping
  is left out.
\<close>

record binder_vma =
  vma_start :: u32
  vma_end :: u32
  vma_flags :: u32

definition vm_insert_page :: "binder_vma \<Rightarrow> u32 \<Rightarrow> page_result \<Rightarrow> page_result" where
  "vm_insert_page vma addr res =
     (case res of
        Alloc_fails \<Rightarrow> Alloc_fails
      | Map_fails \<Rightarrow> Map_fails
      | _ \<Rightarrow> if addr < vma_start vma \<or> addr \<ge> vma_end vma then Insert_fails else res)"

definition binder_mmap ::
    "(nat \<Rightarrow> page_result) \<Rightarrow> bool \<Rightarrow> u32 option \<Rightarrow> bool \<Rightarrow> bool \<Rightarrow> binder_vma \<Rightarrow> binder_space \<Rightarrow>
       (binder_space \<times> binder_vma \<times> int) option" where
  "binder_mmap env mm area aliasing array_ok vma st =
     (let vma = (if vma_end vma - vma_start vma > SZ_4M then vma\<lparr>vma_end := vma_start vma + SZ_4M\<rparr> else vma) in
      if vma_flags vma AND VM_WRITE \<noteq> 0 then Some (st, vma, - EPERM)
      else
        (let vma = vma\<lparr>vma_flags := (vma_flags vma OR VM_DONTCOPY) AND NOT VM_MAYWRITE\<rparr> in
         if proc_buffer st \<noteq> 0 then Some (st, vma, - EBUSY)
         else (case area of
                 None \<Rightarrow> Some (st, vma, - ENOMEM)
               | Some a \<Rightarrow>
                   (let st = st\<lparr>proc_buffer := unat a, user_buffer_offset := vma_start vma - a\<rparr>;
                        vma = (if aliasing then vma\<lparr>vma_start := colour_loop a (vma_start vma)\<rparr> else vma) in
                    if \<not> array_ok then Some (st\<lparr>proc_buffer := 0\<rparr>, vma, - ENOMEM)
                    else if unat (vma_end vma - vma_start vma) div 4096 = 0 then None
                    else
                      (let st = st\<lparr>pages := \<lambda>_. False, buffer_size := unat (vma_end vma - vma_start vma)\<rparr>;
                           b = unat a;
                           env = (\<lambda>i. vm_insert_page vma (word_of_nat (b + 4096 * i) + user_buffer_offset st) (env i)) in do {
                         (st, ret) \<leftarrow> binder_update_page_range env mm True b (b + 4096) True st;
                         if ret \<noteq> 0 then Some (st\<lparr>proc_buffer := 0\<rparr>, vma, - ENOMEM)
                         else do {
                           let st = st\<lparr>buffers := [b]\<rparr>;
                           let st = set_header b (\<lambda>h. h\<lparr>buf_free := True\<rparr>) st;
                           st \<leftarrow> binder_insert_free_buffer b st;
                           Some (st\<lparr>free_async_space := of_nat (buffer_size st div 2), proc_vma := True\<rparr>, vma, 0) } })))))"

definition binder_vma_close :: "binder_space \<Rightarrow> binder_space" where
  "binder_vma_close st = st\<lparr>proc_vma := False\<rparr>"

end
