(* ===== verification/Binder_Alloc_Props.thy ===== *)
theory Binder_Alloc_Props
  imports Binder_Alloc
begin

text \<open>
  The allocator of \<^verbatim>\<open>drivers/staging/android/binder.c\<close> keeps its region tiled by buffers, finds
  the best fit, merges free neighbours, and has exactly the pages mapped that headers and
  live data need; it never hits one of its assertions.
\<close>

section \<open>The list of buffers\<close>

definition hd_or :: "nat \<Rightarrow> nat list \<Rightarrow> nat" where
  "hd_or e ys = (case ys of [] \<Rightarrow> e | y # _ \<Rightarrow> y)"

lemma hd_or_simps [simp]: "hd_or e [] = e" "hd_or e (y # ys) = y"
  by (simp_all add: hd_or_def)

text \<open>Where the data of a buffer ends: at the next header or at the end of the region.\<close>

fun bend_of :: "nat \<Rightarrow> nat list \<Rightarrow> nat \<Rightarrow> nat" where
  "bend_of e [] b = e"
| "bend_of e (x # xs) b = (if x = b then hd_or e xs else bend_of e xs b)"

definition region_end :: "binder_space \<Rightarrow> nat" where
  "region_end st = proc_buffer st + buffer_size st"

definition bend :: "binder_space \<Rightarrow> nat \<Rightarrow> nat" where
  "bend st = bend_of (region_end st) (buffers st)"

lemma list_next_bend: "(case list_next b xs of None \<Rightarrow> e | Some n \<Rightarrow> n) = bend_of e xs b"
  by (induction b xs rule: list_next.induct) auto

lemma binder_buffer_size_bend: "binder_buffer_size st b = bend st b - (b + 40)"
proof -
  have "binder_buffer_size st b = (case list_next b (buffers st) of None \<Rightarrow> region_end st | Some n \<Rightarrow> n) - (b + 40)"
    by (simp add: binder_buffer_size_def region_end_def split: option.splits)
  then show ?thesis by (simp only: list_next_bend bend_def)
qed

lemma bend_of_split: "b \<notin> set xs \<Longrightarrow> bend_of e (xs @ b # ys) b = hd_or e ys"
  by (induction xs) auto

lemma bend_of_left: "c \<in> set xs \<Longrightarrow> bend_of e (xs @ ys) c = bend_of (hd_or e ys) xs c"
proof (induction xs)
  case (Cons x xs)
  then show ?case by (cases xs) auto
qed simp

lemma bend_of_right: "c \<notin> set xs \<Longrightarrow> bend_of e (xs @ ys) c = bend_of e ys c"
  by (induction xs) auto

lemma bend_of_last: "distinct xs \<Longrightarrow> c \<in> set xs \<Longrightarrow> c \<noteq> last xs \<Longrightarrow> bend_of e xs c = bend_of e' xs c"
proof (induction xs)
  case (Cons x xs)
  then show ?case by (cases xs) auto
qed simp

lemma list_next_split:
  "b \<notin> set xs \<Longrightarrow> list_next b (xs @ b # ys) = (case ys of [] \<Rightarrow> None | y # _ \<Rightarrow> Some y)"
proof (induction xs)
  case Nil
  show ?case by (cases ys) auto
next
  case (Cons x xs)
  then show ?case by (cases xs) auto
qed

lemma list_prev_split:
  "b \<notin> set xs \<Longrightarrow> b \<notin> set ys \<Longrightarrow> list_prev b (xs @ b # ys) = (if xs = [] then None else Some (last xs))"
proof (induction xs)
  case Nil
  have "list_prev b (x # ys) = None" if "b \<notin> set ys" for x ys using that by (induction ys arbitrary: x) auto
  then show ?case using Nil by simp
next
  case (Cons x xs)
  then show ?case by (cases xs) auto
qed

lemma list_add_split: "b \<notin> set xs \<Longrightarrow> list_add n b (xs @ b # ys) = xs @ b # n # ys"
  by (induction xs) auto

text \<open>Buffers follow each other with room for their headers, up to \<open>e\<close>.\<close>

definition linked :: "nat \<Rightarrow> nat list \<Rightarrow> bool" where
  "linked e bs \<longleftrightarrow> successively (\<lambda>b c. b + 40 \<le> c) bs \<and> (bs \<noteq> [] \<longrightarrow> last bs + 40 \<le> e)"

lemma linked_append:
  "linked e (xs @ ys) \<longleftrightarrow> linked (hd_or e ys) xs \<and> linked e ys"
  by (cases ys) (auto simp: linked_def successively_append_iff)

lemma linked_Cons: "linked e (b # ys) \<longleftrightarrow> b + 40 \<le> hd_or e ys \<and> linked e ys"
  using linked_append [of e "[b]" ys] by (simp add: linked_def)

lemma linked_Nil [simp]: "linked e []"
  by (simp add: linked_def)

lemma linked_above: "linked e bs \<Longrightarrow> c \<in> set bs \<Longrightarrow> hd bs \<le> c \<and> c + 40 \<le> e"
proof (induction bs arbitrary: c)
  case (Cons b bs)
  show ?case
  proof (cases "c = b")
    case True
    have "linked e bs" using Cons.prems(1) by (simp add: linked_Cons)
    then have "hd_or e bs \<le> e" using Cons.IH [of "hd bs"] by (cases bs) auto
    then show ?thesis using True Cons.prems by (auto simp: linked_Cons)
  next
    case False
    then have "hd bs \<le> c \<and> c + 40 \<le> e" "bs \<noteq> []" using Cons by (auto simp: linked_Cons)
    then show ?thesis using Cons.prems(1) by (cases bs) (auto simp: linked_Cons)
  qed
qed simp

lemma linked_distinct: "linked e bs \<Longrightarrow> distinct bs"
proof (induction bs)
  case (Cons b bs)
  have "b \<notin> set bs"
  proof
    assume "b \<in> set bs"
    then have "hd bs \<le> b" "bs \<noteq> []" using linked_above [of e bs b] Cons.prems by (auto simp: linked_Cons)
    then show False using Cons.prems by (cases bs) (auto simp: linked_Cons)
  qed
  with Cons show ?case by (simp add: linked_Cons)
qed simp

text \<open>In a linked list, a buffer's data end is above its header, and other buffers lie outside.\<close>

lemma linked_split:
  assumes "linked e (xs @ b # ys)"
  shows "b \<notin> set xs" "b \<notin> set ys" "distinct (xs @ b # ys)" "b + 40 \<le> hd_or e ys"
    "\<And>c. c \<in> set xs \<Longrightarrow> c + 40 \<le> b" "\<And>c. c \<in> set ys \<Longrightarrow> hd_or e ys \<le> c" "hd_or e ys \<le> e"
    "linked b xs" "linked e ys"
proof -
  show d: "distinct (xs @ b # ys)" using assms by (rule linked_distinct)
  then show "b \<notin> set xs" "b \<notin> set ys" by auto
  show l: "linked b xs" "linked e ys" "b + 40 \<le> hd_or e ys" using assms by (auto simp: linked_append linked_Cons)
  show "c + 40 \<le> b" if "c \<in> set xs" for c using linked_above [OF l(1) that] by simp
  show "hd_or e ys \<le> c" if "c \<in> set ys" for c using linked_above [OF l(2) that] that by (cases ys) auto
  show "hd_or e ys \<le> e" using linked_above [OF l(2), of "hd ys"] by (cases ys) auto
qed

lemma bend_split:
  assumes "buffers st = xs @ b # ys" "linked (region_end st) (buffers st)"
  shows "bend st b = hd_or (region_end st) ys"
    "c \<in> set xs \<Longrightarrow> bend st c = bend_of b xs c" "c \<in> set ys \<Longrightarrow> bend st c = bend_of (region_end st) ys c"
proof -
  note l = linked_split [OF assms(2) [unfolded assms(1)]]
  show "bend st b = hd_or (region_end st) ys" using l(1) by (simp add: bend_def assms(1) bend_of_split)
  show "c \<in> set xs \<Longrightarrow> bend st c = bend_of b xs c" by (simp add: bend_def assms(1) bend_of_left)
  show "bend st c = bend_of (region_end st) ys c" if "c \<in> set ys"
    using l(3) that bend_of_right [of c "xs @ [b]" "region_end st" ys] by (auto simp: bend_def assms(1))
qed

section \<open>The trees\<close>

lemma link_free_ok:
  assumes "\<forall>b \<in> set (keys t). buf_free (headers st b)"
    and "sorted_wrt (\<lambda>b c. binder_buffer_size st b \<le> binder_buffer_size st c) (keys t)"
  shows "\<exists>t' xs ys. link_free st new sz t = Some t' \<and> keys t = xs @ ys \<and> keys t' = xs @ new # ys \<and>
    (\<forall>x \<in> set xs. binder_buffer_size st x \<le> sz) \<and> (\<forall>y \<in> set ys. sz < binder_buffer_size st y)"
  using assms
proof (induction t rule: rbt_induct)
  case (Node l b c r)
  have l: "sorted_wrt (\<lambda>b c. binder_buffer_size st b \<le> binder_buffer_size st c) (keys l)"
    and r: "sorted_wrt (\<lambda>b c. binder_buffer_size st b \<le> binder_buffer_size st c) (keys r)"
    and lb: "\<forall>x \<in> set (keys l). binder_buffer_size st x \<le> binder_buffer_size st b"
    and br: "\<forall>y \<in> set (keys r). binder_buffer_size st b \<le> binder_buffer_size st y"
    using Node.prems(2) by (auto simp: sorted_wrt_append)
  have fr: "buf_free (headers st b)" "\<forall>x \<in> set (keys l). buf_free (headers st x)" "\<forall>x \<in> set (keys r). buf_free (headers st x)"
    using Node.prems(1) by auto
  show ?case
  proof (cases "sz < binder_buffer_size st b")
    case True
    obtain t' xs ys where "link_free st new sz l = Some t'" "keys l = xs @ ys" "keys t' = xs @ new # ys"
      "\<forall>x \<in> set xs. binder_buffer_size st x \<le> sz" "\<forall>y \<in> set ys. sz < binder_buffer_size st y"
      using Node.IH(1) [OF fr(2) l] by blast
    moreover have "\<forall>y \<in> set (ys @ b # keys r). sz < binder_buffer_size st y"
      using True br calculation(5) by fastforce
    ultimately show ?thesis using True fr(1) by (intro exI [of _ "Node t' (b, c) r"] exI [of _ xs] exI [of _ "ys @ b # keys r"]) simp
  next
    case False
    obtain t' xs ys where "link_free st new sz r = Some t'" "keys r = xs @ ys" "keys t' = xs @ new # ys"
      "\<forall>x \<in> set xs. binder_buffer_size st x \<le> sz" "\<forall>y \<in> set ys. sz < binder_buffer_size st y"
      using Node.IH(2) [OF fr(3) r] by blast
    moreover have "\<forall>x \<in> set (keys l @ b # xs). binder_buffer_size st x \<le> sz"
      using False lb calculation(4) by fastforce
    ultimately show ?thesis using False fr(1) by (intro exI [of _ "Node l (b, c) t'"] exI [of _ "keys l @ b # xs"] exI [of _ ys]) simp
  qed
qed simp

lemma link_allocated_ok:
  assumes "\<forall>b \<in> set (keys t). \<not> buf_free (headers st b)" and "sorted_wrt (<) (keys t)" and "new \<notin> set (keys t)"
  shows "\<exists>t'. link_allocated st new t = Some t' \<and> sorted_wrt (<) (keys t') \<and> set (keys t') = insert new (set (keys t))"
  using assms
proof (induction t rule: rbt_induct)
  case (Node l b c r)
  have s: "sorted_wrt (<) (keys l)" "sorted_wrt (<) (keys r)" "\<forall>x \<in> set (keys l). x < b" "\<forall>x \<in> set (keys r). b < x"
    "\<forall>x \<in> set (keys l). \<forall>y \<in> set (keys r). x < y"
    using Node.prems(2) by (auto simp: sorted_wrt_append)
  have f: "\<forall>x \<in> set (keys l). \<not> buf_free (headers st x)" "\<forall>x \<in> set (keys r). \<not> buf_free (headers st x)" "\<not> buf_free (headers st b)"
    "new \<notin> set (keys l)" "new \<notin> set (keys r)" "new \<noteq> b"
    using Node.prems by auto
  show ?case
  proof (cases "new < b")
    case True
    obtain t' where "link_allocated st new l = Some t'" "sorted_wrt (<) (keys t')" "set (keys t') = insert new (set (keys l))"
      using Node.IH(1) [OF f(1) s(1) f(4)] by blast
    with True s f show ?thesis
      by (intro exI [of _ "Node t' (b, c) r"]) (auto simp: sorted_wrt_append)
  next
    case False
    then have gt: "b < new" using f(6) by simp
    obtain t' where "link_allocated st new r = Some t'" "sorted_wrt (<) (keys t')" "set (keys t') = insert new (set (keys r))"
      using Node.IH(2) [OF f(2) s(2) f(5)] by blast
    with gt s f show ?thesis
      by (intro exI [of _ "Node l (b, c) t'"]) (auto simp: sorted_wrt_append)
  qed
qed simp

text \<open>The result of the search, given the best candidate so far.\<close>

definition fits_best :: "binder_space \<Rightarrow> nat \<Rightarrow> nat set \<Rightarrow> nat option \<Rightarrow> nat option \<times> bool \<Rightarrow> bool" where
  "fits_best st sz S best res \<longleftrightarrow> (case res of
     (None, exact) \<Rightarrow> \<not> exact \<and> best = None \<and> (\<forall>x \<in> S. binder_buffer_size st x < sz)
   | (Some b, exact) \<Rightarrow> (b \<in> S \<or> best = Some b) \<and> sz \<le> binder_buffer_size st b \<and>
       (exact \<longleftrightarrow> binder_buffer_size st b = sz) \<and>
       (\<forall>x \<in> S. sz \<le> binder_buffer_size st x \<longrightarrow> binder_buffer_size st b \<le> binder_buffer_size st x))"

lemma best_fit_ok:
  assumes "\<forall>b \<in> set (keys t). buf_free (headers st b)"
    and "sorted_wrt (\<lambda>b c. binder_buffer_size st b \<le> binder_buffer_size st c) (keys t)"
    and "\<And>b. best = Some b \<Longrightarrow> sz < binder_buffer_size st b \<and> (\<forall>x \<in> set (keys t). binder_buffer_size st x \<le> binder_buffer_size st b)"
  shows "\<exists>res. best_fit st sz t best = Some res \<and> fits_best st sz (set (keys t)) best res"
  using assms
proof (induction t arbitrary: best rule: rbt_induct)
  case Leaf
  then show ?case by (cases best) (auto simp: fits_best_def)
next
  case (Node l b c r)
  have s: "sorted_wrt (\<lambda>b c. binder_buffer_size st b \<le> binder_buffer_size st c) (keys l)"
    "sorted_wrt (\<lambda>b c. binder_buffer_size st b \<le> binder_buffer_size st c) (keys r)"
    "\<forall>x \<in> set (keys l). binder_buffer_size st x \<le> binder_buffer_size st b"
    "\<forall>y \<in> set (keys r). binder_buffer_size st b \<le> binder_buffer_size st y"
    using Node.prems(2) by (auto simp: sorted_wrt_append)
  have fr: "buf_free (headers st b)" "\<forall>x \<in> set (keys l). buf_free (headers st x)" "\<forall>x \<in> set (keys r). buf_free (headers st x)"
    using Node.prems(1) by auto
  consider "sz < binder_buffer_size st b" | "binder_buffer_size st b < sz" | "binder_buffer_size st b = sz" by linarith
  then show ?case
  proof cases
    case 1
    obtain res where r: "best_fit st sz l (Some b) = Some res" "fits_best st sz (set (keys l)) (Some b) res"
      using Node.IH(1) [OF fr(2) s(1), of "Some b"] 1 s(3) by auto
    obtain b' ex where res: "res = (Some b', ex)" using r(2) by (cases res; cases "fst res") (auto simp: fits_best_def)
    have cb: "binder_buffer_size st b' \<le> binder_buffer_size st b" using r(2) s(3) by (auto simp: res fits_best_def)
    have "\<forall>x \<in> set (keys r). binder_buffer_size st b' \<le> binder_buffer_size st x" using cb s(4) by fastforce
    then have "fits_best st sz (set (keys (Node l (b, c) r))) best res" using r(2) cb by (auto simp: res fits_best_def)
    then show ?thesis using r(1) 1 fr(1) by simp
  next
    case 2
    obtain res where r: "best_fit st sz r best = Some res" "fits_best st sz (set (keys r)) best res"
      using Node.IH(2) [OF fr(3) s(2), of best] Node.prems(3) by auto
    have "\<forall>x \<in> set (keys l). binder_buffer_size st x < sz" using 2 s(3) by fastforce
    then have "fits_best st sz (set (keys (Node l (b, c) r))) best res"
      using r(2) 2 by (auto simp: fits_best_def split: prod.splits option.splits)
    then show ?thesis using r(1) 2 fr(1) by simp
  next
    case 3
    then show ?thesis using fr(1) s by (auto simp: fits_best_def)
  qed
qed

lemma find_allocated_ok:
  assumes "\<forall>b \<in> set (keys t). \<not> buf_free (headers st b)" and "sorted_wrt (<) (keys t)"
  shows "find_allocated st k t = Some (if k \<in> set (keys t) then Some k else None)"
  using assms
proof (induction t rule: rbt_induct)
  case (Node l b c r)
  have s: "sorted_wrt (<) (keys l)" "sorted_wrt (<) (keys r)" "\<forall>x \<in> set (keys l). x < b" "\<forall>x \<in> set (keys r). b < x"
    using Node.prems(2) by (auto simp: sorted_wrt_append)
  then show ?case using Node by (cases k b rule: linorder_cases) auto
qed simp

section \<open>Page loops\<close>

lemma free_range_ok:
  assumes "i \<le> j" and "\<forall>p \<in> {i..<j}. pgs p"
  shows "free_range base (base + 4096 * i) (base + 4096 * j) pgs = Some (\<lambda>p. pgs p \<and> p \<notin> {i..<j})"
  using assms
proof (induction "j - i" arbitrary: j pgs)
  case 0
  then show ?case by (simp add: free_range.simps)
next
  case (Suc n)
  then obtain k where j: "j = Suc k" "i \<le> k" by (cases j) auto
  have idx: "(base + 4096 * j - 4096 - base) div 4096 = k" by (simp add: j)
  have "free_range base (base + 4096 * i) (base + 4096 * k) (pgs(k := False)) =
      Some (\<lambda>p. (pgs(k := False)) p \<and> p \<notin> {i..<k})"
    using Suc j by (intro Suc.hyps(1)) auto
  moreover have "base + 4096 * j - 4096 = base + 4096 * k" by (simp add: j)
  moreover have "(\<lambda>p. (pgs(k := False)) p \<and> p \<notin> {i..<k}) = (\<lambda>p. pgs p \<and> p \<notin> {i..<j})"
    using j by (auto simp: fun_eq_iff)
  ultimately show ?case using Suc.prems(2) j idx
    by (subst free_range.simps) (simp add: Let_def)
qed

lemma alloc_range_ok:
  assumes "i \<le> k" and "k \<le> j" and "\<forall>p \<in> {k..<j}. \<not> pgs p" and "\<forall>p \<in> {i..<k}. pgs p"
  shows "alloc_range env base (base + 4096 * i) (base + 4096 * k) (base + 4096 * j) pgs = Some (\<lambda>p. pgs p \<or> p \<in> {k..<j}, 0) \<or>
    alloc_range env base (base + 4096 * i) (base + 4096 * k) (base + 4096 * j) pgs = Some (\<lambda>p. pgs p \<and> p \<notin> {i..<k}, - ENOMEM)"
  using assms
proof (induction "j - k" arbitrary: k pgs)
  case 0
  then show ?case by (simp add: alloc_range.simps)
next
  case (Suc n)
  then have kj: "k < j" by simp
  have idx: "(base + 4096 * k - base) div 4096 = k" by simp
  have np: "\<not> pgs k" using Suc.prems(3) kj by simp
  have step: "alloc_range env base (base + 4096 * i) (base + 4096 * k) (base + 4096 * j) pgs =
     (case env k of Page_ok \<Rightarrow> alloc_range env base (base + 4096 * i) (base + 4096 * k + 4096) (base + 4096 * j) (pgs(k := True))
      | _ \<Rightarrow> map_option (\<lambda>p. (p, - ENOMEM)) (free_range base (base + 4096 * i) (base + 4096 * k) (pgs(k := False))))"
    using kj np idx by (subst alloc_range.simps) (simp add: Let_def)
  show ?case
  proof (cases "env k = Page_ok")
    case True
    have e0: "base + 4096 * k + 4096 = base + 4096 * Suc k" by simp
    have e1: "(\<lambda>p. (pgs(k := True)) p \<or> p \<in> {Suc k..<j}) = (\<lambda>p. pgs p \<or> p \<in> {k..<j})"
      "(\<lambda>p. (pgs(k := True)) p \<and> p \<notin> {i..<Suc k}) = (\<lambda>p. pgs p \<and> p \<notin> {i..<k})"
      using kj np Suc.prems(1) by (auto simp: fun_eq_iff le_less_Suc_eq)
    have "alloc_range env base (base + 4096 * i) (base + 4096 * k + 4096) (base + 4096 * j) (pgs(k := True)) =
        Some (\<lambda>p. (pgs(k := True)) p \<or> p \<in> {Suc k..<j}, 0) \<or>
      alloc_range env base (base + 4096 * i) (base + 4096 * k + 4096) (base + 4096 * j) (pgs(k := True)) =
        Some (\<lambda>p. (pgs(k := True)) p \<and> p \<notin> {i..<Suc k}, - ENOMEM)"
      unfolding e0 by (rule Suc.hyps(1)) (use Suc kj in auto)
    then show ?thesis unfolding step e1 using True by simp
  next
    case False
    have "free_range base (base + 4096 * i) (base + 4096 * k) (pgs(k := False)) = Some (\<lambda>p. (pgs(k := False)) p \<and> p \<notin> {i..<k})"
      using Suc.prems by (intro free_range_ok) auto
    moreover have "pgs(k := False) = pgs" using np by (auto simp: fun_eq_iff)
    ultimately show ?thesis unfolding step using False by (cases "env k") auto
  qed
qed

section \<open>Which pages are needed\<close>

text \<open>
  A page with number \<open>q\<close> is needed when it overlaps a header, or lies within the data of an
  allocated buffer. \<open>want\<close> reads this off the list of buffers with their free flags, the
  region ending at \<open>e\<close>.
\<close>

definition hdr_on :: "nat \<Rightarrow> nat \<Rightarrow> bool" where
  "hdr_on b q \<longleftrightarrow> b < 4096 * q + 4096 \<and> 4096 * q < b + 40"

definition inner :: "nat \<Rightarrow> nat \<Rightarrow> nat \<Rightarrow> bool" where
  "inner b e q \<longleftrightarrow> b + 40 \<le> 4096 * q \<and> 4096 * q + 4096 \<le> e"

fun want :: "nat \<Rightarrow> (nat \<times> bool) list \<Rightarrow> nat \<Rightarrow> bool" where
  "want e [] q = False"
| "want e ((b, f) # L) q \<longleftrightarrow> hdr_on b q \<or> (\<not> f \<and> inner b (hd_or e (map fst L)) q) \<or> want e L q"

lemma want_append: "want e (L1 @ L2) q \<longleftrightarrow> want (hd_or e (map fst L2)) L1 q \<or> want e L2 q"
proof (induction L1)
  case (Cons x L1)
  obtain b f where x: "x = (b, f)" by (cases x)
  have "hd_or e (map fst (L1 @ L2)) = hd_or (hd_or e (map fst L2)) (map fst L1)" by (cases L1) auto
  then show ?case using Cons by (simp add: x)
qed simp

lemma want_range: "linked e (map fst L) \<Longrightarrow> want e L q \<Longrightarrow> hd (map fst L) < 4096 * q + 4096 \<and> 4096 * q < e"
proof (induction L)
  case (Cons x L)
  obtain b f where x: "x = (b, f)" by (cases x)
  have l: "linked e (map fst L)" "b + 40 \<le> hd_or e (map fst L)" using Cons.prems(1) by (auto simp: x linked_Cons)
  have e: "hd_or e (map fst L) \<le> e" using linked_above [OF l(1), of "hd (map fst L)"] by (cases L) auto
  consider "hdr_on b q" | "inner b (hd_or e (map fst L)) q" | "want e L q" using Cons.prems(2) by (auto simp: x)
  then show ?case
  proof cases
    case 3
    then have "L \<noteq> []" "hd (map fst L) < 4096 * q + 4096" "4096 * q < e" using Cons.IH l(1) by auto
    then show ?thesis using l(2) by (cases L) (auto simp: x)
  qed (use l e in \<open>auto simp: x hdr_on_def inner_def\<close>)
qed simp

text \<open>The page that holds the end of a buffer's data is needed by what follows.\<close>

lemma want_end:
  assumes "4096 dvd e" "hd_or e (map fst L) < 4096 * q + 4096" "4096 * q < hd_or e (map fst L)"
  shows "want e L q"
proof (cases L)
  case Nil
  obtain k where "e = 4096 * k" using assms(1) by auto
  then show ?thesis using assms Nil by simp
next
  case (Cons x L')
  then show ?thesis using assms by (cases x) (auto simp: hdr_on_def)
qed

lemma linked_fst:
  assumes "linked e (map fst (L1 @ (b, f) # L2))"
  shows "b + 40 \<le> hd_or e (map fst L2)" "linked b (map fst L1)" "linked e (map fst L2)"
  using assms by (auto simp: linked_append linked_Cons)

lemma want_left:
  assumes "linked b (map fst L1)" "want b L1 q"
  shows "4096 * q < b"
  using want_range [OF assms] by simp

lemma want_right:
  assumes "linked e (map fst L)" "want e L q"
  shows "hd_or e (map fst L) < 4096 * q + 4096"
  using want_range [OF assms] assms(2) by (cases L) auto

text \<open>Within a free buffer no page is there; taking it adds the pages of its data.\<close>

lemma want_free_absent:
  assumes "linked e (map fst (L1 @ (b, True) # L2))" "inner b (hd_or e (map fst L2)) q"
  shows "\<not> want e (L1 @ (b, True) # L2) q"
  using want_left [OF linked_fst(2) [OF assms(1)], of q] want_right [OF linked_fst(3) [OF assms(1)], of q] assms(2)
  by (auto simp: want_append inner_def hdr_on_def)

lemma want_take:
  assumes "linked e (map fst (L1 @ (b, True) # L2))"
  shows "want e (L1 @ (b, False) # L2) q \<longleftrightarrow> want e (L1 @ (b, True) # L2) q \<or> inner b (hd_or e (map fst L2)) q"
  by (auto simp: want_append)

lemma want_release:
  assumes "linked e (map fst (L1 @ (b, True) # L2))"
  shows "want e (L1 @ (b, True) # L2) q \<longleftrightarrow> want e (L1 @ (b, False) # L2) q \<and> \<not> inner b (hd_or e (map fst L2)) q"
  using want_take [OF assms, of q] want_free_absent [OF assms, of q] by blast

lemma want_split:
  assumes "linked e (map fst (L1 @ (b, True) # L2))" "4096 dvd e" "b + 40 \<le> n" "n + 40 \<le> hd_or e (map fst L2)"
  shows "want e (L1 @ (b, False) # (n, True) # L2) q \<longleftrightarrow>
    want e (L1 @ (b, True) # L2) q \<or> b + 40 \<le> 4096 * q \<and> 4096 * q < n + 40 \<and> 4096 * q + 4096 \<le> hd_or e (map fst L2)"
    (is "?l \<longleftrightarrow> ?r")
proof
  assume ?l
  then consider "want b L1 q" | "hdr_on b q" | "inner b n q" | "hdr_on n q" | "want e L2 q"
    by (auto simp: want_append)
  then show ?r
  proof cases
    case 4
    show ?thesis
    proof (cases "hd_or e (map fst L2) < 4096 * q + 4096")
      case True
      then have "want e L2 q" using 4 assms(4) by (intro want_end [OF assms(2)]) (auto simp: hdr_on_def)
      then show ?thesis by (simp add: want_append)
    next
      case False
      then show ?thesis using 4 assms(3) by (auto simp: want_append hdr_on_def)
    qed
  qed (use assms(3,4) in \<open>auto simp: want_append inner_def\<close>)
next
  assume ?r
  then show ?l using assms(3,4) by (auto simp: want_append hdr_on_def inner_def)
qed

text \<open>Removing a free header: its pages go, except those a neighbour's header shares.\<close>

lemma want_merge:
  assumes "linked e (map fst (L1 @ (a, True) # (b, True) # L2))"
  shows "want e (L1 @ (a, True) # L2) q \<longleftrightarrow>
    want e (L1 @ (a, True) # (b, True) # L2) q \<and>
      \<not> (hdr_on b q \<and> a + 40 \<le> 4096 * q \<and> (L2 = [] \<or> 4096 * q + 4096 \<le> hd (map fst L2)))"
proof -
  have l: "a + 40 \<le> b" "b + 40 \<le> hd_or e (map fst L2)" "linked a (map fst L1)" "linked e (map fst L2)"
    using assms by (auto simp: linked_append linked_Cons)
  have L2: "L2 \<noteq> [] \<Longrightarrow> hd_or e (map fst L2) = hd (map fst L2) \<and> (hdr_on (hd (map fst L2)) q \<longrightarrow> want e L2 q)"
    by (cases L2) auto
  have w1: "want a L1 q \<Longrightarrow> 4096 * q < a" using want_left [OF l(3)] .
  have w2: "want e L2 q \<Longrightarrow> hd (map fst L2) < 4096 * q + 4096 \<and> L2 \<noteq> []" using want_range [OF l(4)] by (cases L2) auto
  have "hdr_on b q \<Longrightarrow> \<not> (a + 40 \<le> 4096 * q \<and> (L2 = [] \<or> 4096 * q + 4096 \<le> hd (map fst L2))) \<Longrightarrow>
      hdr_on a q \<or> want e L2 q"
    using l L2 by (auto simp: hdr_on_def not_le)
  moreover have "hdr_on a q \<Longrightarrow> \<not> a + 40 \<le> 4096 * q" by (simp add: hdr_on_def)
  ultimately show ?thesis using w1 w2 l(1) by (auto simp: want_append)
qed

section \<open>Inserting into the trees\<close>

lemma link_free_path:
  "link_free st new sz t = Some t' \<Longrightarrow> \<exists>p. plug t q = plug Leaf (p @ q) \<and> plug t' q = plug (Node Leaf (new, Red) Leaf) (p @ q)"
proof (induction t arbitrary: t' q rule: rbt_induct)
  case (Node l b c r)
  show ?case
  proof (cases "sz < binder_buffer_size st b")
    case True
    then obtain l' where l': "link_free st new sz l = Some l'" "t' = Node l' (b, c) r" using Node.prems by (auto split: if_splits)
    obtain p where "plug l (LStep b c r # q) = plug Leaf (p @ LStep b c r # q)"
      "plug l' (LStep b c r # q) = plug (Node Leaf (new, Red) Leaf) (p @ LStep b c r # q)" using Node.IH(1) [OF l'(1)] by blast
    then show ?thesis using l'(2) by (intro exI [of _ "p @ [LStep b c r]"]) simp
  next
    case False
    then obtain r' where r': "link_free st new sz r = Some r'" "t' = Node l (b, c) r'" using Node.prems by (auto split: if_splits)
    obtain p where "plug r (RStep l b c # q) = plug Leaf (p @ RStep l b c # q)"
      "plug r' (RStep l b c # q) = plug (Node Leaf (new, Red) Leaf) (p @ RStep l b c # q)" using Node.IH(2) [OF r'(1)] by blast
    then show ?thesis using r'(2) by (intro exI [of _ "p @ [RStep l b c]"]) simp
  qed
qed (auto intro: exI [of _ "[]"])

lemma link_allocated_path:
  "link_allocated st new t = Some t' \<Longrightarrow> \<exists>p. plug t q = plug Leaf (p @ q) \<and> plug t' q = plug (Node Leaf (new, Red) Leaf) (p @ q)"
proof (induction t arbitrary: t' q rule: rbt_induct)
  case (Node l b c r)
  show ?case
  proof (cases "new < b")
    case True
    then obtain l' where l': "link_allocated st new l = Some l'" "t' = Node l' (b, c) r" using Node.prems by (auto split: if_splits)
    obtain p where "plug l (LStep b c r # q) = plug Leaf (p @ LStep b c r # q)"
      "plug l' (LStep b c r # q) = plug (Node Leaf (new, Red) Leaf) (p @ LStep b c r # q)" using Node.IH(1) [OF l'(1)] by blast
    then show ?thesis using l'(2) by (intro exI [of _ "p @ [LStep b c r]"]) simp
  next
    case False
    then obtain r' where r': "link_allocated st new r = Some r'" "t' = Node l (b, c) r'" using Node.prems by (auto split: if_splits)
    obtain p where "plug r (RStep l b c # q) = plug Leaf (p @ RStep l b c # q)"
      "plug r' (RStep l b c # q) = plug (Node Leaf (new, Red) Leaf) (p @ RStep l b c # q)" using Node.IH(2) [OF r'(1)] by blast
    then show ?thesis using r'(2) by (intro exI [of _ "p @ [RStep l b c]"]) simp
  qed
qed (auto intro: exI [of _ "[]"])

lemma insert_color_leaf:
  assumes "rbt t" "t = plug Leaf p" "t' = plug (Node Leaf (a, Red) Leaf) p" "a \<notin> set (keys t)"
  shows "rbt (tree_insert_color a t')"
  using assms by (auto intro!: tree_insert_color_rbt simp: locate_plug)

definition size_le :: "binder_space \<Rightarrow> nat \<Rightarrow> nat \<Rightarrow> bool" where
  "size_le st b c \<longleftrightarrow> binder_buffer_size st b \<le> binder_buffer_size st c"

definition free_tree :: "binder_space \<Rightarrow> nat rbt \<Rightarrow> nat set \<Rightarrow> bool" where
  "free_tree st t F \<longleftrightarrow> rbt t \<and> distinct (keys t) \<and> set (keys t) = F \<and> sorted_wrt (size_le st) (keys t)"

definition alloc_tree :: "nat rbt \<Rightarrow> nat set \<Rightarrow> bool" where
  "alloc_tree t A \<longleftrightarrow> rbt t \<and> sorted_wrt (<) (keys t) \<and> set (keys t) = A"

lemma insert_free_ok:
  assumes "free_tree st (free_buffers st) F" "\<forall>b \<in> F. buf_free (headers st b)" "buf_free (headers st new)" "new \<notin> F"
  shows "\<exists>t. binder_insert_free_buffer new st = Some (st\<lparr>free_buffers := t\<rparr>) \<and> free_tree st t (insert new F)"
proof -
  let ?t = "free_buffers st" and ?sz = "binder_buffer_size st new"
  have f: "rbt ?t" "distinct (keys ?t)" "set (keys ?t) = F" "sorted_wrt (size_le st) (keys ?t)"
    using assms(1) by (auto simp: free_tree_def)
  obtain t' xs ys where t': "link_free st new ?sz ?t = Some t'" "keys ?t = xs @ ys" "keys t' = xs @ new # ys"
    "\<forall>x \<in> set xs. binder_buffer_size st x \<le> ?sz" "\<forall>y \<in> set ys. ?sz < binder_buffer_size st y"
    using link_free_ok [of ?t st new ?sz] assms(2) f(3,4) unfolding size_le_def by blast
  obtain p where p: "?t = plug Leaf p" "t' = plug (Node Leaf (new, Red) Leaf) p"
    using link_free_path [OF t'(1), of "[]"] by auto
  have "sorted_wrt (size_le st) (xs @ new # ys)"
    using f(4) t'(2,4,5) by (auto simp: sorted_wrt_append size_le_def less_imp_le)
  then have "free_tree st (tree_insert_color new t') (insert new F)"
    using f t'(2,3) assms(4) insert_color_leaf [OF f(1) p] by (auto simp: free_tree_def)
  then show ?thesis using assms(3) t'(1) by (auto simp: binder_insert_free_buffer_def)
qed

lemma insert_allocated_ok:
  assumes "alloc_tree (allocated_buffers st) A" "\<forall>b \<in> A. \<not> buf_free (headers st b)" "\<not> buf_free (headers st new)" "new \<notin> A"
  shows "\<exists>t. binder_insert_allocated_buffer new st = Some (st\<lparr>allocated_buffers := t\<rparr>) \<and> alloc_tree t (insert new A)"
proof -
  let ?t = "allocated_buffers st"
  have f: "rbt ?t" "sorted_wrt (<) (keys ?t)" "set (keys ?t) = A" using assms(1) by (auto simp: alloc_tree_def)
  obtain t' where t': "link_allocated st new ?t = Some t'" "sorted_wrt (<) (keys t')" "set (keys t') = insert new A"
    using link_allocated_ok [of ?t st new] assms(2,4) f(2,3) by auto
  obtain p where p: "?t = plug Leaf p" "t' = plug (Node Leaf (new, Red) Leaf) p"
    using link_allocated_path [OF t'(1), of "[]"] by auto
  have "alloc_tree (tree_insert_color new t') (insert new A)"
    using t'(2,3) f(3) assms(4) insert_color_leaf [OF f(1) p] by (simp add: alloc_tree_def)
  then show ?thesis using assms(3) t'(1) by (auto simp: binder_insert_allocated_buffer_def)
qed

lemma erase_free_ok: "free_tree st t F \<Longrightarrow> free_tree st (tree_erase b t) (F - {b})"
  by (auto simp: free_tree_def tree_erase_rbt keys_tree_erase distinct_removeAll removeAll_filter_not_eq sorted_wrt_filter)

lemma erase_alloc_ok: "alloc_tree t A \<Longrightarrow> alloc_tree (tree_erase b t) (A - {b})"
  using keys_tree_erase [of t b] strict_sorted_iff [of "keys t"] sorted_wrt_filter [of "(<)" "keys t"]
  by (auto simp: alloc_tree_def tree_erase_rbt removeAll_filter_not_eq)

text \<open>The tree of free buffers only depends on their sizes.\<close>

lemma free_tree_cong:
  assumes "free_tree st t F" "\<And>b. b \<in> F \<Longrightarrow> binder_buffer_size st' b = binder_buffer_size st b"
  shows "free_tree st' t F"
proof -
  have "sorted_wrt (size_le st') (keys t)"
    by (rule sorted_wrt_mono_rel [of "keys t" "size_le st"]) (use assms in \<open>auto simp: free_tree_def size_le_def\<close>)
  then show ?thesis using assms(1) by (simp add: free_tree_def)
qed

section \<open>The invariant\<close>

text \<open>Page ranges by page number, the region starting at page \<open>B\<close>.\<close>

lemma free_pages:
  assumes "proc_buffer st = 4096 * B" "B \<le> i" "\<forall>q \<in> {i..<j}. pages st (q - B)"
  shows "\<exists>ret. binder_update_page_range env mm False (4096 * i) (4096 * j) vma st =
    Some (st\<lparr>pages := \<lambda>p. pages st p \<and> p + B \<notin> {i..<j}\<rparr>, ret)"
proof (cases "i < j")
  case True
  have e: "4096 * i = proc_buffer st + 4096 * (i - B)" "4096 * j = proc_buffer st + 4096 * (j - B)"
    using assms(1,2) True by (simp_all add: algebra_simps)
  have "\<forall>p \<in> {i - B..<j - B}. pages st p"
  proof
    fix p assume "p \<in> {i - B..<j - B}"
    then show "pages st p" using assms(3) [THEN bspec, of "p + B"] by (auto simp: le_diff_conv less_diff_conv)
  qed
  then have "free_range (proc_buffer st) (proc_buffer st + 4096 * (i - B)) (proc_buffer st + 4096 * (j - B)) (pages st) =
      Some (\<lambda>p. pages st p \<and> p \<notin> {i - B..<j - B})"
    using assms(2) True by (intro free_range_ok) auto
  moreover have "(\<lambda>p. pages st p \<and> p \<notin> {i - B..<j - B}) = (\<lambda>p. pages st p \<and> p + B \<notin> {i..<j})"
    using assms(2) True by (auto simp: fun_eq_iff)
  ultimately show ?thesis using True by (simp add: binder_update_page_range_def flip: e)
qed (simp add: binder_update_page_range_def)

lemma alloc_pages:
  assumes "proc_buffer st = 4096 * B" "B \<le> i" "\<forall>q \<in> {i..<j}. \<not> pages st (q - B)"
  shows "binder_update_page_range env mm True (4096 * i) (4096 * j) vma st = Some (st\<lparr>pages := \<lambda>p. pages st p \<or> p + B \<in> {i..<j}\<rparr>, 0) \<or>
    binder_update_page_range env mm True (4096 * i) (4096 * j) vma st = Some (st, - ENOMEM)"
proof (cases "i < j")
  case True
  have e: "4096 * i = proc_buffer st + 4096 * (i - B)" "4096 * j = proc_buffer st + 4096 * (j - B)"
    using assms(1,2) True by (simp_all add: algebra_simps)
  have "\<forall>p \<in> {i - B..<j - B}. \<not> pages st p"
  proof
    fix p assume "p \<in> {i - B..<j - B}"
    then show "\<not> pages st p" using assms(3) [THEN bspec, of "p + B"] by (auto simp: le_diff_conv less_diff_conv)
  qed
  then have "alloc_range env (proc_buffer st) (proc_buffer st + 4096 * (i - B)) (proc_buffer st + 4096 * (i - B))
        (proc_buffer st + 4096 * (j - B)) (pages st) = Some (\<lambda>p. pages st p \<or> p \<in> {i - B..<j - B}, 0) \<or>
      alloc_range env (proc_buffer st) (proc_buffer st + 4096 * (i - B)) (proc_buffer st + 4096 * (i - B))
        (proc_buffer st + 4096 * (j - B)) (pages st) = Some (pages st, - ENOMEM)"
    using alloc_range_ok [of "i - B" "i - B" "j - B" "pages st" env "proc_buffer st"] True by auto
  moreover have "(\<lambda>p. pages st p \<or> p \<in> {i - B..<j - B}) = (\<lambda>p. pages st p \<or> p + B \<in> {i..<j})"
    using assms(2) True by (auto simp: fun_eq_iff)
  ultimately show ?thesis using True by (auto simp: binder_update_page_range_def simp flip: e)
qed (simp add: binder_update_page_range_def)

text \<open>The page numbers from the rounded start to the rounded end are those inside.\<close>

lemma page_range_inner: "q \<in> {(x + 4095) div 4096..<y div 4096} \<longleftrightarrow> x \<le> 4096 * q \<and> 4096 * q + 4096 \<le> (y :: nat)"
proof -
  have "(x + 4095) div 4096 \<le> q \<longleftrightarrow> x + 4095 < 4096 * (q + 1)" by (simp add: div_less_iff_less_mult mult.commute flip: less_Suc_eq_le)
  moreover have "q < y div 4096 \<longleftrightarrow> (q + 1) * 4096 \<le> y" by (simp add: less_eq_div_iff_mult_less_eq flip: Suc_le_eq)
  ultimately show ?thesis by auto
qed

definition blocks :: "binder_space \<Rightarrow> (nat \<times> bool) list" where
  "blocks st = map (\<lambda>b. (b, buf_free (headers st b))) (buffers st)"

text \<open>No two free buffers are neighbours.\<close>

definition calm :: "(nat \<times> bool) list \<Rightarrow> bool" where
  "calm L \<longleftrightarrow> successively (\<lambda>x y. \<not> (snd x \<and> snd y)) L"

lemma calm_append: "calm (L1 @ L2) \<longleftrightarrow> calm L1 \<and> calm L2 \<and> (L1 \<noteq> [] \<and> L2 \<noteq> [] \<longrightarrow> \<not> (snd (last L1) \<and> snd (hd L2)))"
  by (auto simp: calm_def successively_append_iff)

lemma calm_Cons: "calm (x # L) \<longleftrightarrow> calm L \<and> (L \<noteq> [] \<longrightarrow> \<not> (snd x \<and> snd (hd L)))"
  using calm_append [of "[x]" L] by (simp add: calm_def)

text \<open>The region: page aligned, at most 4 MB, below the end of the address space, tiled by the buffers.\<close>

definition placed :: "binder_space \<Rightarrow> bool" where
  "placed st \<longleftrightarrow> 0 < proc_buffer st \<and> 4096 dvd proc_buffer st \<and> 4096 dvd buffer_size st \<and> buffer_size st \<le> 0x400000 \<and>
     region_end st < 2 ^ 32 \<and> (\<exists>bs. buffers st = proc_buffer st # bs) \<and> linked (region_end st) (buffers st)"

definition tiled :: "binder_space \<Rightarrow> bool" where
  "tiled st \<longleftrightarrow> placed st \<and> calm (blocks st)"

definition trees_ok :: "binder_space \<Rightarrow> bool" where
  "trees_ok st \<longleftrightarrow> free_tree st (free_buffers st) {b \<in> set (buffers st). buf_free (headers st b)} \<and>
     alloc_tree (allocated_buffers st) {b \<in> set (buffers st). \<not> buf_free (headers st b)}"

definition pages_ok :: "binder_space \<Rightarrow> bool" where
  "pages_ok st \<longleftrightarrow> (\<forall>p. pages st p \<longleftrightarrow> want (region_end st) (blocks st) (p + proc_buffer st div 4096))"

definition used_ok :: "binder_space \<Rightarrow> bool" where
  "used_ok st \<longleftrightarrow> (\<forall>b \<in> set (buffers st). \<not> buf_free (headers st b) \<longrightarrow> unat (used_size st b) \<le> binder_buffer_size st b)"

text \<open>What the asynchronous transactions hold, headers included, and the half of the region that is theirs.\<close>

definition async_used :: "binder_space \<Rightarrow> nat" where
  "async_used st = (\<Sum>b | b \<in> set (buffers st) \<and> \<not> buf_free (headers st b) \<and> async_transaction (headers st b).
     unat (used_size st b) + 40)"

definition budget :: "binder_space \<Rightarrow> bool" where
  "budget st \<longleftrightarrow> unat (free_async_space st) + async_used st = buffer_size st div 2"

definition alloc_inv :: "binder_space \<Rightarrow> bool" where
  "alloc_inv st \<longleftrightarrow> tiled st \<and> trees_ok st \<and> pages_ok st \<and> used_ok st \<and> budget st"

section \<open>Taking a buffer\<close>

lemma size_cong: "buffers st' = buffers st \<Longrightarrow> region_end st' = region_end st \<Longrightarrow> binder_buffer_size st' = binder_buffer_size st"
  by (simp add: fun_eq_iff binder_buffer_size_bend bend_def)

lemma bend_insert:
  assumes "linked e (xs @ b # n # ys)" "c \<in> set xs \<union> set ys"
  shows "bend_of e (xs @ b # n # ys) c = bend_of e (xs @ b # ys) c"
proof -
  have d: "distinct (xs @ b # n # ys)" using linked_distinct [OF assms(1)] .
  show ?thesis
  proof (cases "c \<in> set xs")
    case True
    then show ?thesis by (simp add: bend_of_left)
  next
    case False
    then have "c \<noteq> b" "c \<noteq> n" using assms(2) d by auto
    then show ?thesis using False by (simp add: bend_of_right)
  qed
qed

lemma size_insert:
  assumes "linked (region_end st) (xs @ b # n # ys)" "region_end st' = region_end st" "c \<in> set xs \<union> set ys"
    "buffers st = xs @ b # ys" "buffers st' = xs @ b # n # ys"
  shows "binder_buffer_size st' c = binder_buffer_size st c"
  using bend_insert [OF assms(1,3)] by (simp add: binder_buffer_size_bend bend_def assms(2,4,5))

lemma blocks_fst [simp]: "map fst (blocks st) = buffers st"
  by (simp add: blocks_def o_def)

definition marks :: "binder_space \<Rightarrow> nat list \<Rightarrow> (nat \<times> bool) list" where
  "marks st xs = map (\<lambda>b. (b, buf_free (headers st b))) xs"

lemma marks_simps [simp]:
  "marks st [] = []" "marks st (x # xs) = (x, buf_free (headers st x)) # marks st xs" "marks st (xs @ ys) = marks st xs @ marks st ys"
  "map fst (marks st xs) = xs" "marks st xs = [] \<longleftrightarrow> xs = []"
  by (simp_all add: marks_def o_def)

lemma blocks_marks: "blocks st = marks st (buffers st)"
  by (simp add: blocks_def marks_def)

lemma marks_cong: "(\<And>c. c \<in> set xs \<Longrightarrow> buf_free (headers st' c) = buf_free (headers st c)) \<Longrightarrow> marks st' xs = marks st xs"
  by (simp add: marks_def)

text \<open>The pages \<open>take_buffer\<close> asks for.\<close>

definition take_range :: "nat \<Rightarrow> nat \<Rightarrow> nat \<Rightarrow> nat \<times> nat" where
  "take_range b sz e =
     ((b + 40 + 4095) div 4096,
      if b + 40 + sz + 44 < e then min ((b + 40 + sz + 40 + 4095) div 4096) (e div 4096) else e div 4096)"

lemma take_range_mem:
  assumes "take_range b sz e = (i, j)"
  shows "q \<in> {i..<j} \<longleftrightarrow> (if b + 40 + sz + 44 < e
    then b + 40 \<le> 4096 * q \<and> 4096 * q < b + 40 + sz + 40 \<and> 4096 * q + 4096 \<le> e else inner b e q)"
proof (cases "b + 40 + sz + 44 < e")
  case True
  have "q < (b + 40 + sz + 40 + 4095) div 4096 \<longleftrightarrow> 4096 * q < b + 40 + sz + 40"
    by (simp add: less_eq_div_iff_mult_less_eq mult.commute flip: Suc_le_eq)
  then show ?thesis using assms True page_range_inner [of q "b + 40" e] by (auto simp: take_range_def)
next
  case False
  then show ?thesis using assms page_range_inner [of q "b + 40" e] by (auto simp: take_range_def inner_def)
qed

lemma take_range_code:
  assumes "sz \<le> bsz" "exact \<longleftrightarrow> bsz = sz"
  defines "bsz' \<equiv> (if exact then bsz else if sz + 40 + 4 \<ge> bsz then sz else sz + 40)"
  shows "(page_up (b + 40), min (page_up (b + 40 + bsz')) (page_down (b + 40 + bsz))) =
    (case take_range b sz (b + 40 + bsz) of (i, j) \<Rightarrow> (4096 * i, 4096 * j))"
    "bsz' \<noteq> sz \<longleftrightarrow> sz + 44 < bsz"
proof -
  show s: "bsz' \<noteq> sz \<longleftrightarrow> sz + 44 < bsz" using assms by auto
  show "(page_up (b + 40), min (page_up (b + 40 + bsz')) (page_down (b + 40 + bsz))) =
    (case take_range b sz (b + 40 + bsz) of (i, j) \<Rightarrow> (4096 * i, 4096 * j))"
  proof (cases "sz + 44 < bsz")
    case True
    then have "bsz' = sz + 40" using assms by auto
    then show ?thesis using True by (simp add: take_range_def min_mult_distrib_right mult.commute)
  next
    case False
    then have b: "bsz' = sz" "bsz \<le> sz + 44" using s by auto
    then have "(b + 40 + bsz) div 4096 \<le> (b + 40 + sz + 4095) div 4096" by (intro div_le_mono) simp
    then show ?thesis using False b by (simp add: take_range_def mult.commute min_def)
  qed
qed

text \<open>What stays when buffers are taken and given back.\<close>

definition frame :: "binder_space \<Rightarrow> binder_space \<Rightarrow> bool" where
  "frame st st' \<longleftrightarrow> proc_buffer st' = proc_buffer st \<and> buffer_size st' = buffer_size st \<and> proc_vma st' = proc_vma st \<and>
     user_buffer_offset st' = user_buffer_offset st"

lemma frame_end: "frame st st' \<Longrightarrow> region_end st' = region_end st"
  by (simp add: frame_def region_end_def)

lemma placedI:
  assumes "placed st" "frame st st'" "buffers st' = proc_buffer st # bs" "linked (region_end st) (buffers st')"
  shows "placed st'"
  using assms by (auto simp: placed_def frame_end) (auto simp: frame_def)

lemma tiledI:
  assumes "tiled st" "frame st st'" "buffers st' = proc_buffer st # bs" "linked (region_end st) (buffers st')" "calm (blocks st')"
  shows "tiled st'"
  using assms by (auto simp: tiled_def placed_def frame_end) (auto simp: frame_def)

text \<open>A free buffer \<open>b\<close> in the list of buffers: what the invariant says around it.\<close>

lemma placed_at:
  assumes "placed st" "buffers st = xs @ b # ys"
  shows "linked (region_end st) (xs @ b # ys)" "b + 40 \<le> bend st b" "bend st b = hd_or (region_end st) ys" "bend st b \<le> region_end st"
    "proc_buffer st \<le> b" "4096 dvd region_end st" "\<And>c. c \<in> set xs \<Longrightarrow> c + 40 \<le> b" "\<And>c. c \<in> set ys \<Longrightarrow> bend st b \<le> c"
    "binder_buffer_size st b = bend st b - (b + 40)" "b \<notin> set xs" "b \<notin> set ys" "distinct (xs @ b # ys)"
proof -
  show l: "linked (region_end st) (xs @ b # ys)" using assms by (simp add: placed_def)
  have l': "linked (region_end st) (buffers st)" using assms by (simp add: placed_def)
  show e: "bend st b = hd_or (region_end st) ys" using bend_split(1) [OF assms(2) l'] .
  show "b + 40 \<le> bend st b" "bend st b \<le> region_end st" "\<And>c. c \<in> set ys \<Longrightarrow> bend st b \<le> c" "\<And>c. c \<in> set xs \<Longrightarrow> c + 40 \<le> b"
    "b \<notin> set xs" "b \<notin> set ys" "distinct (xs @ b # ys)"
    using linked_split [OF l] by (simp_all add: e)
  show "binder_buffer_size st b = bend st b - (b + 40)" by (rule binder_buffer_size_bend)
  obtain bs where "buffers st = proc_buffer st # bs" using assms(1) by (auto simp: placed_def)
  then show "proc_buffer st \<le> b" using linked_above [OF l'] assms(2) by (metis in_set_conv_decomp list.sel(1))
  show "4096 dvd region_end st" using assms(1) by (auto simp: placed_def region_end_def)
qed

lemma tiled_placed: "tiled st \<Longrightarrow> placed st"
  by (simp add: tiled_def)

lemmas tiled_at = placed_at [OF tiled_placed]

lemma take_pages:
  assumes inv: "tiled st" "pages_ok st" and b: "buffers st = xs @ b # ys" "buf_free (headers st b)"
    and r: "take_range b sz (bend st b) = (i, j)"
  shows "binder_update_page_range env mm True (4096 * i) (4096 * j) False st =
      Some (st\<lparr>pages := \<lambda>p. pages st p \<or> p + proc_buffer st div 4096 \<in> {i..<j}\<rparr>, 0) \<or>
    binder_update_page_range env mm True (4096 * i) (4096 * j) False st = Some (st, - ENOMEM)"
proof (rule alloc_pages)
  note t = tiled_at [OF inv(1) b(1)]
  show base: "proc_buffer st = 4096 * (proc_buffer st div 4096)" using inv(1) by (simp add: tiled_def placed_def)
  have "proc_buffer st \<le> b + 40 + 4095" using t(5) by simp
  then have "proc_buffer st div 4096 \<le> (b + 40 + 4095) div 4096" by (rule div_le_mono)
  then show i: "proc_buffer st div 4096 \<le> i" using r by (auto simp: take_range_def split: if_splits)
  have bl: "blocks st = marks st xs @ (b, True) # marks st ys" using b by (simp add: blocks_marks)
  show "\<forall>q \<in> {i..<j}. \<not> pages st (q - proc_buffer st div 4096)"
  proof
    fix q assume q: "q \<in> {i..<j}"
    then have "inner b (bend st b) q" using take_range_mem [OF r, of q] by (auto simp: inner_def split: if_splits)
    then have "\<not> want (region_end st) (blocks st) q"
      unfolding bl using t(1,3) by (intro want_free_absent) simp_all
    then show "\<not> pages st (q - proc_buffer st div 4096)" using inv(2) q i by (simp add: pages_ok_def)
  qed
qed

text \<open>The state after a successful \<open>take_buffer\<close>, and that it satisfies the invariant again.\<close>

definition taken :: "nat \<Rightarrow> nat \<Rightarrow> binder_space \<Rightarrow> binder_space \<Rightarrow> bool" where
  "taken b sz st st' \<longleftrightarrow> frame st st' \<and> free_async_space st' = free_async_space st \<and>
     tiled st' \<and> trees_ok st' \<and> pages_ok st' \<and> sz \<le> binder_buffer_size st' b \<and>
     (let n = b + 40 + sz in
      if sz + 44 < binder_buffer_size st b
      then n \<notin> set (buffers st) \<and> buffers st' = list_add n b (buffers st) \<and>
        headers st' = (headers st)(b := (headers st b)\<lparr>buf_free := False\<rparr>, n := (headers st n)\<lparr>buf_free := True\<rparr>)
      else buffers st' = buffers st \<and> headers st' = (headers st)(b := (headers st b)\<lparr>buf_free := False\<rparr>))"

lemma taken_whole:
  assumes inv: "tiled st" "trees_ok st" "pages_ok st" and b: "buffers st = xs @ b # ys" "buf_free (headers st b)"
    and sz: "sz \<le> binder_buffer_size st b" "\<not> sz + 44 < binder_buffer_size st b" and r: "take_range b sz (bend st b) = (i, j)"
  defines "st1 \<equiv> set_header b (\<lambda>h. h\<lparr>buf_free := False\<rparr>)
      (st\<lparr>pages := \<lambda>p. pages st p \<or> p + proc_buffer st div 4096 \<in> {i..<j}, free_buffers := tree_erase b (free_buffers st)\<rparr>)"
  shows "\<exists>ta. binder_insert_allocated_buffer b st1 = Some (st1\<lparr>allocated_buffers := ta\<rparr>) \<and> taken b sz st (st1\<lparr>allocated_buffers := ta\<rparr>)"
proof -
  define A where "A = {c \<in> set (buffers st). \<not> buf_free (headers st c)}"
  define F where "F = {c \<in> set (buffers st). buf_free (headers st c)}"
  note t = tiled_at [OF inv(1) b(1)]
  have h1: "headers st1 = (headers st)(b := (headers st b)\<lparr>buf_free := False\<rparr>)" "buffers st1 = buffers st" "frame st st1"
    "allocated_buffers st1 = allocated_buffers st" "free_buffers st1 = tree_erase b (free_buffers st)" "free_async_space st1 = free_async_space st"
    by (simp_all add: st1_def set_header_def frame_def)
  have "\<exists>t. binder_insert_allocated_buffer b st1 = Some (st1\<lparr>allocated_buffers := t\<rparr>) \<and> alloc_tree t (insert b A)"
    by (rule insert_allocated_ok) (use inv(2) b(2) in \<open>auto simp: h1 trees_ok_def A_def\<close>)
  then obtain ta where ta: "binder_insert_allocated_buffer b st1 = Some (st1\<lparr>allocated_buffers := ta\<rparr>)" "alloc_tree ta (insert b A)"
    by blast
  define st2 where "st2 = st1\<lparr>allocated_buffers := ta\<rparr>"
  have f2: "frame st st2" and h2: "headers st2 = headers st1" "buffers st2 = buffers st" "free_buffers st2 = tree_erase b (free_buffers st)"
    "allocated_buffers st2 = ta" using h1 by (simp_all add: st2_def frame_def)
  have sz2: "binder_buffer_size st2 = binder_buffer_size st" using size_cong [OF h2(2) frame_end [OF f2]] .
  have m: "marks st2 xs = marks st xs" "marks st2 ys = marks st ys" using t(10,11) by (auto intro!: marks_cong simp: h2 h1 split: if_splits)
  have bl: "blocks st = marks st xs @ (b, True) # marks st ys" "blocks st2 = marks st xs @ (b, False) # marks st ys"
    using b m by (simp_all add: blocks_marks h2 h1)
  have bs: "b \<in> set (buffers st)" using b by simp
  have "{c \<in> set (buffers st2). buf_free (headers st2 c)} = F - {b}" "{c \<in> set (buffers st2). \<not> buf_free (headers st2 c)} = insert b A"
    using bs by (auto simp: h2 h1 F_def A_def split: if_splits)
  moreover have "free_tree st (tree_erase b (free_buffers st)) (F - {b})" using erase_free_ok inv(2) by (auto simp: trees_ok_def F_def)
  ultimately have tr: "trees_ok st2" using ta(2) free_tree_cong [of st _ "F - {b}" st2] by (simp add: trees_ok_def h2 sz2)
  have ti: "tiled st2"
  proof -
    obtain bs where "buffers st = proc_buffer st # bs" using inv(1) by (auto simp: tiled_def placed_def)
    moreover have "calm (blocks st2)" using inv(1) by (auto simp: tiled_def placed_def bl calm_append calm_Cons)
    ultimately show ?thesis using inv(1) f2 by (intro tiledI [OF inv(1) f2, of bs]) (simp_all add: h2 tiled_def placed_def)
  qed
  have "pages_ok st2"
  proof -
    have "\<not> b + 40 + sz + 44 < bend st b" using sz t(2,9) by auto
    then have "q \<in> {i..<j} \<longleftrightarrow> inner b (bend st b) q" for q using take_range_mem [OF r, of q] by simp
    moreover have "pages st2 = (\<lambda>p. pages st p \<or> p + proc_buffer st div 4096 \<in> {i..<j})" by (simp add: st2_def st1_def set_header_def)
    moreover have "linked (region_end st) (map fst (marks st xs @ (b, True) # marks st ys))" using t(1) by simp
    note want_take [OF this]
    ultimately show ?thesis using inv(3) f2 t(3) by (simp add: pages_ok_def bl frame_end) (simp add: frame_def)
  qed
  moreover have "free_async_space st2 = free_async_space st" by (simp add: st2_def h1)
  ultimately have "taken b sz st st2" using tr ti f2 sz by (simp add: taken_def sz2 h2 h1)
  then show ?thesis using ta(1) by (auto simp: st2_def)
qed

lemma taken_split:
  assumes inv: "tiled st" "trees_ok st" "pages_ok st" and b: "buffers st = xs @ b # ys" "buf_free (headers st b)"
    and sz: "sz + 44 < binder_buffer_size st b" and r: "take_range b sz (bend st b) = (i, j)"
  defines "n \<equiv> b + 40 + sz"
  defines "st1 \<equiv> set_header b (\<lambda>h. h\<lparr>buf_free := False\<rparr>)
      (st\<lparr>pages := \<lambda>p. pages st p \<or> p + proc_buffer st div 4096 \<in> {i..<j}, free_buffers := tree_erase b (free_buffers st)\<rparr>)"
  shows "\<exists>ta tf. binder_insert_allocated_buffer b st1 = Some (st1\<lparr>allocated_buffers := ta\<rparr>) \<and>
    (let st2 = set_header n (\<lambda>h. h\<lparr>buf_free := True\<rparr>) (st1\<lparr>allocated_buffers := ta, buffers := list_add n b (buffers st)\<rparr>) in
     binder_insert_free_buffer n st2 = Some (st2\<lparr>free_buffers := tf\<rparr>) \<and> taken b sz st (st2\<lparr>free_buffers := tf\<rparr>))"
proof -
  define A where "A = {c \<in> set (buffers st). \<not> buf_free (headers st c)}"
  define F where "F = {c \<in> set (buffers st). buf_free (headers st c)}"
  note t = tiled_at [OF inv(1) b(1)]
  have nE: "b + 40 \<le> n" "n + 40 \<le> bend st b" "b + 40 + sz + 44 < bend st b" using sz t(2,9) by (simp_all add: n_def)
  have nn: "n \<notin> set xs" "n \<notin> set ys" "n \<noteq> b" "n \<notin> set (buffers st)" using t(7,8) nE b(1) by fastforce+
  have ln: "linked (region_end st) (xs @ b # n # ys)" using t(1,3) nE by (simp add: linked_append linked_Cons)
  have la: "list_add n b (buffers st) = xs @ b # n # ys" using b(1) t(10) by (simp add: list_add_split)
  have h1: "headers st1 = (headers st)(b := (headers st b)\<lparr>buf_free := False\<rparr>)" "frame st st1"
    "allocated_buffers st1 = allocated_buffers st" "free_buffers st1 = tree_erase b (free_buffers st)" "free_async_space st1 = free_async_space st"
    by (simp_all add: st1_def set_header_def frame_def)
  have "\<exists>t. binder_insert_allocated_buffer b st1 = Some (st1\<lparr>allocated_buffers := t\<rparr>) \<and> alloc_tree t (insert b A)"
    by (rule insert_allocated_ok) (use inv(2) b(2) in \<open>auto simp: h1 trees_ok_def A_def\<close>)
  then obtain ta where ta: "binder_insert_allocated_buffer b st1 = Some (st1\<lparr>allocated_buffers := ta\<rparr>)" "alloc_tree ta (insert b A)"
    by blast
  define st2 where "st2 = set_header n (\<lambda>h. h\<lparr>buf_free := True\<rparr>) (st1\<lparr>allocated_buffers := ta, buffers := list_add n b (buffers st)\<rparr>)"
  have h2: "headers st2 = (headers st)(b := (headers st b)\<lparr>buf_free := False\<rparr>, n := (headers st n)\<lparr>buf_free := True\<rparr>)"
    "buffers st2 = xs @ b # n # ys" "free_buffers st2 = tree_erase b (free_buffers st)" and f2: "frame st st2"
    using h1 nn(3) by (simp_all add: st2_def set_header_def la frame_def)
  have s2: "binder_buffer_size st2 c = binder_buffer_size st c" if "c \<in> set xs \<union> set ys" for c
    by (rule size_insert [OF ln frame_end [OF f2] that b(1) h2(2)])
  have Fs: "c \<in> set xs \<union> set ys" if "c \<in> F - {b}" for c using that b(1) by (auto simp: F_def)
  have "free_tree st2 (tree_erase b (free_buffers st)) (F - {b})"
    by (rule free_tree_cong [OF erase_free_ok s2]) (use inv(2) Fs in \<open>auto simp: trees_ok_def F_def\<close>)
  then have "\<exists>t. binder_insert_free_buffer n st2 = Some (st2\<lparr>free_buffers := t\<rparr>) \<and> free_tree st2 t (insert n (F - {b}))"
    by (intro insert_free_ok) (use nn in \<open>auto simp: h2 F_def\<close>)
  then obtain tf where tf: "binder_insert_free_buffer n st2 = Some (st2\<lparr>free_buffers := tf\<rparr>)" "free_tree st2 tf (insert n (F - {b}))"
    by blast
  define st3 where "st3 = st2\<lparr>free_buffers := tf\<rparr>"
  have f3: "frame st st3" and h3: "headers st3 = headers st2" "buffers st3 = buffers st2" "allocated_buffers st3 = ta" "free_buffers st3 = tf"
    and pg: "pages st3 = (\<lambda>p. pages st p \<or> p + proc_buffer st div 4096 \<in> {i..<j})"
    using f2 by (simp_all add: st3_def st2_def set_header_def frame_def st1_def)
  have s3: "binder_buffer_size st3 = binder_buffer_size st2" by (rule size_cong) (use f2 f3 in \<open>simp_all add: h3 frame_end\<close>)
  have m: "marks st3 xs = marks st xs" "marks st3 ys = marks st ys"
    using t(10,11) nn by (auto intro!: marks_cong simp: h3 h2 split: if_splits)
  have bl: "blocks st = marks st xs @ (b, True) # marks st ys" "blocks st3 = marks st xs @ (b, False) # (n, True) # marks st ys"
    using b m nn(3) by (simp_all add: blocks_marks h3 h2)
  have "{c \<in> set (buffers st3). buf_free (headers st3 c)} = insert n (F - {b})"
    "{c \<in> set (buffers st3). \<not> buf_free (headers st3 c)} = insert b A"
    using nn b(1) by (auto simp: h3 h2 F_def A_def split: if_splits)
  then have tr: "trees_ok st3" using ta(2) free_tree_cong [OF tf(2), of st3] by (simp add: trees_ok_def h3 s3)
  have ti: "tiled st3"
  proof -
    obtain bs where "xs @ b # n # ys = proc_buffer st # bs" using inv(1) b(1) by (cases xs) (auto simp: tiled_def placed_def)
    moreover have "calm (blocks st3)" using inv(1) by (auto simp: tiled_def placed_def bl calm_append calm_Cons)
    ultimately show ?thesis using ln by (intro tiledI [OF inv(1) f3, of bs]) (simp_all add: h3 h2)
  qed
  have "pages_ok st3"
  proof -
    have "q \<in> {i..<j} \<longleftrightarrow> b + 40 \<le> 4096 * q \<and> 4096 * q < n + 40 \<and> 4096 * q + 4096 \<le> bend st b" for q
      using take_range_mem [OF r, of q] nE by (simp add: n_def)
    moreover have "linked (region_end st) (map fst (marks st xs @ (b, True) # marks st ys))" using t(1) by simp
    note want_split [OF this t(6) nE(1)]
    ultimately show ?thesis using inv(3) f3 t(3) nE(2) by (simp add: pages_ok_def bl frame_end pg) (simp add: frame_def)
  qed
  moreover have "sz \<le> binder_buffer_size st3 b"
    using t(10) by (simp add: binder_buffer_size_bend bend_def h3 h2 bend_of_split n_def)
  moreover have "free_async_space st3 = free_async_space st" by (simp add: st3_def st2_def set_header_def h1)
  ultimately have "taken b sz st st3" using tr ti f3 sz nn(4) la by (simp add: taken_def h3 h2 Let_def flip: n_def)
  then show ?thesis using ta(1) tf(1) by (auto simp: Let_def st3_def st2_def)
qed

lemma alloc_range_success:
  assumes "alloc_range env base start addr fin pgs = Some (pgs', ret)" "\<forall>i. env i = Page_ok"
  shows "ret = 0"
  using assms
proof (induction env base start addr fin pgs rule: alloc_range.induct)
  case (1 env base start addr fin pgs)
  define i where "i = (addr - base) div 4096"
  show ?case
  proof (cases "fin \<le> addr \<or> pgs i")
    case True
    then show ?thesis using 1(2) by (auto simp: alloc_range.simps [of env base start addr fin pgs] Let_def i_def split: if_splits)
  next
    case False
    then have "alloc_range env base start (addr + 4096) fin (pgs(i := True)) = Some (pgs', ret)"
      using 1(2,3) by (subst (asm) alloc_range.simps) (simp add: Let_def i_def)
    moreover have nf: "\<not> fin \<le> addr" "\<not> pgs i" "env i = Page_ok" using False 1(3) by auto
    ultimately show ?thesis by (intro 1(1) [OF nf(1) i_def nf(2,3) _ 1(3)])
  qed
qed

lemma update_success:
  assumes "\<forall>i. env i = Page_ok" "vma \<or> mm \<and> proc_vma st" "binder_update_page_range env mm True start fin vma st = Some (st', ret)"
  shows "ret = 0"
  using assms alloc_range_success [of env "proc_buffer st" start start fin "pages st"]
  by (auto simp: binder_update_page_range_def Let_def split: if_splits prod.splits)

lemma take_buffer_ok:
  assumes inv: "tiled st" "trees_ok st" "pages_ok st" and b: "b \<in> set (buffers st)" "buf_free (headers st b)"
    and sz: "sz \<le> binder_buffer_size st b" and ex: "exact \<longleftrightarrow> binder_buffer_size st b = sz"
  shows "\<exists>st' ok. take_buffer env mm b sz exact st = Some (st', ok) \<and> (if ok then taken b sz st st' else st' = st) \<and>
    ((\<forall>i. env i = Page_ok) \<and> mm \<and> proc_vma st \<longrightarrow> ok)"
proof -
  obtain xs ys where xs: "buffers st = xs @ b # ys" using b(1) by (auto simp: in_set_conv_decomp)
  note t = tiled_at [OF inv(1) xs]
  define bsz where "bsz = binder_buffer_size st b"
  define bsz' where "bsz' = (if exact then bsz else if sz + 40 + 4 \<ge> bsz then sz else sz + 40)"
  obtain i j where r: "take_range b sz (bend st b) = (i, j)" by (rule prod.exhaust)
  have e: "b + 40 + bsz = bend st b" using t(2,9) by (simp add: bsz_def)
  have code: "page_up (b + 40) = 4096 * i" "min (page_up (b + 40 + bsz')) (page_down (b + 40 + bsz)) = 4096 * j" "bsz' \<noteq> sz \<longleftrightarrow> sz + 44 < bsz"
    using take_range_code(1) [of sz bsz exact b] take_range_code(2) [of sz bsz exact] sz ex r by (simp_all add: bsz_def [symmetric] bsz'_def e)
  define st1 where "st1 = set_header b (\<lambda>h. h\<lparr>buf_free := False\<rparr>)
      (st\<lparr>pages := \<lambda>p. pages st p \<or> p + proc_buffer st div 4096 \<in> {i..<j}, free_buffers := tree_erase b (free_buffers st)\<rparr>)"
  have step: "take_buffer env mm b sz exact st =
     (do { (st, ret) \<leftarrow> binder_update_page_range env mm True (4096 * i) (4096 * j) False st;
        if ret \<noteq> 0 then Some (st, False)
        else do {
          let st = st\<lparr>free_buffers := tree_erase b (free_buffers st)\<rparr>;
          let st = set_header b (\<lambda>h. h\<lparr>buf_free := False\<rparr>) st;
          st \<leftarrow> binder_insert_allocated_buffer b st;
          st \<leftarrow> (if sz + 44 < bsz
                 then (let n = b + 40 + sz;
                           st = st\<lparr>buffers := list_add n b (buffers st)\<rparr>;
                           st = set_header n (\<lambda>h. h\<lparr>buf_free := True\<rparr>) st
                       in binder_insert_free_buffer n st)
                 else Some st);
          Some (st, True) } })"
    unfolding take_buffer_def Let_def bsz_def [symmetric] bsz'_def [symmetric] code by (rule refl)
  consider (ok) "binder_update_page_range env mm True (4096 * i) (4096 * j) False st =
      Some (st\<lparr>pages := \<lambda>p. pages st p \<or> p + proc_buffer st div 4096 \<in> {i..<j}\<rparr>, 0)"
    | (fails) "binder_update_page_range env mm True (4096 * i) (4096 * j) False st = Some (st, - ENOMEM)"
    using take_pages [OF inv(1,3) xs b(2) r] by blast
  then show ?thesis
  proof cases
    case ok
    show ?thesis
    proof (cases "sz + 44 < bsz")
      case True
      obtain ta tf where ta: "binder_insert_allocated_buffer b st1 = Some (st1\<lparr>allocated_buffers := ta\<rparr>)"
        and tf: "let st2 = set_header (b + 40 + sz) (\<lambda>h. h\<lparr>buf_free := True\<rparr>) (st1\<lparr>allocated_buffers := ta, buffers := list_add (b + 40 + sz) b (buffers st)\<rparr>) in
          binder_insert_free_buffer (b + 40 + sz) st2 = Some (st2\<lparr>free_buffers := tf\<rparr>) \<and> taken b sz st (st2\<lparr>free_buffers := tf\<rparr>)"
        using taken_split [OF inv xs b(2) _ r] True unfolding bsz_def st1_def by blast
      then show ?thesis unfolding step ok
        by (auto simp: True Let_def st1_def set_header_def)
    next
      case False
      obtain ta where "binder_insert_allocated_buffer b st1 = Some (st1\<lparr>allocated_buffers := ta\<rparr>)" "taken b sz st (st1\<lparr>allocated_buffers := ta\<rparr>)"
        using taken_whole [OF inv xs b(2) sz _ r] False unfolding bsz_def st1_def by blast
      then show ?thesis unfolding step ok by (auto simp: False Let_def st1_def)
    qed
  next
    case fails
    then have "\<not> ((\<forall>i. env i = Page_ok) \<and> mm \<and> proc_vma st)" using update_success [OF _ _ fails] by fastforce
    then show ?thesis unfolding step fails by auto
  qed
qed

section \<open>Sizes\<close>

text \<open>The bytes a request takes, without wrap-around.\<close>

definition need :: "u32 \<Rightarrow> u32 \<Rightarrow> nat" where
  "need d p = (unat d + 3) div 4 * 4 + (unat p + 3) div 4 * 4"

lemma align4_unat: "unat (align4 x) = (unat x + 3) mod 2 ^ 32 div 4 * 4"
proof -
  have "align4 x = push_bit 2 (drop_bit 2 (x + 3))"
  proof -
    have m: "(3 :: u32) = mask 2" by (simp add: mask_eq_exp_minus_1)
    have "y AND NOT (mask 2) = push_bit 2 (drop_bit 2 y)" for y :: u32
    proof (rule bit_word_eqI)
      fix n
      show "bit (y AND NOT (mask 2)) n = bit (push_bit 2 (drop_bit 2 y)) n"
      proof (cases "n < 2")
        case False
        then obtain k where "n = k + 2" by (metis add.commute le_Suc_ex not_less)
        then show ?thesis by (simp add: bit_simps) (use bit_imp_le_length in fastforce)
      qed (simp add: bit_simps)
    qed
    then show ?thesis unfolding align4_def by (subst (2) m) simp
  qed
  then have "unat (align4 x) = (unat x + 3) mod 2 ^ 32 div 4 * 4 mod 2 ^ 32"
    by (simp add: push_bit_eq_mult drop_bit_eq_div unat_word_ariths unat_div)
  moreover have "(unat x + 3) mod 2 ^ 32 div 4 * 4 < 2 ^ 32"
    by (rule le_less_trans [OF div_times_less_eq_dividend]) simp
  ultimately show ?thesis by (simp only: mod_less)
qed

lemma unat_32: "unat (x :: u32) < 2 ^ 32"
proof -
  have "unat x < 2 ^ LENGTH(32)" by (rule unsigned_less)
  then show ?thesis by simp
qed

lemma align_up: "x \<le> (x + 3) div 4 * 4" "(x + 3) div 4 * 4 \<le> x + (3 :: nat)"
  using div_mult_mod_eq [of "x + 3" 4] mod_less_divisor [of 4 "x + 3"] by linarith+

lemma align4_cases:
  "unat x + 3 < 2 ^ 32 \<and> unat (align4 x) = (unat x + 3) div 4 * 4 \<or> 2 ^ 32 \<le> unat x + 3 \<and> unat (align4 x) = 0"
proof (cases "unat x + 3 < 2 ^ 32")
  case True
  then show ?thesis by (simp add: align4_unat)
next
  case False
  have "unat x < 2 ^ 32" by (rule unat_32)
  then have "unat x + 3 - 2 ^ 32 < 3" using False by simp
  then show ?thesis using False by (simp add: align4_unat mod_if)
qed

lemma align4_max: "unat (align4 x) + 4 \<le> 2 ^ 32"
proof -
  have "(unat x + 3) mod 2 ^ 32 div 4 < 2 ^ 30" by (simp add: div_less_iff_less_mult)
  then show ?thesis by (simp add: align4_unat)
qed

text \<open>The check against wrap-around is exact.\<close>

lemma align_wraps: "2 ^ 32 \<le> x + 3 \<Longrightarrow> 2 ^ 32 \<le> (x + 3) div 4 * (4 :: nat)"
proof -
  assume "2 ^ 32 \<le> x + 3"
  then have "2 ^ 32 div 4 \<le> (x + 3) div 4" by (rule div_le_mono)
  then show ?thesis by simp
qed

lemma sum_wraps:
  assumes "A < 2 ^ 32" "B < (2 :: nat) ^ 32" "2 ^ 32 \<le> A + B"
  shows "(A + B) mod 2 ^ 32 = A + B - 2 ^ 32"
proof -
  have "A + B - 2 ^ 32 < 2 ^ 32" using assms by linarith
  then show ?thesis using assms(3) by (simp only: le_mod_geq mod_less)
qed

lemma size_check:
  assumes "s = align4 d + align4 p"
  shows "s < d \<or> s < p \<longleftrightarrow> 2 ^ 32 \<le> need d p" "need d p < 2 ^ 32 \<Longrightarrow> unat s = need d p"
proof -
  define A B where "A = unat (align4 d)" and "B = unat (align4 p)"
  have sum: "unat s = (A + B) mod 2 ^ 32" by (simp add: assms A_def B_def unat_word_ariths)
  have m: "A + 4 \<le> 2 ^ 32" "B + 4 \<le> 2 ^ 32" unfolding A_def B_def by (rule align4_max)+
  note u = align_up [of "unat d"] align_up [of "unat p"]
  have iff: "s < d \<or> s < p \<longleftrightarrow> unat s < unat d \<or> unat s < unat p" by (simp add: word_less_nat_alt)
  consider (plain) "A = (unat d + 3) div 4 * 4" "B = (unat p + 3) div 4 * 4"
    | (d) "2 ^ 32 \<le> unat d + 3" "A = 0" | (p) "2 ^ 32 \<le> unat p + 3" "B = 0"
    using align4_cases [of d] align4_cases [of p] unfolding A_def B_def by argo
  then have "(s < d \<or> s < p \<longleftrightarrow> 2 ^ 32 \<le> need d p) \<and> (need d p < 2 ^ 32 \<longrightarrow> unat s = need d p)"
  proof cases
    case plain
    then have n: "need d p = A + B" by (simp add: need_def)
    show ?thesis
    proof (cases "A + B < 2 ^ 32")
      case True
      then have "unat s = A + B" by (simp only: sum mod_less)
      then show ?thesis using u plain True unfolding iff n by linarith
    next
      case False
      have "A < 2 ^ 32" "B < 2 ^ 32" using m by linarith+
      then have "unat s = A + B - 2 ^ 32" using False unfolding sum by (intro sum_wraps) linarith+
      then show ?thesis using u plain m False unfolding iff n by linarith
    qed
  next
    case d
    then have "2 ^ 32 \<le> need d p" using align_wraps [OF d(1)] unfolding need_def by linarith
    moreover have "unat s = B" using m(2) by (simp add: sum d)
    ultimately show ?thesis using m(2) d(1) unfolding iff by linarith
  next
    case p
    then have "2 ^ 32 \<le> need d p" using align_wraps [OF p(1)] unfolding need_def by linarith
    moreover have "unat s = A" using m(1) by (simp add: sum p)
    ultimately show ?thesis using m(1) p(1) unfolding iff by linarith
  qed
  then show "s < d \<or> s < p \<longleftrightarrow> 2 ^ 32 \<le> need d p" "need d p < 2 ^ 32 \<Longrightarrow> unat s = need d p" by blast+
qed

end
