(* ===== verification/Binder_Space.thy ===== *)
theory Binder_Space
  imports Binder_Alloc_Props
begin

text \<open>
  The operations of the Binder allocator as a whole: allocating, freeing and mapping keep the
  invariant of \<open>Binder_Alloc_Props\<close> and never hit an assertion of the code; and every state a
  process can reach satisfies it.
\<close>

section \<open>Allocation\<close>

text \<open>Whether a request can be served: no overflow, within the budget, and a free buffer is large enough.\<close>

definition fits :: "u32 \<Rightarrow> u32 \<Rightarrow> nat \<Rightarrow> binder_space \<Rightarrow> bool" where
  "fits d p b st \<longleftrightarrow> b \<in> set (buffers st) \<and> buf_free (headers st b) \<and> need d p \<le> binder_buffer_size st b"

definition can_alloc :: "u32 \<Rightarrow> u32 \<Rightarrow> bool \<Rightarrow> binder_space \<Rightarrow> bool" where
  "can_alloc d p a st \<longleftrightarrow> need d p < 2 ^ 32 \<and> (a \<longrightarrow> need d p + 40 \<le> unat (free_async_space st)) \<and>
     (\<exists>b \<in> set (buffers st). fits d p b st)"

text \<open>The last lines of \<open>binder_alloc_buf\<close>: the header is filled in and the budget charged.\<close>

definition granted :: "nat \<Rightarrow> u32 \<Rightarrow> u32 \<Rightarrow> bool \<Rightarrow> binder_space \<Rightarrow> binder_space" where
  "granted b d p a st =
     (let st = set_header b (\<lambda>h. h\<lparr>data_size := d, offsets_size := p, async_transaction := a\<rparr>) st in
      if a then st\<lparr>free_async_space := free_async_space st - (align4 d + align4 p + 40)\<rparr> else st)"

lemma granted_simps [simp]:
  "buffers (granted b d p a st) = buffers st" "proc_buffer (granted b d p a st) = proc_buffer st"
  "buffer_size (granted b d p a st) = buffer_size st" "proc_vma (granted b d p a st) = proc_vma st"
  "user_buffer_offset (granted b d p a st) = user_buffer_offset st" "pages (granted b d p a st) = pages st"
  "free_buffers (granted b d p a st) = free_buffers st" "allocated_buffers (granted b d p a st) = allocated_buffers st"
  "headers (granted b d p a st) = (headers st)(b := (headers st b)\<lparr>data_size := d, offsets_size := p, async_transaction := a\<rparr>)"
  "free_async_space (granted b d p a st) = (if a then free_async_space st - (align4 d + align4 p + 40) else free_async_space st)"
  by (simp_all add: granted_def set_header_def Let_def)

lemma size_small:
  assumes "placed st" "b \<in> set (buffers st)"
  shows "binder_buffer_size st b + 40 \<le> 0x400000"
proof -
  obtain xs ys where "buffers st = xs @ b # ys" using assms(2) by (auto simp: in_set_conv_decomp)
  note t = placed_at [OF assms(1) this]
  have "buffer_size st \<le> 0x400000" using assms(1) by (simp add: placed_def)
  then show ?thesis using t(2,4,5) unfolding t(9) region_end_def by linarith
qed

lemma add40:
  assumes "unat s = n" "n + 40 < 2 ^ 32"
  shows "unat (s + 40 :: u32) = n + 40"
  using assms by (simp add: unat_word_ariths)

lemma alloc_cases:
  assumes inv: "alloc_inv st"
  shows "binder_alloc_buf env mm d p a st = Some (st, None) \<and>
      ((\<forall>i. env i = Page_ok) \<and> mm \<and> proc_vma st \<longrightarrow> \<not> can_alloc d p a st) \<or>
    (\<exists>b st1. binder_alloc_buf env mm d p a st = Some (granted b d p a st1, Some b) \<and> proc_vma st \<and> can_alloc d p a st \<and> fits d p b st \<and>
      (\<forall>c. fits d p c st \<longrightarrow> binder_buffer_size st b \<le> binder_buffer_size st c) \<and> taken b (need d p) st st1)"
proof -
  define s where "s = align4 d + align4 p"
  note sc = size_check [OF s_def]
  have i: "tiled st" "trees_ok st" "pages_ok st" using inv by (auto simp: alloc_inv_def)
  define F where "F = {b \<in> set (buffers st). buf_free (headers st b)}"
  have ft: "free_tree st (free_buffers st) F" using i(2) by (simp add: trees_ok_def F_def)
  consider (no) "\<not> proc_vma st \<or> 2 ^ 32 \<le> need d p \<or> a \<and> free_async_space st < s + 40"
    | (search) "proc_vma st" "need d p < 2 ^ 32" "\<not> (a \<and> free_async_space st < s + 40)" by linarith
  then show ?thesis
  proof cases
    case no
    have "binder_alloc_buf env mm d p a st = Some (st, None)"
      using no sc(1) by (auto simp: binder_alloc_buf_def s_def [symmetric] Let_def)
    moreover have "\<not> can_alloc d p a st" if "proc_vma st"
    proof
      assume c: "can_alloc d p a st"
      then obtain b where "b \<in> set (buffers st)" "need d p \<le> binder_buffer_size st b" by (auto simp: can_alloc_def fits_def)
      then have n: "need d p + 40 < 2 ^ 32" using size_small [OF tiled_placed [OF i(1)], of b] by simp
      then have "unat (s + 40) = need d p + 40" using sc(2) by (intro add40) auto
      then show False using c no that n by (auto simp: can_alloc_def word_less_nat_alt)
    qed
    ultimately show ?thesis by blast
  next
    case search
    have us: "unat s = need d p" using sc(2) search(2) by simp
    obtain res where res: "best_fit st (need d p) (free_buffers st) None = Some res" "fits_best st (need d p) F None res"
      using best_fit_ok [of "free_buffers st" st None "need d p"] ft by (auto simp: free_tree_def size_le_def [abs_def] F_def)
    have code: "binder_alloc_buf env mm d p a st = (case res of (best, exact) \<Rightarrow> (case best of None \<Rightarrow> Some (st, None)
         | Some b \<Rightarrow> do { (st, ok) \<leftarrow> take_buffer env mm b (need d p) exact st;
             if \<not> ok then Some (st, None) else Some (granted b d p a st, Some b) }))"
      using search sc(1) res(1) us
      by (auto simp: binder_alloc_buf_def s_def [symmetric] Let_def granted_def cong: if_cong split: prod.splits option.splits)
    show ?thesis
    proof (cases "fst res")
      case None
      then have "binder_alloc_buf env mm d p a st = Some (st, None)" using code by (cases res) simp
      moreover have "\<not> can_alloc d p a st" using res(2) None by (cases res) (auto simp: fits_best_def can_alloc_def fits_def F_def)
      ultimately show ?thesis by blast
    next
      case (Some b)
      then obtain exact where r: "res = (Some b, exact)" by (cases res) simp
      have b: "fits d p b st" "exact \<longleftrightarrow> binder_buffer_size st b = need d p"
        "\<forall>c. fits d p c st \<longrightarrow> binder_buffer_size st b \<le> binder_buffer_size st c"
        using res(2) by (auto simp: r fits_best_def F_def fits_def)
      have "need d p + 40 < 2 ^ 32" using size_small [OF tiled_placed [OF i(1)], of b] b(1) by (simp add: fits_def)
      then have can: "can_alloc d p a st"
        using b(1) search add40 [OF us] by (auto simp: can_alloc_def fits_def word_less_nat_alt)
      obtain st1 ok where t: "take_buffer env mm b (need d p) exact st = Some (st1, ok)"
        "if ok then taken b (need d p) st st1 else st1 = st" "(\<forall>i. env i = Page_ok) \<and> mm \<and> proc_vma st \<longrightarrow> ok"
        using take_buffer_ok [OF i, of b "need d p" exact env mm] b(1,2) by (auto simp: fits_def)
      show ?thesis
      proof (cases ok)
        case True
        then show ?thesis using code t b can search(1) by (auto simp: r)
      next
        case False
        then show ?thesis using code t by (auto simp: r)
      qed
    qed
  qed
qed

text \<open>The part of the state the shape of the region depends on.\<close>

definition same_shape :: "binder_space \<Rightarrow> binder_space \<Rightarrow> bool" where
  "same_shape st st' \<longleftrightarrow> proc_buffer st' = proc_buffer st \<and> buffer_size st' = buffer_size st \<and> buffers st' = buffers st \<and>
     free_buffers st' = free_buffers st \<and> allocated_buffers st' = allocated_buffers st \<and> pages st' = pages st \<and>
     (\<forall>b \<in> set (buffers st). buf_free (headers st' b) = buf_free (headers st b))"

lemma same_shape_ok:
  assumes "same_shape st st'"
  shows "binder_buffer_size st' = binder_buffer_size st" "tiled st' = tiled st" "trees_ok st' = trees_ok st" "pages_ok st' = pages_ok st"
proof -
  have e: "region_end st' = region_end st" using assms by (simp add: same_shape_def region_end_def)
  show s: "binder_buffer_size st' = binder_buffer_size st" using assms e by (intro size_cong) (simp_all add: same_shape_def)
  have b: "blocks st' = blocks st" using assms by (simp add: same_shape_def blocks_def)
  show "tiled st' = tiled st" using assms b e by (simp add: tiled_def placed_def same_shape_def)
  show "pages_ok st' = pages_ok st" using assms b e by (simp add: pages_ok_def same_shape_def)
  have "{b \<in> set (buffers st'). buf_free (headers st' b)} = {b \<in> set (buffers st). buf_free (headers st b)}"
    "{b \<in> set (buffers st'). \<not> buf_free (headers st' b)} = {b \<in> set (buffers st). \<not> buf_free (headers st b)}"
    using assms by (auto simp: same_shape_def)
  then show "trees_ok st' = trees_ok st"
    using assms by (simp add: trees_ok_def same_shape_def free_tree_def size_le_def [abs_def] s)
qed

lemma taken_list:
  assumes "taken b n st st1" "buffers st = xs @ b # ys" "b \<notin> set xs"
  shows "buffers st1 = (if n + 44 < binder_buffer_size st b then xs @ b # (b + 40 + n) # ys else buffers st)"
  using assms by (simp add: taken_def Let_def list_add_split split: if_splits)

text \<open>Taking a buffer leaves the others alone.\<close>

lemma taken_others:
  assumes "tiled st" "taken b n st st1" "b \<in> set (buffers st)" "c \<in> set (buffers st)" "c \<noteq> b"
  shows "c \<in> set (buffers st1)" "headers st1 c = headers st c" "binder_buffer_size st1 c = binder_buffer_size st c"
proof -
  obtain xs ys where xs: "buffers st = xs @ b # ys" using assms(3) by (auto simp: in_set_conv_decomp)
  note t = tiled_at [OF assms(1) xs] and l = taken_list [OF assms(2) xs t(10)]
  have f: "frame st st1" and l1: "linked (region_end st1) (buffers st1)" using assms(2) by (auto simp: taken_def tiled_def placed_def)
  show "c \<in> set (buffers st1)" using l assms(4) xs by (auto split: if_splits)
  show "headers st1 c = headers st c" using assms(2,4,5) by (auto simp: taken_def Let_def split: if_splits)
  show "binder_buffer_size st1 c = binder_buffer_size st c"
  proof (cases "n + 44 < binder_buffer_size st b")
    case True
    then have "buffers st1 = xs @ b # (b + 40 + n) # ys" using l by simp
    then show ?thesis using l1 assms(4,5) xs
      by (intro size_insert [of st xs b "b + 40 + n" ys]) (auto simp: frame_end [OF f])
  next
    case False
    then show ?thesis using size_cong [of st1 st] l frame_end [OF f] by simp
  qed
qed

lemma taken_allocated:
  assumes "tiled st" "taken b n st st1" "b \<in> set (buffers st)"
  shows "{c \<in> set (buffers st1). \<not> buf_free (headers st1 c)} = insert b {c \<in> set (buffers st). \<not> buf_free (headers st c)}"
proof -
  obtain xs ys where xs: "buffers st = xs @ b # ys" using assms(3) by (auto simp: in_set_conv_decomp)
  note t = tiled_at [OF assms(1) xs] and l = taken_list [OF assms(2) xs t(10)]
  show ?thesis using l assms(2) xs by (auto simp: taken_def Let_def split: if_splits)
qed

lemma grant_shape:
  assumes "taken b n st st1"
  shows "same_shape st1 (granted b d p a st1)" "frame st (granted b d p a st1)"
  using assms by (auto simp: same_shape_def taken_def frame_def)

lemma grant_inv:
  assumes inv: "alloc_inv st" and b: "fits d p b st" "can_alloc d p a st" and t: "taken b (need d p) st st1"
  shows "alloc_inv (granted b d p a st1)"
proof -
  let ?st = "granted b d p a st1"
  have ti: "tiled st" and bs: "b \<in> set (buffers st)" "buf_free (headers st b)" using inv b(1) by (auto simp: alloc_inv_def fits_def)
  note sh = same_shape_ok [OF grant_shape(1) [OF t], of d p a] and oth = taken_others [OF ti t bs(1)]
  have nd: "need d p < 2 ^ 32" using b(2) by (simp add: can_alloc_def)
  define s where "s = align4 d + align4 p"
  have us: "unat s = need d p" using size_check(2) [OF s_def nd] .
  define A where "A = {c \<in> set (buffers st). \<not> buf_free (headers st c)}"
  have A1: "{c \<in> set (buffers st1). \<not> buf_free (headers st1 c)} = insert b A" using taken_allocated [OF ti t bs(1)] by (simp add: A_def)
  then have A: "c \<in> set (buffers ?st) \<and> \<not> buf_free (headers ?st c) \<longleftrightarrow> c = b \<or> c \<in> A" for c by auto
  have bA: "b \<notin> A" "A \<subseteq> set (buffers st)" using bs by (auto simp: A_def)
  have us': "used_size ?st c = used_size st c" "async_transaction (headers ?st c) = async_transaction (headers st c)"
    "binder_buffer_size ?st c = binder_buffer_size st c" if "c \<in> A" for c
    using that bA oth [of c] by (auto simp: used_size_def sh(1))
  have ub: "used_size ?st b = s" by (simp add: used_size_def s_def)
  have "used_ok ?st"
  proof -
    have "unat (used_size ?st c) \<le> binder_buffer_size ?st c" if "c = b \<or> c \<in> A" for c
      using that inv t us us' by (auto simp: ub sh(1) taken_def alloc_inv_def used_ok_def A_def)
    then show ?thesis unfolding used_ok_def using A by blast
  qed
  moreover have "budget ?st"
  proof -
    define S where "S = {c \<in> A. async_transaction (headers st c)}"
    have S: "{c. c \<in> set (buffers ?st) \<and> \<not> buf_free (headers ?st c) \<and> async_transaction (headers ?st c)} = (if a then insert b S else S)"
    proof -
      have "{c. c \<in> set (buffers ?st) \<and> \<not> buf_free (headers ?st c) \<and> async_transaction (headers ?st c)} =
          {c. (c = b \<or> c \<in> A) \<and> async_transaction (headers ?st c)}" using A by blast
      moreover have "async_transaction (headers ?st b) = a" by simp
      ultimately show ?thesis using us'(2) bA(1) by (auto simp: S_def simp del: granted_simps)
    qed
    have fin: "finite S" "b \<notin> S" using bA finite_subset [OF bA(2)] by (auto simp: S_def)
    have sumS: "(\<Sum>c \<in> S. unat (used_size ?st c) + 40) = (\<Sum>c \<in> S. unat (used_size st c) + 40)"
      by (rule sum.cong) (simp_all add: S_def us')
    have old: "async_used st = (\<Sum>c \<in> S. unat (used_size st c) + 40)"
      unfolding async_used_def by (rule sum.cong) (auto simp: S_def A_def)
    have new: "async_used ?st = async_used st + (if a then need d p + 40 else 0)"
    proof -
      have "sum f (if a then insert b S else S) = sum f S + (if a then f b else 0)" for f :: "nat \<Rightarrow> nat" using fin by simp
      then show ?thesis unfolding async_used_def [of ?st] S old by (simp only: sumS ub us)
    qed
    have fa: "free_async_space st1 = free_async_space st" "buffer_size st1 = buffer_size st" using t by (auto simp: taken_def frame_def)
    have "unat (free_async_space ?st) = unat (free_async_space st) - (if a then need d p + 40 else 0)"
    proof (cases a)
      case True
      have le: "need d p + 40 \<le> unat (free_async_space st)" using b(2) True by (simp add: can_alloc_def)
      then have u40: "unat (s + 40) = need d p + 40" using us unat_32 [of "free_async_space st"] by (intro add40) linarith+
      then show ?thesis using le True by (simp add: fa unat_sub word_le_nat_alt flip: s_def)
    qed (simp add: fa)
    then show ?thesis using inv b(2) new by (auto simp: alloc_inv_def budget_def can_alloc_def fa)
  qed
  ultimately show ?thesis using sh t by (simp add: alloc_inv_def taken_def)
qed

section \<open>Freeing\<close>

lemma page_bounds:
  "x < 4096 * q + 4096 \<longleftrightarrow> x div 4096 \<le> q" "4096 * q \<le> x \<longleftrightarrow> q \<le> x div 4096" "4096 * q + 4096 \<le> x \<longleftrightarrow> q < x div (4096 :: nat)"
proof -
  show a: "x < 4096 * q + 4096 \<longleftrightarrow> x div 4096 \<le> q"
    by (simp add: div_less_iff_less_mult algebra_simps flip: less_Suc_eq_le)
  show "4096 * q \<le> x \<longleftrightarrow> q \<le> x div 4096" by (simp add: less_eq_div_iff_mult_less_eq mult.commute)
  show "4096 * q + 4096 \<le> x \<longleftrightarrow> q < x div 4096" using a by linarith
qed

lemma hdr_on_pages: "hdr_on b q \<longleftrightarrow> q \<in> {b div 4096..(b + 39) div 4096}"
proof -
  have "4096 * q < b + 40 \<longleftrightarrow> 4096 * q \<le> b + 39" by linarith
  then show ?thesis by (simp add: hdr_on_def page_bounds)
qed

lemma above_pages: "a + 40 \<le> 4096 * q \<longleftrightarrow> (a + 39) div 4096 < (q :: nat)"
proof -
  have "a + 40 \<le> 4096 * q \<longleftrightarrow> \<not> 4096 * q \<le> a + 39" by linarith
  then show ?thesis by (simp add: page_bounds(2) not_le)
qed

lemma header_span: "b div 4096 \<le> (b + 39) div 4096" "(b + 39) div 4096 \<le> b div 4096 + (1 :: nat)"
  using div_le_mono [of b "b + 39" 4096] div_le_mono [of "b + 39" "b + 4096" 4096] by simp_all

text \<open>The pages \<open>binder_delete_free_buffer\<close> gives up: those of the header that no neighbour's header is on.\<close>

definition lone :: "nat \<Rightarrow> nat \<Rightarrow> nat list \<Rightarrow> nat \<Rightarrow> bool" where
  "lone a b ys q \<longleftrightarrow> hdr_on b q \<and> a + 40 \<le> 4096 * q \<and> (ys = [] \<or> 4096 * q + 4096 \<le> hd ys)"

lemma lone_pages:
  assumes "p0 \<le> p1" "p1 \<le> p0 + 1" "ap \<le> p0" "p1 \<le> (np :: nat)"
    and "fs \<longleftrightarrow> ap \<noteq> p0 \<and> (np \<noteq> p1 \<or> p0 \<noteq> p1)" "fe \<longleftrightarrow> ap \<noteq> p1 \<and> np \<noteq> p1"
  shows "(fs \<or> fe) \<and> q \<in> {if fs then p0 else p1..<(if fe then p1 else p0) + 1} \<longleftrightarrow> p0 \<le> q \<and> q \<le> p1 \<and> ap < q \<and> q < np"
proof -
  consider "p1 = p0" | "p1 = p0 + 1" using assms(1,2) by linarith
  then show ?thesis
  proof cases
    case 1
    then show ?thesis using assms(3-6) by auto
  next
    case 2
    then show ?thesis using assms(3-6) by auto
  qed
qed

lemma delete_code:
  assumes "buffers st = xs @ a # b # ys" "linked e (xs @ a # b # ys)" "buf_free (headers st a)"
  defines "st1 \<equiv> st\<lparr>buffers := xs @ a # ys\<rparr>"
  shows "\<exists>i j. (\<forall>q. q \<in> {i..<j} \<longleftrightarrow> lone a b ys q) \<and> (i < j \<longrightarrow> b div 4096 \<le> i) \<and> binder_delete_free_buffer mm b st =
    (if i < j then map_option fst (binder_update_page_range (\<lambda>_. Page_ok) mm False (4096 * i) (4096 * j) False st1) else Some st1)"
proof -
  have l: "linked e ((xs @ [a]) @ b # ys)" using assms(2) by simp
  note s = linked_split [OF l]
  have ab: "a + 40 \<le> b" using s(5) [of a] by simp
  have prev: "list_prev b (buffers st) = Some a" using list_prev_split [OF s(1,2)] assms(1) by simp
  have nxt: "list_next b (buffers st) = (case ys of [] \<Rightarrow> None | y # _ \<Rightarrow> Some y)" using list_next_split [OF s(1)] assms(1) by simp
  have rem: "removeAll b (buffers st) = xs @ a # ys" using s(1,2) assms(1) by simp
  define ap p0 p1 where "ap = (a + 39) div 4096" and "p0 = b div 4096" and "p1 = (b + 39) div 4096"
  have ord: "p0 \<le> p1" "p1 \<le> p0 + 1" "ap \<le> p0" using header_span [of b] div_le_mono [of "a + 39" b 4096] ab by (simp_all add: p0_def p1_def ap_def)
  have pg: "buffer_end_page a = 4096 * ap" "buffer_start_page b = 4096 * p0" "buffer_end_page b = 4096 * p1"
    by (simp_all add: buffer_end_page_def buffer_start_page_def ap_def p0_def p1_def)
  define np where "np = (if ys = [] then p1 + 1 else hd ys div 4096)"
  have lone: "lone a b ys q \<longleftrightarrow> p0 \<le> q \<and> q \<le> p1 \<and> ap < q \<and> q < np" for q
    by (auto simp: np_def lone_def hdr_on_pages above_pages page_bounds(3) p0_def p1_def ap_def)
  have np: "p1 \<le> np" using s(4) by (cases ys) (auto simp: np_def p1_def intro: div_le_mono)
  define fs where "fs \<longleftrightarrow> ap \<noteq> p0 \<and> (np \<noteq> p1 \<or> p0 \<noteq> p1)"
  define fe where "fe \<longleftrightarrow> ap \<noteq> p1 \<and> np \<noteq> p1"
  have code: "binder_delete_free_buffer mm b st =
    (if fs \<or> fe then map_option fst (binder_update_page_range (\<lambda>_. Page_ok) mm False
       (if fs then 4096 * p0 else 4096 * p1) ((if fe then 4096 * p1 else 4096 * p0) + 4096) False st1) else Some st1)"
  proof (cases ys)
    case Nil
    then show ?thesis unfolding binder_delete_free_buffer_def prev nxt rem
      using assms(3) ord by (auto simp: pg fs_def fe_def np_def st1_def Let_def)
  next
    case (Cons y zs)
    have "buffer_start_page y = 4096 * (y div 4096)" by (simp add: buffer_start_page_def)
    then show ?thesis unfolding binder_delete_free_buffer_def prev nxt rem
      using assms(3) Cons ord np by (auto simp: pg fs_def fe_def np_def st1_def Let_def)
  qed
  define i j where "i = (if fs then p0 else p1)" and "j = (if fe then p1 else p0) + 1"
  have mem: "(fs \<or> fe) \<and> q \<in> {i..<j} \<longleftrightarrow> lone a b ys q" for q
    unfolding lone i_def j_def by (rule lone_pages [OF ord np fs_def fe_def])
  show ?thesis
  proof (cases "fs \<or> fe")
    case True
    then have ij: "i < j" "b div 4096 \<le> i" using ord by (auto simp: i_def j_def fs_def fe_def p0_def split: if_splits)
    have e: "4096 * i = (if fs then 4096 * p0 else 4096 * p1)" "4096 * j = (if fe then 4096 * p1 else 4096 * p0) + 4096"
      by (simp_all add: i_def j_def)
    show ?thesis using code True ij mem unfolding e [symmetric] by (intro exI [of _ i] exI [of _ j]) simp
  next
    case False
    then show ?thesis using code mem by (intro exI [of _ 0]) simp
  qed
qed

lemma delete_ok:
  assumes st: "placed st" "pages_ok st" and b: "buffers st = xs @ a # b # ys" "buf_free (headers st a)" "buf_free (headers st b)"
  shows "\<exists>pg. binder_delete_free_buffer mm b st = Some (st\<lparr>buffers := xs @ a # ys, pages := pg\<rparr>) \<and>
    placed (st\<lparr>buffers := xs @ a # ys, pages := pg\<rparr>) \<and> pages_ok (st\<lparr>buffers := xs @ a # ys, pages := pg\<rparr>)"
proof -
  let ?B = "proc_buffer st div 4096"
  define st1 where "st1 = st\<lparr>buffers := xs @ a # ys\<rparr>"
  define pg where "pg = (\<lambda>p. pages st p \<and> \<not> lone a b ys (p + ?B))"
  have l: "linked (region_end st) (xs @ a # b # ys)" using st(1) b(1) by (simp add: placed_def)
  have base: "proc_buffer st = 4096 * ?B" using st(1) by (simp add: placed_def)
  have bl: "blocks st = marks st xs @ (a, True) # (b, True) # marks st ys"
    "blocks (st\<lparr>buffers := xs @ a # ys, pages := pg\<rparr>) = marks st xs @ (a, True) # marks st ys"
    using b by (simp_all add: blocks_marks marks_def)
  have pb: "proc_buffer st \<le> b" using placed_at(5) [OF st(1), of "xs @ [a]" b ys] b(1) by simp
  obtain i j where ij: "\<forall>q. q \<in> {i..<j} \<longleftrightarrow> lone a b ys q" "i < j \<longrightarrow> b div 4096 \<le> i"
    "binder_delete_free_buffer mm b st =
     (if i < j then map_option fst (binder_update_page_range (\<lambda>_. Page_ok) mm False (4096 * i) (4096 * j) False st1) else Some st1)"
    using delete_code [OF b(1) l b(2)] unfolding st1_def by blast
  have "binder_delete_free_buffer mm b st = Some (st\<lparr>buffers := xs @ a # ys, pages := pg\<rparr>)"
  proof (cases "i < j")
    case True
    then have Bi: "?B \<le> i" using ij(2) div_le_mono [OF pb, of 4096] by simp
    have "\<forall>q \<in> {i..<j}. pages st1 (q - ?B)"
    proof
      fix q assume q: "q \<in> {i..<j}"
      then have "hdr_on b q" using ij(1) lone_def by blast
      then have "want (region_end st) (blocks st) q" by (simp add: bl want_append)
      moreover have "q - ?B + ?B = q" using q Bi by simp
      ultimately show "pages st1 (q - ?B)" using st(2) unfolding pages_ok_def by (simp add: st1_def)
    qed
    then obtain ret where "binder_update_page_range (\<lambda>_. Page_ok) mm False (4096 * i) (4096 * j) False st1 =
        Some (st1\<lparr>pages := \<lambda>p. pages st1 p \<and> p + ?B \<notin> {i..<j}\<rparr>, ret)"
      using free_pages [of st1 ?B i j "\<lambda>_. Page_ok" mm False] base Bi by (auto simp: st1_def)
    moreover have "pg = (\<lambda>p. pages st1 p \<and> p + ?B \<notin> {i..<j})" unfolding pg_def ij(1) [rule_format] by (simp add: st1_def)
    ultimately show ?thesis unfolding ij(3) using True by (simp add: st1_def)
  next
    case False
    then have "\<not> lone a b ys q" for q using ij(1) by (metis atLeastLessThan_iff le_less_trans)
    then show ?thesis using False by (simp add: ij(3) st1_def pg_def)
  qed
  moreover have "placed (st\<lparr>buffers := xs @ a # ys, pages := pg\<rparr>)"
  proof (rule placedI [OF st(1), of _ "tl (xs @ a # ys)"])
    show "buffers (st\<lparr>buffers := xs @ a # ys, pages := pg\<rparr>) = proc_buffer st # tl (xs @ a # ys)"
      using st(1) b(1) by (cases xs) (auto simp: placed_def)
    show "linked (region_end st) (buffers (st\<lparr>buffers := xs @ a # ys, pages := pg\<rparr>))"
      using l by (auto simp: linked_append linked_Cons)
  qed (simp add: frame_def)
  moreover have "pages_ok (st\<lparr>buffers := xs @ a # ys, pages := pg\<rparr>)"
  proof -
    have e: "region_end (st\<lparr>buffers := xs @ a # ys, pages := pg\<rparr>) = region_end st" by (simp add: region_end_def)
    have "linked (region_end st) (map fst (marks st xs @ (a, True) # (b, True) # marks st ys))" using l by simp
    note want_merge [OF this]
    then show ?thesis using st(2) unfolding pages_ok_def e bl by (simp add: pg_def lone_def)
  qed
  ultimately show ?thesis by blast
qed

text \<open>A free buffer \<open>z\<close> that is in no tree, between its release and its insertion.\<close>

definition loose :: "nat \<Rightarrow> binder_space \<Rightarrow> bool" where
  "loose z st \<longleftrightarrow> placed st \<and> pages_ok st \<and> z \<in> set (buffers st) \<and> buf_free (headers st z) \<and>
     free_tree st (free_buffers st) ({b \<in> set (buffers st). buf_free (headers st b)} - {z}) \<and>
     alloc_tree (allocated_buffers st) {b \<in> set (buffers st). \<not> buf_free (headers st b)}"

lemma loose_insert:
  assumes "loose z st" "calm (blocks st)"
  shows "\<exists>t. binder_insert_free_buffer z st = Some (st\<lparr>free_buffers := t\<rparr>) \<and> tiled (st\<lparr>free_buffers := t\<rparr>) \<and>
    trees_ok (st\<lparr>free_buffers := t\<rparr>) \<and> pages_ok (st\<lparr>free_buffers := t\<rparr>)"
proof -
  define F where "F = {b \<in> set (buffers st). buf_free (headers st b)}"
  have "\<exists>t. binder_insert_free_buffer z st = Some (st\<lparr>free_buffers := t\<rparr>) \<and> free_tree st t (insert z (F - {z}))"
    by (rule insert_free_ok) (use assms(1) in \<open>auto simp: loose_def F_def\<close>)
  then obtain t where t: "binder_insert_free_buffer z st = Some (st\<lparr>free_buffers := t\<rparr>)" "free_tree st t (insert z (F - {z}))" by blast
  have F: "insert z (F - {z}) = F" using assms(1) by (auto simp: loose_def F_def)
  have e: "region_end (st\<lparr>free_buffers := t\<rparr>) = region_end st" "blocks (st\<lparr>free_buffers := t\<rparr>) = blocks st"
    by (simp_all add: region_end_def blocks_def)
  have s: "binder_buffer_size (st\<lparr>free_buffers := t\<rparr>) = binder_buffer_size st" by (rule size_cong) (simp_all add: e)
  have "free_tree (st\<lparr>free_buffers := t\<rparr>) t F" using t(2) unfolding F by (rule free_tree_cong) (simp add: s)
  then show ?thesis using t(1) assms
    by (auto simp: tiled_def placed_def loose_def trees_ok_def pages_ok_def e F_def)
qed

text \<open>Merging two free buffers \<open>x\<close> and \<open>y\<close>, one of which is in no tree; the other is taken out.\<close>

lemma loose_merge:
  assumes z: "loose z st" and xy: "buffers st = xs @ x # y # ys" "buf_free (headers st x)" "buf_free (headers st y)"
    and w: "z = x \<and> w = y \<or> z = y \<and> w = x"
  defines "st2 \<equiv> \<lambda>pg. st\<lparr>buffers := xs @ x # ys, pages := pg, free_buffers := tree_erase w (free_buffers st)\<rparr>"
  shows "\<exists>pg. binder_delete_free_buffer mm y st = Some (st\<lparr>buffers := xs @ x # ys, pages := pg\<rparr>) \<and>
    binder_delete_free_buffer mm y (st\<lparr>free_buffers := tree_erase w (free_buffers st)\<rparr>) = Some (st2 pg) \<and> loose x (st2 pg)"
proof -
  let ?t = "tree_erase w (free_buffers st)"
  have p: "placed st" "pages_ok st" using z by (auto simp: loose_def)
  have p': "placed (st\<lparr>free_buffers := ?t\<rparr>)" "pages_ok (st\<lparr>free_buffers := ?t\<rparr>)"
    using p by (simp_all add: placed_def pages_ok_def region_end_def blocks_def)
  have "\<exists>pg. binder_delete_free_buffer mm y (st\<lparr>free_buffers := ?t\<rparr>) = Some (st2 pg) \<and> placed (st2 pg) \<and> pages_ok (st2 pg)"
  proof -
    have "st\<lparr>free_buffers := ?t, buffers := xs @ x # ys, pages := pg\<rparr> = st2 pg" for pg by (cases st) (simp add: st2_def)
    then show ?thesis using delete_ok [OF p', of xs x y ys mm] xy by simp
  qed
  then obtain pg where pg: "binder_delete_free_buffer mm y (st\<lparr>free_buffers := ?t\<rparr>) = Some (st2 pg)" "placed (st2 pg)" "pages_ok (st2 pg)"
    by blast
  obtain pg' where pg': "binder_delete_free_buffer mm y st = Some (st\<lparr>buffers := xs @ x # ys, pages := pg'\<rparr>)"
    "pages_ok (st\<lparr>buffers := xs @ x # ys, pages := pg'\<rparr>)" using delete_ok [OF p xy] by blast
  have "pg' = pg" using pg(3) pg'(2) by (simp add: fun_eq_iff pages_ok_def st2_def region_end_def blocks_def)
  have l: "linked (region_end st) (xs @ x # y # ys)" using p(1) xy(1) by (simp add: placed_def)
  have d: "distinct (xs @ x # y # ys)" using linked_distinct [OF l] .
  have s: "binder_buffer_size (st2 pg) c = binder_buffer_size st c" if "c \<in> set xs \<union> set ys" for c
    using size_insert [of "st2 pg" xs x y ys st c] l that xy(1) by (simp add: st2_def region_end_def)
  define F where "F = {b \<in> set (buffers st). buf_free (headers st b)}"
  have F: "{b \<in> set (buffers (st2 pg)). buf_free (headers (st2 pg) b)} - {x} = F - {z} - {w}"
    "{b \<in> set (buffers (st2 pg)). \<not> buf_free (headers (st2 pg) b)} = {b \<in> set (buffers st). \<not> buf_free (headers st b)}"
    using d xy w by (auto simp: F_def st2_def)
  have "free_tree st ?t (F - {z} - {w})" using z by (intro erase_free_ok) (simp add: loose_def F_def)
  then have "free_tree (st2 pg) ?t (F - {z} - {w})"
    by (rule free_tree_cong) (use s xy(1) w in \<open>auto simp: F_def\<close>)
  then have "loose x (st2 pg)" using z pg(2,3) xy F by (simp add: loose_def) (simp add: st2_def)
  then show ?thesis using pg pg'(1) \<open>pg' = pg\<close> by blast
qed

text \<open>The end of \<open>binder_free_buf\<close>: the buffer absorbs a free successor, then a free predecessor absorbs it.\<close>

definition absorb_next :: "bool \<Rightarrow> nat \<Rightarrow> binder_space \<Rightarrow> binder_space option" where
  "absorb_next mm b st =
     (case list_next b (buffers st) of
        None \<Rightarrow> Some st
      | Some next \<Rightarrow>
          if buf_free (headers st next)
          then binder_delete_free_buffer mm next (st\<lparr>free_buffers := tree_erase next (free_buffers st)\<rparr>)
          else Some st)"

definition join_prev :: "bool \<Rightarrow> nat \<Rightarrow> binder_space \<Rightarrow> binder_space option" where
  "join_prev mm b st =
     (case list_prev b (buffers st) of
        None \<Rightarrow> binder_insert_free_buffer b st
      | Some prev \<Rightarrow>
          if buf_free (headers st prev)
          then do {
            st \<leftarrow> binder_delete_free_buffer mm b st;
            binder_insert_free_buffer prev (st\<lparr>free_buffers := tree_erase prev (free_buffers st)\<rparr>) }
          else binder_insert_free_buffer b st)"

definition still :: "binder_space \<Rightarrow> binder_space \<Rightarrow> bool" where
  "still st st' \<longleftrightarrow> frame st st' \<and> headers st' = headers st \<and> free_async_space st' = free_async_space st"

definition trim_next :: "binder_space \<Rightarrow> nat list \<Rightarrow> nat list" where
  "trim_next st ys = (case ys of y # zs \<Rightarrow> if buf_free (headers st y) then zs else ys | [] \<Rightarrow> [])"

lemma absorb_next_ok:
  assumes z: "loose b st" and b: "buffers st = xs @ b # ys"
  shows "\<exists>st'. absorb_next mm b st = Some st' \<and> loose b st' \<and> still st st' \<and> buffers st' = xs @ b # trim_next st ys"
proof -
  have nb: "b \<notin> set xs" using placed_at(10) [OF _ b] z by (simp add: loose_def)
  have nxt: "list_next b (buffers st) = (case ys of [] \<Rightarrow> None | y # _ \<Rightarrow> Some y)" using list_next_split [OF nb] b by simp
  show ?thesis
  proof (cases "\<exists>y zs. ys = y # zs \<and> buf_free (headers st y)")
    case True
    then obtain y zs where y: "ys = y # zs" "buf_free (headers st y)" by blast
    have f: "buf_free (headers st b)" using z by (simp add: loose_def)
    obtain pg where pg: "binder_delete_free_buffer mm y (st\<lparr>free_buffers := tree_erase y (free_buffers st)\<rparr>) =
        Some (st\<lparr>buffers := xs @ b # zs, pages := pg, free_buffers := tree_erase y (free_buffers st)\<rparr>)"
      "loose b (st\<lparr>buffers := xs @ b # zs, pages := pg, free_buffers := tree_erase y (free_buffers st)\<rparr>)"
      using loose_merge [OF z, of xs b y zs y mm] b y f by auto
    then show ?thesis using y by (simp add: absorb_next_def nxt still_def frame_def trim_next_def)
  next
    case False
    then show ?thesis unfolding absorb_next_def nxt using z b by (auto simp: still_def frame_def trim_next_def split: list.splits)
  qed
qed

lemma join_prev_ok:
  assumes z: "loose b st" and b: "buffers st = xs @ b # ys"
    and calm: "calm (marks st xs)" "calm (marks st ys)" "ys = [] \<or> \<not> buf_free (headers st (hd ys))"
  shows "\<exists>st'. join_prev mm b st = Some st' \<and> tiled st' \<and> trees_ok st' \<and> pages_ok st' \<and> still st st' \<and>
    buffers st' = (if xs \<noteq> [] \<and> buf_free (headers st (last xs)) then xs else xs @ [b]) @ ys"
proof -
  have nb: "b \<notin> set xs" "b \<notin> set ys" using placed_at(10,11) [OF _ b] z by (simp_all add: loose_def)
  have prv: "list_prev b (buffers st) = (if xs = [] then None else Some (last xs))" using list_prev_split [OF nb] b by simp
  have f: "buf_free (headers st b)" using z by (simp add: loose_def)
  have hd: "ys \<noteq> [] \<Longrightarrow> \<not> snd (hd (marks st ys))" using calm(3) by (cases ys) auto
  have lst: "xs \<noteq> [] \<Longrightarrow> snd (last (marks st xs)) = buf_free (headers st (last xs))" by (simp add: marks_def last_map)
  show ?thesis
  proof (cases "xs \<noteq> [] \<and> buf_free (headers st (last xs))")
    case True
    define a where "a = last xs"
    define ws where "ws = butlast xs"
    have xs: "xs = ws @ [a]" using True by (simp add: ws_def a_def)
    have fa: "buf_free (headers st a)" using True by (simp add: a_def)
    obtain pg where pg: "binder_delete_free_buffer mm b st = Some (st\<lparr>buffers := ws @ a # ys, pages := pg\<rparr>)"
      "loose a (st\<lparr>buffers := ws @ a # ys, pages := pg, free_buffers := tree_erase a (free_buffers st)\<rparr>)"
      using loose_merge [OF z, of ws a b ys a mm] b f fa xs by auto
    define st2 where "st2 = st\<lparr>buffers := ws @ a # ys, pages := pg, free_buffers := tree_erase a (free_buffers st)\<rparr>"
    have "blocks st2 = marks st ws @ (a, True) # marks st ys" using fa by (simp add: blocks_def marks_def st2_def)
    then have "calm (blocks st2)" using calm(1,2) hd fa by (auto simp: xs calm_append calm_Cons)
    then obtain t where "binder_insert_free_buffer a st2 = Some (st2\<lparr>free_buffers := t\<rparr>)" "tiled (st2\<lparr>free_buffers := t\<rparr>)"
      "trees_ok (st2\<lparr>free_buffers := t\<rparr>)" "pages_ok (st2\<lparr>free_buffers := t\<rparr>)"
      using loose_insert [of a st2] pg(2) by (auto simp: st2_def)
    then show ?thesis unfolding join_prev_def prv using True pg(1)
      by (auto simp: st2_def still_def frame_def a_def [symmetric]) (auto simp: xs)
  next
    case False
    have "calm (blocks st)" using calm(1,2) hd lst False b f by (auto simp: blocks_marks calm_append calm_Cons)
    then obtain t where "binder_insert_free_buffer b st = Some (st\<lparr>free_buffers := t\<rparr>)" "tiled (st\<lparr>free_buffers := t\<rparr>)"
      "trees_ok (st\<lparr>free_buffers := t\<rparr>)" "pages_ok (st\<lparr>free_buffers := t\<rparr>)"
      using loose_insert [OF z] by blast
    then show ?thesis unfolding join_prev_def prv using False b by (auto simp: still_def frame_def)
  qed
qed

definition released :: "nat \<Rightarrow> u32 \<Rightarrow> (nat \<Rightarrow> bool) \<Rightarrow> binder_space \<Rightarrow> binder_space" where
  "released b fa pg st = set_header b (\<lambda>h. h\<lparr>buf_free := True\<rparr>)
     (st\<lparr>free_async_space := fa, pages := pg, allocated_buffers := tree_erase b (allocated_buffers st)\<rparr>)"

lemma released_simps [simp]:
  "buffers (released b fa pg st) = buffers st" "proc_buffer (released b fa pg st) = proc_buffer st"
  "buffer_size (released b fa pg st) = buffer_size st" "region_end (released b fa pg st) = region_end st"
  "free_buffers (released b fa pg st) = free_buffers st" "pages (released b fa pg st) = pg"
  "allocated_buffers (released b fa pg st) = tree_erase b (allocated_buffers st)" "free_async_space (released b fa pg st) = fa"
  "headers (released b fa pg st) = (headers st)(b := (headers st b)\<lparr>buf_free := True\<rparr>)"
  "binder_buffer_size (released b fa pg st) = binder_buffer_size st" "frame st (released b fa pg st)"
proof -
  show "binder_buffer_size (released b fa pg st) = binder_buffer_size st"
    by (rule size_cong) (simp_all add: released_def set_header_def region_end_def)
qed (simp_all add: released_def set_header_def region_end_def frame_def)

lemma release_ok:
  assumes st: "tiled st" "trees_ok st" "pages_ok st" and b: "buffers st = xs @ b # ys" "\<not> buf_free (headers st b)"
  shows "\<exists>pg ret. binder_update_page_range (\<lambda>_. Page_ok) mm False (page_up (b + 40)) (page_down (b + 40 + binder_buffer_size st b)) False
      (st\<lparr>free_async_space := fa\<rparr>) = Some (st\<lparr>free_async_space := fa, pages := pg\<rparr>, ret) \<and> loose b (released b fa pg st)"
proof -
  note t = tiled_at [OF st(1) b(1)]
  let ?B = "proc_buffer st div 4096"
  define i j where "i = (b + 40 + 4095) div 4096" and "j = bend st b div 4096"
  have mem: "q \<in> {i..<j} \<longleftrightarrow> inner b (bend st b) q" for q unfolding i_def j_def page_range_inner inner_def by (rule refl)
  have e: "page_up (b + 40) = 4096 * i" "page_down (b + 40 + binder_buffer_size st b) = 4096 * j" using t(2,9) by (simp_all add: i_def j_def)
  have base: "proc_buffer st = 4096 * ?B" using st(1) by (simp add: tiled_def placed_def)
  have Bi: "?B \<le> i" unfolding i_def by (rule div_le_mono) (use t(5) in simp)
  have bl: "blocks st = marks st xs @ (b, False) # marks st ys" using b by (simp add: blocks_marks)
  define pg where "pg = (\<lambda>p. pages st p \<and> p + ?B \<notin> {i..<j})"
  have "\<forall>q \<in> {i..<j}. pages st (q - ?B)"
  proof
    fix q assume q: "q \<in> {i..<j}"
    then have "want (region_end st) (blocks st) q" using mem t(3) by (simp add: bl want_append)
    moreover have "q - ?B + ?B = q" using q Bi by simp
    ultimately show "pages st (q - ?B)" using st(3) unfolding pages_ok_def by simp
  qed
  then obtain ret where "binder_update_page_range (\<lambda>_. Page_ok) mm False (4096 * i) (4096 * j) False
      (st\<lparr>free_async_space := fa\<rparr>) = Some (st\<lparr>free_async_space := fa, pages := pg\<rparr>, ret)"
    using free_pages [of "st\<lparr>free_async_space := fa\<rparr>" ?B i j "\<lambda>_. Page_ok" mm False] base Bi by (auto simp: pg_def)
  moreover have "loose b (released b fa pg st)"
  proof -
    let ?st = "released b fa pg st"
    have "marks ?st xs = marks st xs" "marks ?st ys = marks st ys" using t(10,11) by (auto intro!: marks_cong split: if_splits)
    then have bl': "blocks ?st = marks st xs @ (b, True) # marks st ys" by (simp add: blocks_marks b(1))
    have l: "linked (region_end st) (map fst (marks st xs @ (b, True) # marks st ys))" using t(1) by simp
    have "pages_ok ?st" using st(3) want_release [OF l] mem t(3) unfolding pages_ok_def bl bl' by (simp add: pg_def)
    moreover have "placed ?st" using st(1) by (simp add: tiled_def placed_def)
    moreover have "{c \<in> set (buffers ?st). buf_free (headers ?st c)} - {b} = {c \<in> set (buffers st). buf_free (headers st c)}"
      "{c \<in> set (buffers ?st). \<not> buf_free (headers ?st c)} = {c \<in> set (buffers st). \<not> buf_free (headers st c)} - {b}"
      using b by (auto split: if_splits)
    moreover have "free_tree ?st (free_buffers st) {c \<in> set (buffers st). buf_free (headers st c)}"
      using st(2) by (auto simp: trees_ok_def intro: free_tree_cong)
    moreover have "alloc_tree (tree_erase b (allocated_buffers st)) ({c \<in> set (buffers st). \<not> buf_free (headers st c)} - {b})"
      using st(2) by (intro erase_alloc_ok) (simp add: trees_ok_def)
    ultimately show ?thesis using b(1) by (simp add: loose_def)
  qed
  ultimately show ?thesis unfolding e by blast
qed

lemma free_code:
  assumes "\<not> buf_free (headers st b)" "unat (used_size st b) \<le> binder_buffer_size st b" "buf_transaction (headers st b) = None"
    "proc_buffer st \<le> b" "b \<le> proc_buffer st + buffer_size st"
    and "fa = (if async_transaction (headers st b) then free_async_space st + (used_size st b + 40) else free_async_space st)"
    and "binder_update_page_range (\<lambda>_. Page_ok) mm False (page_up (b + 40)) (page_down (b + 40 + binder_buffer_size st b)) False
      (st\<lparr>free_async_space := fa\<rparr>) = Some (st\<lparr>free_async_space := fa, pages := pg\<rparr>, ret)"
  shows "binder_free_buf mm b st = do { st \<leftarrow> absorb_next mm b (released b fa pg st); join_prev mm b st }"
proof -
  have fa: "(if async_transaction (headers st b) then st\<lparr>free_async_space := free_async_space st + (used_size st b + 40)\<rparr> else st) =
      st\<lparr>free_async_space := fa\<rparr>" by (simp add: assms(6))
  show ?thesis
    unfolding binder_free_buf_def Let_def fa assms(7) absorb_next_def join_prev_def released_def
    using assms(1-5) by (simp cong: option.case_cong if_cong)
qed

lemma released_simps' [simp]: "proc_vma (released b fa pg st) = proc_vma st" "user_buffer_offset (released b fa pg st) = user_buffer_offset st"
  by (simp_all add: released_def set_header_def)

text \<open>The list of buffers and the headers after freeing \<open>b\<close>.\<close>

definition freed_list :: "binder_space \<Rightarrow> nat list \<Rightarrow> nat \<Rightarrow> nat list \<Rightarrow> nat list" where
  "freed_list st xs b ys = (if xs \<noteq> [] \<and> buf_free (headers st (last xs)) then xs else xs @ [b]) @ trim_next st ys"

definition returned :: "binder_space \<Rightarrow> nat \<Rightarrow> u32" where
  "returned st b = (if async_transaction (headers st b) then free_async_space st + (used_size st b + 40) else free_async_space st)"

definition freed :: "nat \<Rightarrow> binder_space \<Rightarrow> binder_space \<Rightarrow> bool" where
  "freed b st st' \<longleftrightarrow> tiled st' \<and> trees_ok st' \<and> pages_ok st' \<and> frame st st' \<and> free_async_space st' = returned st b \<and>
     headers st' = (headers st)(b := (headers st b)\<lparr>buf_free := True\<rparr>) \<and>
     (\<forall>xs ys. buffers st = xs @ b # ys \<longrightarrow> buffers st' = freed_list st xs b ys)"

lemma calm_trim:
  assumes "calm (marks st ys)"
  shows "calm (marks st (trim_next st ys))" "trim_next st ys = [] \<or> \<not> buf_free (headers st (hd (trim_next st ys)))"
proof -
  have "calm (marks st (trim_next st ys)) \<and> (trim_next st ys = [] \<or> \<not> buf_free (headers st (hd (trim_next st ys))))"
  proof (cases ys)
    case (Cons y zs)
    then show ?thesis using assms by (cases zs) (auto simp: trim_next_def calm_Cons)
  qed (simp add: trim_next_def calm_def)
  then show "calm (marks st (trim_next st ys))" "trim_next st ys = [] \<or> \<not> buf_free (headers st (hd (trim_next st ys)))" by blast+
qed

lemma trim_subset: "set (trim_next st ys) \<subseteq> set ys"
  by (auto simp: trim_next_def split: list.splits)

lemma trim_released: "b \<notin> set ys \<Longrightarrow> trim_next (released b fa pg st) ys = trim_next st ys"
  by (cases ys) (auto simp: trim_next_def)

lemma free_shape:
  assumes inv: "alloc_inv st" and b: "b \<in> set (buffers st)" "\<not> buf_free (headers st b)" "buf_transaction (headers st b) = None"
  shows "\<exists>st'. binder_free_buf mm b st = Some st' \<and> freed b st st'"
proof -
  obtain xs ys where xs: "buffers st = xs @ b # ys" using b(1) by (auto simp: in_set_conv_decomp)
  have i: "tiled st" "trees_ok st" "pages_ok st" using inv by (auto simp: alloc_inv_def)
  note t = tiled_at [OF i(1) xs]
  have calm: "calm (marks st xs)" "calm (marks st ys)" using i(1) by (auto simp: tiled_def blocks_marks xs calm_append calm_Cons)
  obtain pg ret where pg: "binder_update_page_range (\<lambda>_. Page_ok) mm False (page_up (b + 40)) (page_down (b + 40 + binder_buffer_size st b)) False
      (st\<lparr>free_async_space := returned st b\<rparr>) = Some (st\<lparr>free_async_space := returned st b, pages := pg\<rparr>, ret)"
    "loose b (released b (returned st b) pg st)" using release_ok [OF i xs b(2)] by blast
  define st1 where "st1 = released b (returned st b) pg st"
  have "b \<le> proc_buffer st + buffer_size st" using t(2,4) by (simp add: region_end_def)
  then have code: "binder_free_buf mm b st = do { st \<leftarrow> absorb_next mm b st1; join_prev mm b st }"
    unfolding st1_def using inv b t(5) pg(1) by (intro free_code) (auto simp: alloc_inv_def used_ok_def returned_def)
  have l1: "loose b st1" "buffers st1 = xs @ b # ys" using pg(2) xs by (simp_all add: st1_def)
  obtain st2 where st2: "absorb_next mm b st1 = Some st2" "loose b st2" "still st1 st2" "buffers st2 = xs @ b # trim_next st ys"
    using absorb_next_ok [OF l1, of mm] t(11) by (auto simp: st1_def trim_released)
  have nb: "b \<notin> set (trim_next st ys)" using trim_subset t(11) by blast
  have h2: "headers st2 = headers st1" using st2(3) by (simp add: still_def)
  have m: "marks st2 us = marks st us" if "b \<notin> set us" for us using that by (simp add: marks_def h2 st1_def)
  have "\<exists>st'. join_prev mm b st2 = Some st' \<and> tiled st' \<and> trees_ok st' \<and> pages_ok st' \<and> still st2 st' \<and>
      buffers st' = (if xs \<noteq> [] \<and> buf_free (headers st2 (last xs)) then xs else xs @ [b]) @ trim_next st ys"
  proof (rule join_prev_ok [OF st2(2,4)])
    show "calm (marks st2 xs)" "calm (marks st2 (trim_next st ys))" using calm calm_trim m nb t(10) by simp_all
    show "trim_next st ys = [] \<or> \<not> buf_free (headers st2 (hd (trim_next st ys)))"
      using calm_trim(2) [OF calm(2)] nb by (cases "trim_next st ys") (auto simp: h2 st1_def)
  qed
  then obtain st' where st': "join_prev mm b st2 = Some st'" "tiled st'" "trees_ok st'" "pages_ok st'" "still st2 st'"
    "buffers st' = (if xs \<noteq> [] \<and> buf_free (headers st2 (last xs)) then xs else xs @ [b]) @ trim_next st ys" by blast
  have "xs \<noteq> [] \<Longrightarrow> headers st2 (last xs) = headers st (last xs)" using t(10) last_in_set [of xs] by (auto simp: h2 st1_def)
  then have bs: "buffers st' = freed_list st xs b ys" using st'(6) by (auto simp: freed_list_def)
  have uniq: "us = xs \<and> vs = ys" if "buffers st = us @ b # vs" for us vs
    using that xs t(10,11) append_Cons_eq_iff [of b us vs xs ys] tiled_at(10,11) [OF i(1) that] by auto
  have "freed b st st'" unfolding freed_def
    using st'(2-5) st2(3) bs uniq by (auto simp: still_def st1_def frame_def)
  then show ?thesis using code st2(1) st'(1) by auto
qed

text \<open>The other allocated buffers keep their place, header and size.\<close>

lemma trim_size:
  assumes "linked e (xs @ b # ys)" "c \<in> set xs \<union> set (trim_next st ys)"
  shows "bend_of e (xs @ b # trim_next st ys) c = bend_of e (xs @ b # ys) c"
proof (cases ys)
  case (Cons y zs)
  then show ?thesis using bend_insert [of e xs b y zs c] assms by (auto simp: trim_next_def)
qed (simp add: trim_next_def)

lemma linked_trim: "linked e (xs @ b # ys) \<Longrightarrow> linked e (xs @ b # trim_next st ys)"
  by (cases ys) (auto simp: trim_next_def linked_append linked_Cons)

lemma freed_others:
  assumes "tiled st" "freed b st st'" "b \<in> set (buffers st)" "\<not> buf_free (headers st b)" "c \<in> set (buffers st)" "\<not> buf_free (headers st c)" "c \<noteq> b"
  shows "c \<in> set (buffers st')" "headers st' c = headers st c" "binder_buffer_size st' c = binder_buffer_size st c"
proof -
  obtain xs ys where xs: "buffers st = xs @ b # ys" using assms(3) by (auto simp: in_set_conv_decomp)
  note t = tiled_at [OF assms(1) xs]
  have bs: "buffers st' = freed_list st xs b ys" and f: "frame st st'" using assms(2) xs by (auto simp: freed_def)
  have c: "c \<in> set xs \<or> c \<in> set (trim_next st ys)"
    using assms(5-7) xs by (cases ys) (auto simp: trim_next_def)
  then show "c \<in> set (buffers st')" by (auto simp: bs freed_list_def)
  show "headers st' c = headers st c" using assms(2,7) by (simp add: freed_def)
  have b1: "bend_of (region_end st) (xs @ b # trim_next st ys) c = bend st c"
    using trim_size [OF t(1), of c st] c by (simp add: bend_def xs)
  have "bend_of (region_end st) (freed_list st xs b ys) c = bend st c"
  proof (cases "xs \<noteq> [] \<and> buf_free (headers st (last xs))")
    case True
    then obtain ws a where a: "xs = ws @ [a]" "buf_free (headers st a)" by (metis append_butlast_last_id)
    then have "c \<in> set ws \<union> set (trim_next st ys)" using c assms(6) by auto
    moreover have "linked (region_end st) (ws @ a # b # trim_next st ys)" using linked_trim [OF t(1), of st] by (simp add: a)
    ultimately show ?thesis using b1 bend_insert [of "region_end st" ws a b "trim_next st ys" c] by (simp add: a freed_list_def)
  next
    case False
    then show ?thesis using b1 by (auto simp: freed_list_def)
  qed
  then show "binder_buffer_size st' c = binder_buffer_size st c"
    by (simp add: binder_buffer_size_bend bend_def bs frame_end [OF f])
qed

lemma freed_allocated:
  assumes "tiled st" "freed b st st'" "b \<in> set (buffers st)" "\<not> buf_free (headers st b)"
  shows "{c \<in> set (buffers st'). \<not> buf_free (headers st' c)} = {c \<in> set (buffers st). \<not> buf_free (headers st c)} - {b}"
proof -
  obtain xs ys where xs: "buffers st = xs @ b # ys" using assms(3) by (auto simp: in_set_conv_decomp)
  have bs: "buffers st' = freed_list st xs b ys" "headers st' = (headers st)(b := (headers st b)\<lparr>buf_free := True\<rparr>)"
    using assms(2) xs by (auto simp: freed_def)
  have "set (buffers st') \<subseteq> set (buffers st)" using trim_subset [of st ys] by (auto simp: bs(1) freed_list_def xs)
  then show ?thesis using freed_others [OF assms] by (auto simp: bs(2) split: if_splits)
qed

lemma free_inv:
  assumes inv: "alloc_inv st" and b: "b \<in> set (buffers st)" "\<not> buf_free (headers st b)" and f: "freed b st st'"
  shows "alloc_inv st'"
proof -
  have ti: "tiled st" using inv by (simp add: alloc_inv_def)
  define A where "A = {c \<in> set (buffers st). \<not> buf_free (headers st c)}"
  have A: "c \<in> set (buffers st') \<and> \<not> buf_free (headers st' c) \<longleftrightarrow> c \<in> A - {b}" for c
    using freed_allocated [OF ti f b] by (auto simp: A_def)
  have keep: "headers st' c = headers st c" "binder_buffer_size st' c = binder_buffer_size st c" if "c \<in> A - {b}" for c
    using freed_others [OF ti f b, of c] that by (auto simp: A_def)
  have "unat (used_size st' c) \<le> binder_buffer_size st' c" if "c \<in> A - {b}" for c
    using keep [OF that] that inv by (auto simp: used_size_def alloc_inv_def used_ok_def A_def)
  then have "used_ok st'" unfolding used_ok_def using A by blast
  moreover have "budget st'"
  proof -
    define S where "S = {c \<in> A. async_transaction (headers st c)}"
    define w where "w = (\<lambda>c. unat (used_size st c) + 40)"
    have fin: "finite S" by (rule finite_subset [of _ "set (buffers st)"]) (auto simp: S_def A_def)
    have old: "async_used st = sum w S" unfolding async_used_def w_def by (rule sum.cong) (auto simp: S_def A_def)
    have "{c. c \<in> set (buffers st') \<and> \<not> buf_free (headers st' c) \<and> async_transaction (headers st' c)} =
        {c. c \<in> A - {b} \<and> async_transaction (headers st' c)}" using A by blast
    also have "\<dots> = S - {b}" using keep(1) by (auto simp: S_def)
    finally have new: "async_used st' = sum w (S - {b})" unfolding async_used_def w_def
      by (rule sum.cong) (use keep(1) in \<open>auto simp: S_def used_size_def\<close>)
    have bud: "unat (free_async_space st) + sum w S = buffer_size st div 2" using inv old by (simp add: alloc_inv_def budget_def)
    have fr: "free_async_space st' = returned st b" "buffer_size st' = buffer_size st" using f by (auto simp: freed_def frame_def)
    have bA: "b \<in> A" using b by (simp add: A_def)
    show ?thesis
    proof (cases "async_transaction (headers st b)")
      case True
      then have S: "sum w S = w b + sum w (S - {b})" using fin bA by (intro sum.remove) (simp_all add: S_def)
      have "buffer_size st \<le> 0x400000" using ti by (simp add: tiled_def placed_def)
      then have "buffer_size st div 2 < 2 ^ 32" by simp
      then have le: "unat (free_async_space st) + w b < 2 ^ 32" using bud S by linarith
      then have "unat (used_size st b + 40) = w b" unfolding w_def by (intro add40) auto
      then have "unat (free_async_space st') = unat (free_async_space st) + w b"
        using le True by (simp add: fr(1) returned_def unat_word_ariths)
      then show ?thesis using bud S by (simp add: budget_def new fr(2))
    next
      case False
      then have "S - {b} = S" by (auto simp: S_def)
      then show ?thesis using False bud by (simp add: budget_def new fr returned_def)
    qed
  qed
  ultimately show ?thesis using f by (simp add: alloc_inv_def freed_def)
qed

section \<open>Mapping\<close>

lemma colour_loop_steps:
  "\<exists>k \<le> (unat (CACHE_COLOUR b) + 4 - unat (CACHE_COLOUR s)) mod 4. colour_loop b s = s + 4096 * word_of_nat k"
proof (induction b s rule: colour_loop.induct)
  case (1 b s)
  show ?case
  proof (cases "CACHE_COLOUR (s XOR b) = 0")
    case True
    then show ?thesis by (intro exI [of _ 0]) (simp add: colour_loop.simps)
  next
    case False
    then obtain k where k: "k \<le> (unat (CACHE_COLOUR b) + 4 - unat (CACHE_COLOUR (s + 4096))) mod 4"
      "colour_loop b (s + 4096) = s + 4096 + 4096 * word_of_nat k" using 1 by blast
    have "unat (CACHE_COLOUR b) < 4" "unat (CACHE_COLOUR s) < 4" by (simp_all add: cache_colour_unat)
    moreover have "unat (CACHE_COLOUR b) \<noteq> unat (CACHE_COLOUR s)"
      using False cache_colour_xor [of s b] word_unat_eq_iff [of "CACHE_COLOUR s"] by auto
    ultimately have "k + 1 \<le> (unat (CACHE_COLOUR b) + 4 - unat (CACHE_COLOUR s)) mod 4"
      using k(1) colours_apart [of "unat (CACHE_COLOUR b)" "unat (CACHE_COLOUR s)"] by (simp add: cache_colour_next)
    moreover have "colour_loop b s = s + 4096 * word_of_nat (k + 1)"
      using k(2) False by (simp add: colour_loop.simps [of b s] algebra_simps)
    ultimately show ?thesis by blast
  qed
qed

lemma colour_loop_bound: "\<exists>k < 4. colour_loop b s = s + 4096 * word_of_nat k"
  using colour_loop_steps [of b s] by (meson le_less_trans mod_less_divisor zero_less_numeral)

lemma colour_loop_ends: "CACHE_COLOUR (colour_loop b s XOR b) = 0"
  by (induction b s rule: colour_loop.induct) (subst colour_loop.simps, simp)

text \<open>The length of a mapping after the cap at 4 MB.\<close>

definition capped :: "binder_vma \<Rightarrow> nat" where
  "capped vma = min (unat (vma_end vma - vma_start vma)) 0x400000"

text \<open>
  What the kernel promises of a mapping and of the area it reserves: whole pages, the mapping not
  empty and at least three pages below the end of the address space, as user addresses are; the
  area not at address 0 and below the end of the address space, with room for the mapping.
\<close>

definition mappable :: "u32 \<Rightarrow> binder_vma \<Rightarrow> bool" where
  "mappable a vma \<longleftrightarrow> 0 < a \<and> 4096 dvd unat a \<and> vma_start vma < vma_end vma \<and>
     4096 dvd unat (vma_end vma - vma_start vma) \<and> unat (vma_end vma) + 0x3000 < 2 ^ 32 \<and>
     unat a + capped vma < 2 ^ 32"

lemma capped_ok:
  assumes "mappable a vma"
  shows "0 < capped vma" "capped vma \<le> 0x400000" "4096 dvd capped vma"
    "unat (vma_start vma) + capped vma + 0x3000 < 2 ^ 32"
proof -
  have lt: "unat (vma_start vma) < unat (vma_end vma)" using assms by (simp add: mappable_def word_less_nat_alt)
  then have d: "unat (vma_end vma - vma_start vma) = unat (vma_end vma) - unat (vma_start vma)"
    by (simp add: unat_sub word_le_nat_alt)
  then show "0 < capped vma" using lt by (simp add: capped_def)
  show "capped vma \<le> 0x400000" by (simp add: capped_def)
  have "4096 dvd unat (vma_end vma - vma_start vma)" using assms by (simp add: mappable_def)
  then show "4096 dvd capped vma" by (auto simp: capped_def min_def)
  show "unat (vma_start vma) + capped vma + 0x3000 < 2 ^ 32"
    using assms lt d by (auto simp: capped_def mappable_def min_def)
qed

definition unmapped :: "binder_space \<Rightarrow> bool" where
  "unmapped st \<longleftrightarrow> proc_buffer st = 0 \<and> free_buffers st = Leaf \<and> allocated_buffers st = Leaf"

definition first_space :: "u32 \<Rightarrow> nat \<Rightarrow> u32 \<Rightarrow> binder_space \<Rightarrow> binder_space" where
  "first_space a n off st = st\<lparr>proc_buffer := unat a, user_buffer_offset := off, pages := \<lambda>p. p = 0, buffer_size := n, buffers := [unat a],
     headers := (headers st)(unat a := (headers st (unat a))\<lparr>buf_free := True\<rparr>), free_buffers := Node Leaf (unat a, Black) Leaf,
     free_async_space := of_nat (n div 2), proc_vma := True\<rparr>"

lemma first_space_inv:
  assumes "unmapped st" "0 < a" "4096 dvd unat a" "4096 dvd n" "0 < n" "n \<le> 0x400000" "unat a + n < 2 ^ 32"
  shows "alloc_inv (first_space a n off st)"
proof -
  let ?st = "first_space a n off st" and ?a = "unat a"
  have n: "4096 \<le> n" using assms(4,5) by (rule dvd_imp_le)
  have s: "region_end ?st = ?a + n" "buffers ?st = [?a]" "blocks ?st = [(?a, True)]" "proc_buffer ?st = ?a" "buffer_size ?st = n"
    "free_buffers ?st = Node Leaf (?a, Black) Leaf" "allocated_buffers ?st = Leaf" "buf_free (headers ?st ?a)"
    "pages ?st = (\<lambda>p. p = 0)" "free_async_space ?st = of_nat (n div 2)"
    using assms(1) by (simp_all add: first_space_def region_end_def blocks_def unmapped_def)
  have "tiled ?st" using assms n by (simp add: tiled_def placed_def s linked_Cons calm_def word_less_nat_alt)
  moreover have "trees_ok ?st"
  proof -
    have "{b \<in> set (buffers ?st). buf_free (headers ?st b)} = {?a}" "{b \<in> set (buffers ?st). \<not> buf_free (headers ?st b)} = {}" using s by auto
    then show ?thesis by (simp add: trees_ok_def s free_tree_def alloc_tree_def rbt_def)
  qed
  moreover have "pages_ok ?st"
  proof -
    have "?a div 4096 * 4096 = ?a" using assms(3) by simp
    then have "hdr_on ?a (p + ?a div 4096) \<longleftrightarrow> p = 0" for p by (auto simp: hdr_on_def algebra_simps)
    then show ?thesis by (simp add: pages_ok_def s)
  qed
  moreover have "used_ok ?st" using s by (simp add: used_ok_def)
  moreover have "budget ?st"
  proof -
    have "n div 2 < 2 ^ 32" using assms(6) by simp
    moreover have "async_used ?st = 0" using s by (auto simp: async_used_def intro!: sum.neutral)
    ultimately show ?thesis using s by (simp add: budget_def unat_of_nat)
  qed
  ultimately show ?thesis by (simp add: alloc_inv_def)
qed

lemma first_page:
  "alloc_range env b b b (b + 4096) (\<lambda>_. False) = (if env 0 = Page_ok then Some ((\<lambda>p. p = 0), 0) else Some (\<lambda>_. False, - ENOMEM))"
proof -
  have "alloc_range env b b (b + 4096) (b + 4096) pgs = Some (pgs, 0)" for pgs by (simp add: alloc_range.simps)
  moreover have "free_range b b b pgs = Some pgs" for pgs by (simp add: free_range.simps)
  moreover have "((\<lambda>_. False)(0 := True)) = (\<lambda>p. p = (0 :: nat))" "((\<lambda>_. False)(0 := False)) = (\<lambda>_ :: nat. False)" by (auto simp: fun_eq_iff)
  ultimately show ?thesis by (subst alloc_range.simps) (cases "env 0"; simp add: Let_def)
qed

lemma first_insert: "tree_insert_color b (Node Leaf (b, Red) Leaf) = Node Leaf (b, Black) Leaf"
  by (simp add: tree_insert_color_def)

text \<open>The mapping after the cap, the flags and the move of its start.\<close>

definition moved :: "u32 \<Rightarrow> bool \<Rightarrow> binder_vma \<Rightarrow> binder_vma" where
  "moved a aliasing vma =
     (let vma = (if vma_end vma - vma_start vma > SZ_4M then vma\<lparr>vma_end := vma_start vma + SZ_4M\<rparr> else vma);
          vma = vma\<lparr>vma_flags := (vma_flags vma OR VM_DONTCOPY) AND NOT VM_MAYWRITE\<rparr>
      in if aliasing then vma\<lparr>vma_start := colour_loop a (vma_start vma)\<rparr> else vma)"

text \<open>Where the mapping then starts and ends, as numbers; \<open>k\<close> pages are skipped.\<close>

lemma moved_bounds:
  assumes "mappable a vma"
  obtains k where "k < 4" "unat (vma_start (moved a aliasing vma)) = unat (vma_start vma) + 4096 * k"
    "unat (vma_end (moved a aliasing vma)) = unat (vma_start vma) + capped vma"
    "k = 0 \<longleftrightarrow> (aliasing \<longrightarrow> CACHE_COLOUR (vma_start vma XOR a) = 0)"
proof -
  let ?s = "vma_start vma"
  define e where "e = (if vma_end vma - ?s > SZ_4M then ?s + SZ_4M else vma_end vma)"
  obtain k where k: "k < 4" "colour_loop a ?s = ?s + 4096 * word_of_nat k" using colour_loop_bound by blast
  define j where "j = (if aliasing then k else 0)"
  have u: "unat (4096 * word_of_nat i :: u32) = 4096 * i" if "i < 4" for i
    using that by (simp add: unat_word_ariths unat_of_nat)
  have m: "?s < vma_end vma" "unat (vma_end vma) + 0x3000 < 2 ^ 32" using assms by (simp_all add: mappable_def)
  have d: "unat (vma_end vma - ?s) = unat (vma_end vma) - unat ?s" using m(1) by (simp add: unat_sub)
  have le: "unat ?s < unat (vma_end vma)" using m(1) by (simp add: word_less_nat_alt)
  have e: "unat e = unat ?s + capped vma"
    using le m(2) d by (auto simp: e_def capped_def word_less_nat_alt unat_word_ariths)
  have st: "unat (?s + 4096 * word_of_nat i) = unat ?s + 4096 * i" if "i < 4" for i
    using le m(2) u [OF that] that by (simp add: unat_word_ariths)
  have "CACHE_COLOUR (?s XOR a) = 0 \<longleftrightarrow> k = 0"
  proof
    assume "CACHE_COLOUR (?s XOR a) = 0"
    then have "colour_loop a ?s = ?s" by (simp add: colour_loop.simps)
    then show "k = 0" using k(2) st [OF k(1)] by simp
  next
    assume "k = 0"
    then have "colour_loop a ?s = ?s" using k(2) by simp
    then show "CACHE_COLOUR (?s XOR a) = 0" using colour_loop_ends [of a ?s] by simp
  qed
  moreover have "vma_end (moved a aliasing vma) = e" "vma_start (moved a aliasing vma) = ?s + 4096 * word_of_nat j"
    by (simp_all add: moved_def e_def j_def Let_def k(2))
  ultimately show thesis using that [of j] k(1) e st [of j] by (auto simp: j_def)
qed

lemma mmap_code:
  fixes aliasing :: bool and vma :: binder_vma
  assumes "unmapped st"
  defines "v \<equiv> \<lambda>a. moved a aliasing vma"
  shows "binder_mmap env mm area aliasing array_ok vma st =
    (if vma_flags vma AND VM_WRITE \<noteq> 0
     then Some (st, if vma_end vma - vma_start vma > SZ_4M then vma\<lparr>vma_end := vma_start vma + SZ_4M\<rparr> else vma, - EPERM)
     else (case area of
        None \<Rightarrow> Some (st, moved 0 False vma, - ENOMEM)
      | Some a \<Rightarrow>
          (let n = unat (vma_end (v a) - vma_start (v a)); off = vma_start vma - a in
           if \<not> array_ok then Some (st\<lparr>user_buffer_offset := off\<rparr>, v a, - ENOMEM)
           else if n div 4096 = 0 then None
           else if env 0 \<noteq> Page_ok \<or> vma_start vma < vma_start (v a) \<or> vma_end (v a) \<le> vma_start vma
           then Some (st\<lparr>user_buffer_offset := off, pages := \<lambda>_. False, buffer_size := n\<rparr>, v a, - ENOMEM)
           else Some (first_space a n off st, v a, 0))))"
proof -
  have u: "proc_buffer st = 0" "free_buffers st = Leaf" using assms(1) by (simp_all add: unmapped_def)
  have ins: "vm_insert_page w x r = Page_ok \<longleftrightarrow> r = Page_ok \<and> \<not> (x < vma_start w \<or> vma_end w \<le> x)" for w x r
    by (cases r) (simp_all add: vm_insert_page_def)
  show ?thesis
    using u by (cases st) (auto simp: binder_mmap_def moved_def v_def Let_def binder_update_page_range_def first_page ins
      binder_insert_free_buffer_def first_insert first_space_def set_header_def fun_upd_def split: option.splits if_splits)
qed

lemma first_space_mapped:
  assumes "unmapped st" "mappable a vma" "\<not> vma_start vma < vma_start (moved a aliasing vma)"
  shows "alloc_inv (first_space a (unat (vma_end (moved a aliasing vma) - vma_start (moved a aliasing vma))) off st)"
proof -
  obtain k where k: "unat (vma_start (moved a aliasing vma)) = unat (vma_start vma) + 4096 * k"
    "unat (vma_end (moved a aliasing vma)) = unat (vma_start vma) + capped vma"
    using moved_bounds [OF assms(2)] by blast
  have "k = 0" using assms(3) k(1) by (simp add: word_less_nat_alt)
  then have n: "unat (vma_end (moved a aliasing vma) - vma_start (moved a aliasing vma)) = capped vma"
    using k by (simp add: unat_sub word_le_nat_alt)
  show ?thesis unfolding n using assms(1,2) capped_ok [OF assms(2)]
    by (intro first_space_inv) (simp_all add: mappable_def)
qed


section \<open>The allocator as a pool\<close>

definition live :: "binder_space \<Rightarrow> nat set" where
  "live st = {b \<in> set (buffers st). \<not> buf_free (headers st b)}"

definition idle :: "binder_space \<Rightarrow> nat \<Rightarrow> bool" where
  "idle st b \<longleftrightarrow> buf_transaction (headers st b) = None"

text \<open>What a client of a pool of buffers relies on.\<close>

locale buffer_pool =
  fixes inv :: "'s \<Rightarrow> bool" and held :: "'s \<Rightarrow> nat set" and may_free :: "'s \<Rightarrow> nat \<Rightarrow> bool"
    and alloc :: "'r \<Rightarrow> 's \<Rightarrow> ('s \<times> nat option) option" and release :: "nat \<Rightarrow> 's \<Rightarrow> 's option"
  assumes alloc_total: "inv s \<Longrightarrow> \<exists>s' r. alloc q s = Some (s', r)"
    and alloc_none: "inv s \<Longrightarrow> alloc q s = Some (s', None) \<Longrightarrow> s' = s"
    and alloc_some: "inv s \<Longrightarrow> alloc q s = Some (s', Some b) \<Longrightarrow> inv s' \<and> b \<notin> held s \<and> held s' = insert b (held s)"
    and release_ok: "inv s \<Longrightarrow> b \<in> held s \<Longrightarrow> may_free s b \<Longrightarrow> \<exists>s'. release b s = Some s' \<and> inv s' \<and> held s' = held s - {b}"
begin

lemma alloc_keeps: "inv s \<Longrightarrow> alloc q s = Some (s', r) \<Longrightarrow> inv s'"
  using alloc_none alloc_some by (cases r) auto

lemma release_keeps: "inv s \<Longrightarrow> b \<in> held s \<Longrightarrow> may_free s b \<Longrightarrow> release b s = Some s' \<Longrightarrow> inv s' \<and> held s' = held s - {b}"
  using release_ok by fastforce

lemma never_shared:
  assumes "inv s" "alloc q s = Some (s1, Some b)" "alloc q' s1 = Some (s2, Some c)"
  shows "b \<noteq> c" "{b, c} \<subseteq> held s2"
  using alloc_some [OF assms(1,2)] alloc_some [OF _ assms(3)] by auto

lemma alloc_release:
  assumes "inv s" "alloc q s = Some (s1, Some b)" "may_free s1 b"
  shows "\<exists>s2. release b s1 = Some s2 \<and> inv s2 \<and> held s2 = held s"
  using alloc_some [OF assms(1,2)] release_ok [of s1 b] assms(3) by fastforce

end

type_synonym request = "(nat \<Rightarrow> page_result) \<times> bool \<times> u32 \<times> u32 \<times> bool"

definition alloc_request :: "request \<Rightarrow> binder_space \<Rightarrow> (binder_space \<times> nat option) option" where
  "alloc_request q st = (case q of (env, mm, d, p, a) \<Rightarrow> binder_alloc_buf env mm d p a st)"

lemma alloc_some_ok:
  assumes inv: "alloc_inv st" and al: "binder_alloc_buf env mm d p a st = Some (st', Some b)"
  shows "alloc_inv st' \<and> b \<notin> live st \<and> live st' = insert b (live st) \<and> can_alloc d p a st \<and> fits d p b st \<and>
    (\<forall>c. fits d p c st \<longrightarrow> binder_buffer_size st b \<le> binder_buffer_size st c) \<and> need d p \<le> binder_buffer_size st' b \<and>
    headers st' b = (headers st b)\<lparr>buf_free := False, data_size := d, offsets_size := p, async_transaction := a\<rparr> \<and>
    (\<forall>c \<in> live st. headers st' c = headers st c \<and> binder_buffer_size st' c = binder_buffer_size st c)"
proof -
  obtain st1 where t: "st' = granted b d p a st1" "can_alloc d p a st" "fits d p b st" "taken b (need d p) st st1"
    "\<forall>c. fits d p c st \<longrightarrow> binder_buffer_size st b \<le> binder_buffer_size st c"
    using alloc_cases [OF inv, of env mm d p a] al by auto
  have ti: "tiled st" and b: "b \<in> set (buffers st)" "buf_free (headers st b)" using inv t(3) by (auto simp: alloc_inv_def fits_def)
  have sz: "binder_buffer_size st' = binder_buffer_size st1" using same_shape_ok(1) [OF grant_shape(1) [OF t(4)], of d p a] t(1) by simp
  have "live st' = insert b (live st)"
    using taken_allocated [OF ti t(4) b(1)] by (auto simp: live_def t(1) split: if_splits)
  moreover have "headers st' c = headers st c \<and> binder_buffer_size st' c = binder_buffer_size st c" if "c \<in> live st" for c
    using taken_others [OF ti t(4) b(1), of c] that b(2) sz by (auto simp: live_def t(1))
  moreover have "need d p \<le> binder_buffer_size st' b" using t(4) sz by (simp add: taken_def)
  moreover have "headers st' b = (headers st b)\<lparr>buf_free := False, data_size := d, offsets_size := p, async_transaction := a\<rparr>"
    using t(4) by (auto simp: t(1) taken_def Let_def split: if_splits)
  moreover have "b \<notin> live st" using b by (simp add: live_def)
  moreover have "alloc_inv st'" using grant_inv [OF inv t(3,2,4)] t(1) by simp
  ultimately show ?thesis using t(2,3,5) by blast
qed

lemma free_ok:
  assumes "alloc_inv st" "b \<in> live st" "idle st b"
  shows "\<exists>st'. binder_free_buf mm b st = Some st' \<and> freed b st st' \<and> alloc_inv st' \<and> live st' = live st - {b}"
proof -
  have b: "b \<in> set (buffers st)" "\<not> buf_free (headers st b)" "buf_transaction (headers st b) = None" and ti: "tiled st"
    using assms by (auto simp: live_def idle_def alloc_inv_def)
  obtain st' where "binder_free_buf mm b st = Some st'" "freed b st st'" using free_shape [OF assms(1) b] by blast
  then show ?thesis using free_inv [OF assms(1) b(1,2)] freed_allocated [OF ti _ b(1,2)] by (auto simp: live_def)
qed

interpretation pool: buffer_pool alloc_inv live idle alloc_request "binder_free_buf mm" for mm
proof
  fix s s' b and q :: request
  obtain env m d p a where q: "q = (env, m, d, p, a)" by (cases q)
  assume inv: "alloc_inv s"
  show "\<exists>s' r. alloc_request q s = Some (s', r)" using alloc_cases [OF inv, of env m d p a] by (auto simp: alloc_request_def q)
  show "s' = s" if "alloc_request q s = Some (s', None)"
    using that alloc_cases [OF inv, of env m d p a] by (auto simp: alloc_request_def q)
  show "alloc_inv s' \<and> b \<notin> live s \<and> live s' = insert b (live s)" if "alloc_request q s = Some (s', Some b)"
    using that alloc_some_ok [OF inv, of env m d p a] by (simp add: alloc_request_def q)
  show "\<exists>s'. binder_free_buf mm b s = Some s' \<and> alloc_inv s' \<and> live s' = live s - {b}" if "b \<in> live s" "idle s b"
    using free_ok [OF inv that] by blast
qed

section \<open>What a process can reach\<close>

text \<open>
  Between two calls of the allocator the driver and the sender write to the region: data, the
  memory no header lies on, and the fields of headers the allocator does not own.
\<close>

definition writes :: "binder_space \<Rightarrow> binder_space \<Rightarrow> bool" where
  "writes st st' \<longleftrightarrow> (\<exists>h. st' = st\<lparr>headers := h\<rparr> \<and> (\<forall>b \<in> set (buffers st).
     buf_free (h b) = buf_free (headers st b) \<and> async_transaction (h b) = async_transaction (headers st b) \<and>
     data_size (h b) = data_size (headers st b) \<and> offsets_size (h b) = offsets_size (headers st b)))"

inductive reach :: "binder_space \<Rightarrow> bool" where
  mapped: "unmapped st \<Longrightarrow> mappable a vma \<Longrightarrow>
    binder_mmap env mm (Some a) aliasing array_ok vma st = Some (st', vma', 0) \<Longrightarrow> reach st'"
| alloc: "reach st \<Longrightarrow> binder_alloc_buf env mm d p a st = Some (st', r) \<Longrightarrow> reach st'"
| free: "reach st \<Longrightarrow> b \<in> live st \<Longrightarrow> idle st b \<Longrightarrow> binder_free_buf mm b st = Some st' \<Longrightarrow> reach st'"
| written: "reach st \<Longrightarrow> writes st st' \<Longrightarrow> reach st'"
| closed: "reach st \<Longrightarrow> reach (binder_vma_close st)"

lemma shape_inv:
  assumes "alloc_inv st" "same_shape st st'" "free_async_space st' = free_async_space st"
    "\<And>b. b \<in> set (buffers st) \<Longrightarrow> used_size st' b = used_size st b \<and> async_transaction (headers st' b) = async_transaction (headers st b)"
  shows "alloc_inv st'"
proof -
  note s = same_shape_ok [OF assms(2)]
  have e: "buffers st' = buffers st" "buffer_size st' = buffer_size st" "\<And>b. b \<in> set (buffers st) \<Longrightarrow> buf_free (headers st' b) = buf_free (headers st b)"
    using assms(2) by (auto simp: same_shape_def)
  have "async_used st' = async_used st" unfolding async_used_def by (rule sum.cong) (use assms(4) e in auto)
  then show ?thesis using assms e s by (auto simp: alloc_inv_def used_ok_def budget_def)
qed

lemma reach_inv: "reach st \<Longrightarrow> alloc_inv st"
proof (induction rule: reach.induct)
  case (mapped st a vma env mm aliasing array_ok st' vma')
  have "st' = first_space a (unat (vma_end (moved a aliasing vma) - vma_start (moved a aliasing vma))) (vma_start vma - a) st"
    and "\<not> vma_start vma < vma_start (moved a aliasing vma)"
    using mapped(3) unfolding mmap_code [OF mapped(1)] by (auto simp: Let_def split: if_splits)
  then show ?case using first_space_mapped [OF mapped(1,2)] by blast
next
  case (alloc st env mm d p a st' r)
  then show ?case using pool.alloc_keeps [of st "(env, mm, d, p, a)" st' r] by (simp add: alloc_request_def)
next
  case (free st b mm st')
  then show ?case using pool.release_keeps by blast
next
  case (written st st')
  then obtain h where h: "st' = st\<lparr>headers := h\<rparr>" and keep: "\<forall>b \<in> set (buffers st).
     buf_free (h b) = buf_free (headers st b) \<and> async_transaction (h b) = async_transaction (headers st b) \<and>
     data_size (h b) = data_size (headers st b) \<and> offsets_size (h b) = offsets_size (headers st b)" unfolding writes_def by blast
  show ?case unfolding h
    by (rule shape_inv [OF written.IH]) (use keep in \<open>simp_all add: same_shape_def used_size_def\<close>)
next
  case (closed st)
  show ?case
    by (rule shape_inv [OF closed.IH]) (simp_all add: binder_vma_close_def same_shape_def used_size_def)
qed

section \<open>Properties\<close>

text \<open>A process with a region of two pages, and the same after a first allocation.\<close>

definition sample_space :: binder_space where
  "sample_space = first_space 0x1000 0x2000 0x30000 new_space"

definition sample_used :: binder_space where
  "sample_used = fst (the (binder_alloc_buf (\<lambda>_. Page_ok) True 5 8 True sample_space))"

lemma sample_space_inv: "alloc_inv sample_space"
  unfolding sample_space_def by (rule first_space_inv) (simp_all add: unmapped_def new_space_def)

lemma sample_space_simps:
  "buffers sample_space = [4096]" "buf_free (headers sample_space 4096)" "binder_buffer_size sample_space 4096 = 8152"
  "proc_vma sample_space" "free_async_space sample_space = 4096" "buf_transaction (headers sample_space 4096) = None"
  by (simp_all add: sample_space_def first_space_def binder_buffer_size_def new_space_def zero_header_def)

lemma sample_alloc: "binder_alloc_buf (\<lambda>_. Page_ok) True 5 8 True sample_space = Some (sample_used, Some 4096)"
proof -
  have "fits 5 8 4096 sample_space" by (simp add: fits_def sample_space_simps need_def)
  then have "can_alloc 5 8 True sample_space" by (simp add: can_alloc_def sample_space_simps need_def)
  then obtain b st1 where b: "binder_alloc_buf (\<lambda>_. Page_ok) True 5 8 True sample_space = Some (st1, Some b)" "fits 5 8 b sample_space"
    using alloc_cases [OF sample_space_inv, of "\<lambda>_. Page_ok" True 5 8 True] by (auto simp: sample_space_simps)
  then have "b = 4096" by (simp add: fits_def sample_space_simps)
  then show ?thesis using b(1) by (simp add: sample_used_def)
qed

lemma sample_used_inv: "alloc_inv sample_used" "4096 \<in> live sample_used" "idle sample_used 4096"
  using alloc_some_ok [OF sample_space_inv sample_alloc] by (auto simp: idle_def sample_space_simps)

lemma sample_mapped: "reach sample_space"
proof (rule reach.mapped)
  show "unmapped new_space" by (simp add: unmapped_def new_space_def)
  show "mappable 0x1000 \<lparr>vma_start = 0x31000, vma_end = 0x33000, vma_flags = 0\<rparr>" by (simp add: mappable_def capped_def)
  show "binder_mmap (\<lambda>_. Page_ok) True (Some 0x1000) False True \<lparr>vma_start = 0x31000, vma_end = 0x33000, vma_flags = 0\<rparr> new_space =
      Some (sample_space, moved 0x1000 False \<lparr>vma_start = 0x31000, vma_end = 0x33000, vma_flags = 0\<rparr>, 0)"
    by (subst mmap_code) (simp_all add: unmapped_def new_space_def sample_space_def moved_def)
qed

lemma lookup_ok:
  assumes "alloc_inv st"
  shows "binder_buffer_lookup u st =
    Some (if unat (u - user_buffer_offset st - 40) \<in> live st then Some (unat (u - user_buffer_offset st - 40)) else None)"
proof -
  have "alloc_tree (allocated_buffers st) (live st)" using assms by (simp add: alloc_inv_def trees_ok_def live_def)
  then show ?thesis unfolding binder_buffer_lookup_def
    by (subst find_allocated_ok) (auto simp: alloc_tree_def live_def)
qed

text \<open>
  C2: The Binder allocator keeps its region in order and never stops the kernel. In every state
  a process can reach from mapping the region by allocating, freeing buffers without a pending
  transaction, writing to buffers and closing the mapping, the buffers tile the region with no
  two free neighbours, both trees hold exactly the free and the allocated ones, exactly the
  pages that headers and live data need are mapped, and the asynchronous budget adds up; and the
  next allocation, look-up or such a free hits no assertion.
\<close>

theorem binder_never_panics:
  assumes "reach st"
  shows "tiled st \<and> trees_ok st \<and> pages_ok st \<and> used_ok st \<and> budget st \<and>
    binder_alloc_buf env mm d p a st \<noteq> None \<and> binder_buffer_lookup u st \<noteq> None \<and>
    (b \<in> live st \<and> idle st b \<longrightarrow> binder_free_buf mm b st \<noteq> None)"
proof -
  have inv: "alloc_inv st" using assms by (rule reach_inv)
  have "binder_alloc_buf env mm d p a st \<noteq> None"
    using pool.alloc_total [OF inv, of "(env, mm, d, p, a)"] by (auto simp: alloc_request_def)
  moreover have "b \<in> live st \<and> idle st b \<longrightarrow> binder_free_buf mm b st \<noteq> None" using pool.release_ok [OF inv] by fastforce
  ultimately show ?thesis using inv lookup_ok [OF inv] by (simp add: alloc_inv_def)
qed

theorem binder_never_panics_witness:
  "reach sample_used \<and> 4096 \<in> live sample_used \<and> pages_ok sample_used \<and> binder_free_buf True 4096 sample_used \<noteq> None"
proof -
  have "reach sample_used" using sample_mapped sample_alloc by (rule reach.alloc)
  then show ?thesis
    using binder_never_panics [of sample_used "\<lambda>_. Page_ok" True 1 1 False 0 4096] sample_used_inv by simp
qed

text \<open>
  C6: Allocation is best fit and fails only when it must. A request that succeeds gets the
  smallest free buffer that is large enough for both aligned sizes; its header holds the sizes,
  and no other allocated buffer changes. A request that fails changes nothing, and when pages
  are available it fails only if the sizes overflow 32 bits, the asynchronous budget is spent or
  no free buffer is large enough.
\<close>

theorem binder_alloc_best_fit:
  assumes "alloc_inv st"
  shows "\<exists>st' r. binder_alloc_buf env mm d p a st = Some (st', r) \<and> alloc_inv st' \<and> (case r of
      None \<Rightarrow> st' = st \<and> ((\<forall>i. env i = Page_ok) \<and> mm \<and> proc_vma st \<longrightarrow> \<not> can_alloc d p a st)
    | Some b \<Rightarrow> can_alloc d p a st \<and> fits d p b st \<and> (\<forall>c. fits d p c st \<longrightarrow> binder_buffer_size st b \<le> binder_buffer_size st c) \<and>
        live st' = insert b (live st) \<and> need d p \<le> binder_buffer_size st' b \<and>
        headers st' b = (headers st b)\<lparr>buf_free := False, data_size := d, offsets_size := p, async_transaction := a\<rparr> \<and>
        (\<forall>c \<in> live st. headers st' c = headers st c \<and> binder_buffer_size st' c = binder_buffer_size st c))"
proof -
  consider "binder_alloc_buf env mm d p a st = Some (st, None)" "(\<forall>i. env i = Page_ok) \<and> mm \<and> proc_vma st \<longrightarrow> \<not> can_alloc d p a st"
    | st' b where "binder_alloc_buf env mm d p a st = Some (st', Some b)" using alloc_cases [OF assms, of env mm d p a] by blast
  then show ?thesis
  proof cases
    case 1
    then show ?thesis using assms by simp
  next
    case 2
    then show ?thesis using alloc_some_ok [OF assms 2] by simp
  qed
qed

theorem binder_alloc_best_fit_witness:
  "alloc_inv sample_space \<and> alloc_inv sample_used \<and> live sample_used = insert 4096 (live sample_space) \<and> need 5 8 \<le> binder_buffer_size sample_used 4096"
  using binder_alloc_best_fit [OF sample_space_inv, of "\<lambda>_. Page_ok" True 5 8 True] sample_alloc sample_space_inv by auto

lemma freed_covers:
  assumes "tiled st" "freed b st st'" "b \<in> set (buffers st)"
  shows "\<exists>c \<in> set (buffers st'). buf_free (headers st' c) \<and> c \<le> b \<and> bend st b \<le> bend st' c"
proof -
  obtain xs ys where xs: "buffers st = xs @ b # ys" using assms(3) by (auto simp: in_set_conv_decomp)
  note t = tiled_at [OF assms(1) xs]
  have bs: "buffers st' = freed_list st xs b ys" "headers st' = (headers st)(b := (headers st b)\<lparr>buf_free := True\<rparr>)"
    and ti: "tiled st'" and f: "frame st st'" using assms(2) xs by (auto simp: freed_def)
  have up: "bend st b \<le> hd_or (region_end st) (trim_next st ys)"
    using t(3,4,8) trim_subset [of st ys] by (cases "trim_next st ys") auto
  show ?thesis
  proof (cases "xs \<noteq> [] \<and> buf_free (headers st (last xs))")
    case True
    then obtain ws a where a: "xs = ws @ [a]" "buf_free (headers st a)" by (metis append_butlast_last_id)
    then have "buffers st' = ws @ a # trim_next st ys" by (simp add: bs freed_list_def)
    note t' = tiled_at [OF ti this]
    have "bend st b \<le> bend st' a" using up by (simp add: t'(3) frame_end [OF f])
    then show ?thesis using a t(7) [of a] by (intro bexI [of _ a]) (auto simp: bs freed_list_def)
  next
    case False
    then have l: "buffers st' = xs @ b # trim_next st ys" by (auto simp: bs freed_list_def)
    have "bend st b \<le> bend st' b" using up by (simp add: tiled_at(3) [OF ti l] frame_end [OF f])
    then show ?thesis using l by (intro bexI [of _ b]) (auto simp: bs(2))
  qed
qed

text \<open>
  C7: Freeing merges. Freeing an allocated buffer without a pending transaction succeeds, takes
  exactly it from the allocated buffers, leaves every other allocated buffer's header and size,
  and gives its bytes to one free buffer of the region, in which free neighbours never meet;
  the invariant of the region, pages and budget included, holds again.
\<close>

theorem binder_free_merges:
  assumes "alloc_inv st" "b \<in> live st" "idle st b"
  shows "\<exists>st'. binder_free_buf mm b st = Some st' \<and> alloc_inv st' \<and> calm (blocks st') \<and> live st' = live st - {b} \<and>
    (\<forall>c \<in> live st - {b}. headers st' c = headers st c \<and> binder_buffer_size st' c = binder_buffer_size st c) \<and>
    (\<exists>c \<in> set (buffers st'). buf_free (headers st' c) \<and> c \<le> b \<and> bend st b \<le> bend st' c)"
proof -
  obtain st' where f: "binder_free_buf mm b st = Some st'" "freed b st st'" "alloc_inv st'" "live st' = live st - {b}"
    using free_ok [OF assms] by blast
  have b: "tiled st" "b \<in> set (buffers st)" "\<not> buf_free (headers st b)" using assms by (auto simp: alloc_inv_def live_def)
  have "headers st' c = headers st c \<and> binder_buffer_size st' c = binder_buffer_size st c" if "c \<in> live st - {b}" for c
    using that freed_others [OF b(1) f(2) b(2,3), of c] by (auto simp: live_def)
  then show ?thesis using f freed_covers [OF b(1) f(2) b(2)] by (auto simp: alloc_inv_def tiled_def)
qed

theorem binder_free_merges_witness:
  "alloc_inv sample_used \<and> 4096 \<in> live sample_used \<and> idle sample_used 4096 \<and>
    (\<exists>st'. binder_free_buf True 4096 sample_used = Some st' \<and> alloc_inv st' \<and> live st' = live sample_used - {4096})"
  using binder_free_merges [OF sample_used_inv, of True] sample_used_inv by blast

text \<open>
  C8: Allocating and freeing is a round trip. Freeing the buffer an allocation just returned
  gives back the same list of buffers, the same mapped pages, the same asynchronous budget and
  the same allocated buffers as before the allocation.
\<close>

theorem binder_alloc_free_roundtrip:
  assumes "alloc_inv st" "binder_alloc_buf env mm d p a st = Some (st1, Some b)" "idle st1 b"
  shows "\<exists>st2. binder_free_buf mm' b st1 = Some st2 \<and> alloc_inv st2 \<and> buffers st2 = buffers st \<and> pages st2 = pages st \<and>
    free_async_space st2 = free_async_space st \<and> live st2 = live st"
proof -
  obtain st' where t: "st1 = granted b d p a st'" "fits d p b st" "taken b (need d p) st st'"
    using alloc_cases [OF assms(1), of env mm d p a] assms(2) by auto
  note al = alloc_some_ok [OF assms(1,2)]
  have b1: "alloc_inv st1" "b \<in> live st1" using al by auto
  obtain st2 where f: "binder_free_buf mm' b st1 = Some st2" "freed b st1 st2" "alloc_inv st2" "live st2 = live st1 - {b}"
    using free_ok [OF b1 assms(3)] by blast
  have ti: "tiled st" and b: "b \<in> set (buffers st)" "buf_free (headers st b)" using assms(1) t(2) by (auto simp: alloc_inv_def fits_def)
  obtain xs ys where xs: "buffers st = xs @ b # ys" using b(1) by (auto simp: in_set_conv_decomp)
  note tt = tiled_at [OF ti xs]
  have calm: "xs \<noteq> [] \<Longrightarrow> \<not> buf_free (headers st (last xs))" "ys \<noteq> [] \<Longrightarrow> \<not> buf_free (headers st (hd ys))"
    using ti b(2) by (auto simp: tiled_def blocks_def xs calm_append calm_Cons last_map hd_map)
  have live: "live st2 = live st" using f(4) al by auto
  have old: "headers st1 c = headers st c" if "c \<in> set xs \<union> set ys" for c
    using that tt(10,11) taken_others(2) [OF ti t(3) b(1), of c] by (auto simp: t(1) xs)
  have ends: "xs \<noteq> [] \<Longrightarrow> \<not> buf_free (headers st1 (last xs))" "ys \<noteq> [] \<Longrightarrow> \<not> buf_free (headers st1 (hd ys))"
    using calm old by auto
  have "buffers st2 = buffers st"
  proof (cases "need d p + 44 < binder_buffer_size st b")
    case True
    define n where "n = b + 40 + need d p"
    have l: "buffers st1 = xs @ b # n # ys" using taken_list [OF t(3) xs tt(10)] True by (simp add: t(1) n_def)
    have "buf_free (headers st1 n)" using t(3) True by (simp add: t(1) taken_def Let_def n_def)
    then have "freed_list st1 xs b (n # ys) = xs @ b # ys" using ends(1) by (auto simp: freed_list_def trim_next_def)
    then show ?thesis using f(2) l xs by (simp add: freed_def)
  next
    case False
    have l: "buffers st1 = xs @ b # ys" using taken_list [OF t(3) xs tt(10)] False xs by (simp add: t(1))
    have "freed_list st1 xs b ys = xs @ b # ys" using ends by (cases ys) (auto simp: freed_list_def trim_next_def)
    then show ?thesis using f(2) l xs by (simp add: freed_def)
  qed
  note bs = this
  have fr: "frame st st2" using f(2) t(3) by (auto simp: freed_def frame_def t(1) taken_def)
  have "blocks st2 = blocks st"
  proof -
    have "buf_free (headers st2 c) = buf_free (headers st c)" if "c \<in> set (buffers st)" for c
      using live that bs by (auto simp: live_def)
    then show ?thesis by (simp add: blocks_def bs)
  qed
  then have "pages st2 = pages st"
    using f(3) assms(1) frame_end [OF fr] fr by (auto simp: alloc_inv_def pages_ok_def frame_def fun_eq_iff)
  moreover have "free_async_space st2 = free_async_space st"
    using f(2) t(3) by (auto simp: freed_def returned_def used_size_def t(1) taken_def)
  ultimately show ?thesis using f(1,3) bs live by blast
qed

theorem binder_alloc_free_roundtrip_witness:
  "alloc_inv sample_space \<and> binder_alloc_buf (\<lambda>_. Page_ok) True 5 8 True sample_space = Some (sample_used, Some 4096) \<and> idle sample_used 4096 \<and>
    (\<exists>st2. binder_free_buf False 4096 sample_used = Some st2 \<and> pages st2 = pages sample_space \<and> buffers st2 = [4096])"
  using binder_alloc_free_roundtrip [OF sample_space_inv sample_alloc sample_used_inv(3), of False]
    sample_space_inv sample_alloc sample_used_inv(3) sample_space_simps(1) by auto

text \<open>
  C36: A user pointer names at most one buffer. Looking up the address user space sees for the
  data of an allocated buffer gives that buffer; and a look-up that gives a buffer was made with
  exactly that address, for a buffer that is allocated. So a process cannot free a buffer
  through any other pointer.
\<close>

theorem binder_lookup_exact:
  assumes "alloc_inv st"
  shows "(b \<in> live st \<longrightarrow> binder_buffer_lookup (word_of_nat b + 40 + user_buffer_offset st) st = Some (Some b)) \<and>
    (binder_buffer_lookup u st = Some (Some c) \<longrightarrow> c \<in> live st \<and> u = word_of_nat c + 40 + user_buffer_offset st)"
proof -
  have "unat (word_of_nat b :: u32) = b" if "b \<in> live st"
  proof -
    obtain xs ys where "buffers st = xs @ b # ys" using \<open>b \<in> live st\<close> by (auto simp: live_def in_set_conv_decomp)
    note t = tiled_at [OF _ this]
    have "tiled st" "region_end st < 2 ^ 32" using assms by (auto simp: alloc_inv_def tiled_def placed_def)
    then have "b < 2 ^ 32" using t(2,4) by linarith
    then show ?thesis by (simp add: unat_of_nat)
  qed
  then show ?thesis by (auto simp: lookup_ok [OF assms] algebra_simps split: if_splits)
qed

theorem binder_lookup_exact_witness:
  "alloc_inv sample_used \<and> binder_buffer_lookup (word_of_nat 4096 + 40 + user_buffer_offset sample_used) sample_used = Some (Some 4096)"
  using binder_lookup_exact [OF sample_used_inv(1), of 4096] sample_used_inv by simp



end
