(* ===== verification/Spec2Isabelle.thy ===== *)
theory Spec2Isabelle
  imports Setids Ashmem_Props Logger_Props Rbtree_Props Binder_Space
begin

text \<open>
  The kernel of the OT 916D is a Linux 2.6 kernel with Android's additions. This library models
  the parts Android's security and communication rest on: who a task is and what it may do
  (credentials), the shared memory it hands to others (ashmem), the log it writes (logger), the
  trees most of the kernel keeps its objects in, and the memory into which Binder copies the
  messages it receives. Paths below are relative to
  \<^verbatim>\<open>src/kernel\<close>.

  \<^bold>\<open>Conventions.\<close> Each C function is a HOL function on an explicit state; locks are not
  modelled, so each function is one atomic step, as it is under its mutex. A C \<open>int\<close> is an
  \<^typ>\<open>int\<close>, 32-bit unsigned values are words where they can wrap. The result
  \<^term>\<open>None\<close> of a function with an option result is a \<open>BUG\<close>, a \<open>NULL\<close> dereference or an
  access outside an array, so a theorem that the result is \<^term>\<open>Some\<close> excludes these. Errors are
  the negative numbers the code returns. What the environment decides (whether an
  allocation succeeds, whether user memory faults, the clock) is an argument.
  \<^verbatim>\<open>Prelude\<close> holds the error numbers, word types and list lemmas all parts share.

  \<^bold>\<open>Credentials.\<close>
  \<^item> \<^verbatim>\<open>Supp_Groups\<close>: \<^verbatim>\<open>kernel/groups.c\<close>. A group array is spread over blocks; allocation
    balances, Shell sort sorts, binary search finds exactly the members.
  \<^item> \<^verbatim>\<open>Capability\<close>: \<^verbatim>\<open>kernel/capability.c\<close>, \<^verbatim>\<open>security/commoncap.c\<close> and the part of
    \<^verbatim>\<open>kernel/cred.c\<close> they use. \<open>capset\<close>, \<open>prctl\<close>, the hooks called when ids change and at exec.
  \<^item> \<^verbatim>\<open>Setids\<close>: the id calls of \<^verbatim>\<open>kernel/sys.c\<close>. No sequence of calls gives an unprivileged
    task an id or a capability it did not have; a refused call changes nothing.

  \<^bold>\<open>Shared memory.\<close> \<^verbatim>\<open>Ashmem\<close> holds \<^verbatim>\<open>mm/ashmem.c\<close>: areas and page ranges as maps from
    addresses to records, the per-area list in descending page order, the LRU list and its
    page count. The search of \<open>ashmem_unpin\<close> restarts after each merge; it is a function whose
    termination follows from the list getting shorter. \<^verbatim>\<open>Ashmem_Props\<close> has the invariant of
    reachable states, and that pin, unpin, pin status and the shrinker act as set
    operations on the unpinned and purged pages.

  \<^bold>\<open>Log.\<close> \<^verbatim>\<open>Logger\<close> holds \<^verbatim>\<open>drivers/staging/android/logger.c\<close>: the ring buffer as a byte list,
    readers by file. \<^verbatim>\<open>Logger_Props\<close> reads the ring as a queue of entries: writes append,
    reads take from the front, overwritten entries are dropped whole, and a reader that lost
    entries is told so.

  \<^bold>\<open>Red-black trees.\<close> \<^verbatim>\<open>Rbtree\<close> holds \<^verbatim>\<open>lib/rbtree.c\<close> and \<^verbatim>\<open>include/linux/rbtree.h\<close> as the
    code has them: a store of nodes at 32-bit addresses, parent and colour packed into one
    word, and functions that read and write it. \<^verbatim>\<open>Rb_Trees\<close> has the same algorithms on trees,
    with a path to the node at work instead of parent pointers, and shows that they keep the
    colour rules and the order of the nodes. \<^verbatim>\<open>Rbtree_Props\<close> relates the two: on a store that
    represents a tree, insertion, removal and walking end, follow no null pointer, and leave the
    store representing the tree the functions of \<^verbatim>\<open>Rb_Trees\<close> compute.

  \<^bold>\<open>Binder buffers.\<close> \<^verbatim>\<open>Binder_Alloc\<close> holds the allocator of
    \<^verbatim>\<open>drivers/staging/android/binder.c\<close> and the mapping of its region. Its two trees are trees of
    buffer addresses, changed by the functions of \<^verbatim>\<open>Rb_Trees\<close>; that the pointer code computes
    the same is what \<^verbatim>\<open>Rbtree_Props\<close> shows, for nodes of their own and not for nodes
    inside buffer headers. \<^verbatim>\<open>Binder_Alloc_Props\<close> has the invariant: the buffers tile the region
    with no two free neighbours, the trees hold the free and the allocated ones, exactly the pages
    headers and live data need are mapped, and the asynchronous budget adds up. \<^verbatim>\<open>Binder_Space\<close>
    shows that mapping establishes it, that allocating, freeing, writing to buffers and
    closing the mapping keep it, that allocation is best fit and fails only when it must, that
    freeing merges, and that no assertion of the code fails on the way.

  \<^bold>\<open>Locales.\<close> \<open>pinning\<close> is what a client of ashmem relies on (interpreted as \<open>pin\<close> on the
    operations of \<^verbatim>\<open>Ashmem\<close>), \<open>fifo\<close> what a client of a log relies on (interpreted as \<open>lq\<close>),
    \<open>ordered_nodes\<close> what a client of a tree relies on (interpreted as \<open>rb\<close> on the pointer code),
    \<open>buffer_pool\<close> what the rest of the Binder driver relies on (interpreted as \<open>pool\<close>).

  \<^bold>\<open>Bounds.\<close> Loops over lists are structural and most others have a termination proof. The loops
    over tree pointers may run forever on a store that is no tree; they are partial functions,
    and the theorems show that they return on a store that is one. The two client
    loops of \<^verbatim>\<open>Rbtree_Props\<close>, over all nodes and until a tree is empty, have fuel; the
    number of nodes is enough. Sizes the hypotheses bound (a log of at most \<open>2^31\<close> bytes, a Binder
    region of at most 4 MB) are those the code itself fixes. Mapping a Binder region on a
    processor with aliasing caches is shown for at least four pages: the code may skip three.

  \<^bold>\<open>Not modelled.\<close> The other drivers, file systems, network and architecture code, the
    \<^verbatim>\<open>mediatek\<close> tree and WebKit: none is called by the parts above except through the
    arguments named. Within the parts: printing to proc and debugfs, registration at
    module load, scheduling of waiting readers, locking, and reference counts that RCU
    callbacks release; the augmented trees of \<^verbatim>\<open>lib/rbtree.c\<close>; and of Binder everything but its
    buffers (nodes, references, transactions, threads).
\<close>

end
